(* ===== verification/Prelude.thy ===== *)
theory Prelude
  imports Complex_Main "HOL-Library.Word" "HOL-Library.Char_ord" "HOL-Library.List_Lexorder"
begin

text \<open>
  What every component of the virtual machine shares: the widths of the C integer types, the
  allocator, C strings, byte strings, the outcome of a fallible native call, and the generic
  lemmas on lists and machine arithmetic that the component proofs use.

  \<^item> \<open>size_t\<close> and \<open>uint64_t\<close> are \<open>nat\<close> with the reduction modulo \<open>2 ^ 64\<close> written where the source
    computes (\<open>u64\<close>), \<open>uint32_t\<close> likewise (\<open>u32\<close>); a signed \<open>int\<close> is an \<open>int\<close> with the
    two's-complement reduction \<open>int32\<close> written where the source adds or subtracts. The data model
    is LP64: \<open>SIZE_MAX\<close> is \<open>2 ^ 64 - 1\<close>.
  \<^item> \<open>uint8_t\<close> data is \<open>8 word\<close>; a \<open>char *\<close> is an Isabelle string. A C string ends at its first
    NUL, so \<open>strlen\<close> and \<open>strcmp\<close> read \<open>cstr\<close>, the part before it.
  \<^item> The allocator is a parameter: a \<open>heap\<close> grants or refuses a request by its kind and size.
\<close>

named_theorems c_types \<open>the C integer types, unfolded\<close>
named_theorems option_flow \<open>rules that walk through the error branches of a fallible operation\<close>

section \<open>Machine integers\<close>

definition SIZE_MAX :: nat where
  [c_types]: "SIZE_MAX = 2 ^ 64 - 1"

definition UINT64_MAX :: nat where
  [c_types]: "UINT64_MAX = 2 ^ 64 - 1"

definition u32 :: "nat \<Rightarrow> nat" where
  [c_types]: "u32 n = n mod 2 ^ 32"

definition u64 :: "nat \<Rightarrow> nat" where
  [c_types]: "u64 n = n mod 2 ^ 64"

definition int32 :: "int \<Rightarrow> int" where
  "int32 x = (x + 2 ^ 31) mod 2 ^ 32 - 2 ^ 31"

definition int32_range :: "int \<Rightarrow> bool" where
  "int32_range x \<longleftrightarrow> - (2 ^ 31) \<le> x \<and> x < 2 ^ 31"

definition int64 :: "int \<Rightarrow> int" where
  "int64 x = (x + 2 ^ 63) mod 2 ^ 64 - 2 ^ 63"

definition size_of_int :: "int \<Rightarrow> nat" where
  "size_of_int x = nat (x mod 2 ^ 64)"

lemma u32_id [simp]: "n < 4294967296 \<Longrightarrow> u32 n = n"
  by (simp add: u32_def)

lemma u64_id [simp]: "n < 18446744073709551616 \<Longrightarrow> u64 n = n"
  by (simp add: u64_def)

lemma int32_id [simp]: "int32_range x \<Longrightarrow> int32 x = x"
  by (simp add: int32_def int32_range_def)

lemma int64_id [simp]: "- (2 ^ 63) \<le> x \<Longrightarrow> x < 2 ^ 63 \<Longrightarrow> int64 x = x"
  by (simp add: int64_def)

lemma size_of_int_nat [simp]: "0 \<le> x \<Longrightarrow> x < 2 ^ 64 \<Longrightarrow> size_of_int x = nat x"
  by (simp add: size_of_int_def)

lemma int32_in_range: "int32_range (int32 x)"
proof -
  have "0 \<le> (x + 2 ^ 31) mod 2 ^ 32" and "(x + 2 ^ 31) mod 2 ^ 32 < 2 ^ 32"
    by simp_all
  then show ?thesis
    unfolding int32_def int32_range_def by (simp only: power_numeral) simp
qed

text \<open>What a C comparison function reports of two elements of a linear order.\<close>

definition three_way :: "'a::linorder \<Rightarrow> 'a \<Rightarrow> int" where
  "three_way x y = (if x < y then -1 else if x = y then 0 else 1)"

lemma three_way_iff [simp]:
  "three_way x y = 0 \<longleftrightarrow> x = y" "three_way x y < 0 \<longleftrightarrow> x < y" "three_way x y \<le> 0 \<longleftrightarrow> x \<le> y"
  "0 < three_way x y \<longleftrightarrow> y < x" "0 \<le> three_way x y \<longleftrightarrow> y \<le> x"
  by (auto simp: three_way_def)

section \<open>The allocator\<close>

text \<open>
  \<open>Limbs n\<close> is a limb array, \<open>Cell\<close> one runtime value or other fixed-size object, \<open>Chars n\<close> a byte
  or text buffer of \<open>n\<close> bytes and \<open>Slots n\<close> an array of \<open>n\<close> pointers or records. The request of
  size zero is a request like any other: C lets \<open>malloc(0)\<close> return NULL.
\<close>

datatype request = Limbs nat | Cell | Chars nat | Slots nat

type_synonym heap = "request \<Rightarrow> bool"

definition plentiful :: "heap \<Rightarrow> bool" where
  "plentiful h \<longleftrightarrow> (\<forall>r. h r)"

lemma plentifulD [simp]: "plentiful h \<Longrightarrow> h r"
  by (simp add: plentiful_def)

lemma plentiful_all [simp]: "plentiful (\<lambda>_. True)"
  by (simp add: plentiful_def)

section \<open>Bytes and C strings\<close>

type_synonym byte = "8 word"

definition byte_char :: "byte \<Rightarrow> char" where
  "byte_char b = char_of (unat b)"

definition char_byte :: "char \<Rightarrow> byte" where
  "char_byte c = word_of_nat (of_char c)"

abbreviation chars :: "byte list \<Rightarrow> string" where
  "chars \<equiv> map byte_char"

abbreviation bytes_of :: "string \<Rightarrow> byte list" where
  "bytes_of \<equiv> map char_byte"

lemma char_byte_char [simp]: "char_byte (byte_char b) = b"
  using unsigned_less [of b, where 'a = nat] by (simp add: byte_char_def char_byte_def)

lemma byte_char_byte [simp]: "byte_char (char_byte c) = c"
proof -
  have "(of_char c :: nat) < 256"
    by (cases c) (simp add: horner_sum_simps)
  then show ?thesis
    by (simp add: byte_char_def char_byte_def unat_of_nat)
qed

definition cstr :: "string \<Rightarrow> string" where
  "cstr s = takeWhile (\<lambda>c. c \<noteq> CHR 0x00) s"

lemma cstr_simps [simp]: "cstr [] = []" "c \<noteq> CHR 0x00 \<Longrightarrow> cstr (c # s) = c # cstr s"
  by (simp_all add: cstr_def)

lemma cstr_cstr [simp]: "cstr (cstr s) = cstr s"
  by (auto simp: cstr_def takeWhile_eq_all_conv dest: set_takeWhileD)

definition strlen :: "string \<Rightarrow> nat" where
  "strlen s = length (cstr s)"

text \<open>The order of two C strings as \<open>strcmp\<close> reports it; only the sign is specified.\<close>

definition strcmp :: "string \<Rightarrow> string \<Rightarrow> int" where
  "strcmp a b = (if cstr a = cstr b then 0 else if cstr a < cstr b then -1 else 1)"

lemma strcmp_0_iff: "strcmp a b = 0 \<longleftrightarrow> cstr a = cstr b"
  by (simp add: strcmp_def)

lemma strcmp_less_iff: "strcmp a b < 0 \<longleftrightarrow> cstr a < cstr b"
  by (simp add: strcmp_def)

lemma strcmp_ge_iff: "strcmp a b \<ge> 0 \<longleftrightarrow> cstr b \<le> cstr a"
  by (auto simp: strcmp_def)

section \<open>Outcomes of a native call\<close>

text \<open>
  A call that yields a \<open>Value *\<close> returns it, returns NULL after recording a diagnostic with its
  fault kind, or returns NULL with no diagnostic, which its caller reports as exhausted memory.
\<close>

datatype VMFaultKind = VM_FAULT_FATAL | VM_FAULT_REQUEST

datatype 'a outcome = Ret 'a | Trap string VMFaultKind | NoMemory

definition ret_opt :: "'a option \<Rightarrow> 'a outcome" where
  "ret_opt x = (case x of Some v \<Rightarrow> Ret v | None \<Rightarrow> NoMemory)"

lemma ret_opt_simps [simp]: "ret_opt (Some v) = Ret v" "ret_opt None = NoMemory"
  by (simp_all add: ret_opt_def)

lemma ret_opt_Ret [simp]: "ret_opt x = Ret v \<longleftrightarrow> x = Some v"
  by (cases x) simp_all

section \<open>Lists read outside their range as zero\<close>

definition hd0 :: "nat list \<Rightarrow> nat" where
  "hd0 xs = (case xs of [] \<Rightarrow> 0 | x # _ \<Rightarrow> x)"

lemma hd0_simps [simp]: "hd0 [] = 0" "hd0 (x # xs) = x"
  by (simp_all add: hd0_def)

section \<open>Exact integer arithmetic\<close>

text \<open>
  What a client of an integer representation relies on: a partial ring of representations, exact
  wherever it returns. The client facts are the cross-multiplication rules of fractions.
\<close>

locale exact_ring =
  fixes ok :: "'a \<Rightarrow> bool" and val :: "'a \<Rightarrow> int"
    and add sub mul :: "'a \<Rightarrow> 'a \<Rightarrow> 'a option"
  assumes add: "ok a \<Longrightarrow> ok b \<Longrightarrow> add a b = Some c \<Longrightarrow> ok c \<and> val c = val a + val b"
    and sub: "ok a \<Longrightarrow> ok b \<Longrightarrow> sub a b = Some c \<Longrightarrow> ok c \<and> val c = val a - val b"
    and mul: "ok a \<Longrightarrow> ok b \<Longrightarrow> mul a b = Some c \<Longrightarrow> ok c \<and> val c = val a * val b"
begin

lemma frac_add:
  assumes "ok n1" "ok d1" "ok n2" "ok d2" and "val d1 \<noteq> 0" "val d2 \<noteq> 0"
    and "mul n1 d2 = Some l" "mul n2 d1 = Some r" "add l r = Some n" "mul d1 d2 = Some d"
  shows "ok n \<and> ok d \<and> val d \<noteq> 0 \<and>
    (of_int (val n) / of_int (val d) :: rat) =
      of_int (val n1) / of_int (val d1) + of_int (val n2) / of_int (val d2)"
  using mul [OF assms(1,4,7)] mul [OF assms(3,2,8)] mul [OF assms(2,4,10)] add [OF _ _ assms(9)] assms(5,6)
  by (simp add: add_frac_eq)

lemma frac_sub:
  assumes "ok n1" "ok d1" "ok n2" "ok d2" and "val d1 \<noteq> 0" "val d2 \<noteq> 0"
    and "mul n1 d2 = Some l" "mul n2 d1 = Some r" "sub l r = Some n" "mul d1 d2 = Some d"
  shows "ok n \<and> ok d \<and> val d \<noteq> 0 \<and>
    (of_int (val n) / of_int (val d) :: rat) =
      of_int (val n1) / of_int (val d1) - of_int (val n2) / of_int (val d2)"
  using mul [OF assms(1,4,7)] mul [OF assms(3,2,8)] mul [OF assms(2,4,10)] sub [OF _ _ assms(9)] assms(5,6)
  by (simp add: diff_frac_eq)

lemma frac_mul:
  assumes "ok n1" "ok d1" "ok n2" "ok d2"
    and "mul n1 n2 = Some n" "mul d1 d2 = Some d"
  shows "ok n \<and> ok d \<and> (val d = 0 \<longleftrightarrow> val d1 = 0 \<or> val d2 = 0) \<and>
    (of_int (val n) / of_int (val d) :: rat) =
      of_int (val n1) / of_int (val d1) * (of_int (val n2) / of_int (val d2))"
  using mul [OF assms(1,3,5)] mul [OF assms(2,4,6)] by simp

lemma frac_compare:
  assumes "ok n1" "ok d1" "ok n2" "ok d2" and "val d1 > 0" "val d2 > 0"
    and "mul n1 d2 = Some l" "mul n2 d1 = Some r"
  shows "ok l \<and> ok r \<and> sgn (val l - val r) =
    three_way (of_int (val n1) / of_int (val d1) :: rat) (of_int (val n2) / of_int (val d2))"
proof -
  have "(of_int (val n1) / of_int (val d1) < (of_int (val n2) / of_int (val d2) :: rat)) \<longleftrightarrow>
      (of_int (val n1 * val d2) < (of_int (val n2 * val d1) :: rat))"
    using assms(5,6) by (simp add: divide_less_eq pos_less_divide_eq mult.commute mult.left_commute)
  moreover have "(of_int (val n1) / of_int (val d1) = (of_int (val n2) / of_int (val d2) :: rat)) \<longleftrightarrow>
      (of_int (val n1 * val d2) = (of_int (val n2 * val d1) :: rat))"
    using assms(5,6) by (simp add: frac_eq_eq)
  ultimately show ?thesis
    using mul [OF assms(1,4,7)] mul [OF assms(3,2,8)]
    unfolding three_way_def of_int_less_iff of_int_eq_iff by (auto simp: sgn_if)
qed

end

end
