(* ===== verification/Bigint.thy ===== *)
theory Bigint
  imports Prelude
begin

text \<open>
  Arbitrary-precision integers, \<open>src/vm/bigint.c\<close>: sign and magnitude, the magnitude as
  little-endian limbs in base \<open>10 ^ 9\<close>. \<open>big_val\<close> is the integer a \<open>PnBigInt\<close> stands for and
  \<open>big_ok\<close> the canonical form every operation keeps: limbs below the base, no leading zero limb,
  sign zero exactly for the empty magnitude.

  An operation that allocates takes the \<open>heap\<close> and returns \<open>None\<close> where the C function returns
  false. \<open>None\<close> also stands for an access outside the limb array; the totality lemmas show that an
  operation on canonical operands with enough memory returns, so no such access happens.
\<close>

section \<open>Representation\<close>

record PnBigInt =
  sign :: int
  limbs :: "nat list"

abbreviation BASE :: nat where
  "BASE \<equiv> 1000000000"

text \<open>\<open>while (value->len && value->limbs[value->len - 1] == 0) value->len--;\<close>\<close>

fun trim :: "nat list \<Rightarrow> nat list" where
  "trim ls = (if ls \<noteq> [] \<and> last ls = 0 then trim (butlast ls) else ls)"

definition normalize :: "PnBigInt \<Rightarrow> PnBigInt" where
  "normalize v =
     (let ls = trim (limbs v) in
      v\<lparr>limbs := ls, sign := (if ls = [] then 0 else sign v)\<rparr>)"

definition resize :: "heap \<Rightarrow> PnBigInt \<Rightarrow> nat \<Rightarrow> PnBigInt option" where
  "resize h v n =
     (if n > SIZE_MAX div 4 then None
      else if n \<noteq> 0 \<and> \<not> h (Limbs n) then None
      else Some (v\<lparr>limbs := take n (limbs v) @ replicate (n - length (limbs v)) 0\<rparr>))"

definition pn_big_init :: PnBigInt where
  "pn_big_init = \<lparr>sign = 0, limbs = []\<rparr>"

definition pn_big_copy :: "heap \<Rightarrow> PnBigInt \<Rightarrow> PnBigInt option" where
  "pn_big_copy h v =
     (case resize h pn_big_init (length (limbs v)) of
        None \<Rightarrow> None
      | Some out \<Rightarrow> Some (out\<lparr>limbs := limbs v, sign := sign v\<rparr>))"

section \<open>Small operands\<close>

fun count_limbs :: "nat \<Rightarrow> nat" where
  "count_limbs rest = (if rest = 0 then 0 else Suc (count_limbs (rest div BASE)))"

fun fill_limbs :: "nat \<Rightarrow> nat \<Rightarrow> nat list" where
  "fill_limbs 0 v = []"
| "fill_limbs (Suc n) v = u32 (v mod BASE) # fill_limbs n (v div BASE)"

definition pn_big_from_u64 :: "heap \<Rightarrow> nat \<Rightarrow> PnBigInt option" where
  "pn_big_from_u64 h v =
     (if v = 0 then Some pn_big_init
      else case resize h pn_big_init (count_limbs v) of
        None \<Rightarrow> None
      | Some out \<Rightarrow> Some (out\<lparr>limbs := fill_limbs (count_limbs v) v, sign := 1\<rparr>))"

fun mul_small_loop :: "nat \<Rightarrow> nat list \<Rightarrow> nat \<Rightarrow> nat list \<times> nat" where
  "mul_small_loop f [] carry = ([], carry)"
| "mul_small_loop f (l # ls) carry =
     (let product = u64 (l * f + carry);
          (rest, out) = mul_small_loop f ls (product div BASE)
      in (u32 (product mod BASE) # rest, out))"

definition append_carry :: "heap \<Rightarrow> PnBigInt \<Rightarrow> nat list \<times> nat \<Rightarrow> PnBigInt option" where
  "append_carry h v r =
     (case r of (ls, carry) \<Rightarrow>
        if carry = 0 then Some (v\<lparr>limbs := ls\<rparr>)
        else case resize h (v\<lparr>limbs := ls\<rparr>) (length ls + 1) of
          None \<Rightarrow> None
        | Some w \<Rightarrow> Some (w\<lparr>limbs := (limbs w)[length ls := u32 carry]\<rparr>))"

definition pn_big_mul_small :: "heap \<Rightarrow> PnBigInt \<Rightarrow> nat \<Rightarrow> PnBigInt option" where
  "pn_big_mul_small h v factor =
     (if sign v = 0 \<or> factor = 1 then Some v
      else if factor = 0 then Some (v\<lparr>limbs := [], sign := 0\<rparr>)
      else append_carry h v (mul_small_loop factor (limbs v) 0))"

fun add_small_loop :: "nat list \<Rightarrow> nat \<Rightarrow> nat list \<times> nat" where
  "add_small_loop [] carry = ([], carry)"
| "add_small_loop (l # ls) carry =
     (if carry = 0 then (l # ls, 0)
      else let total = u64 (l + carry);
               (rest, out) = add_small_loop ls (total div BASE)
           in (u32 (total mod BASE) # rest, out))"

definition pn_big_add_small :: "heap \<Rightarrow> PnBigInt \<Rightarrow> nat \<Rightarrow> PnBigInt option" where
  "pn_big_add_small h v addend =
     (if addend = 0 then Some v
      else if sign v = 0 then pn_big_from_u64 h addend
      else append_carry h v (add_small_loop (limbs v) addend))"

definition push_digit :: "heap \<Rightarrow> nat \<Rightarrow> PnBigInt \<Rightarrow> nat \<Rightarrow> PnBigInt option" where
  "push_digit h radix out d =
     (case pn_big_mul_small h out radix of
        None \<Rightarrow> None
      | Some v \<Rightarrow> pn_big_add_small h v d)"

fun from_bytes_loop :: "heap \<Rightarrow> PnBigInt \<Rightarrow> byte list \<Rightarrow> PnBigInt option" where
  "from_bytes_loop h out [] = Some out"
| "from_bytes_loop h out (b # bs) =
     (case push_digit h 256 out (unat b) of
        None \<Rightarrow> None
      | Some v \<Rightarrow> from_bytes_loop h v bs)"

definition pn_big_from_bytes :: "heap \<Rightarrow> byte list \<Rightarrow> PnBigInt option" where
  "pn_big_from_bytes h bs = from_bytes_loop h pn_big_init bs"

definition is_digit_char :: "char \<Rightarrow> bool" where
  "is_digit_char c \<longleftrightarrow> 48 \<le> (of_char c :: nat) \<and> (of_char c :: nat) \<le> 57"

definition digit_value :: "char \<Rightarrow> nat" where
  "digit_value c = of_char c - 48"

fun from_digits_loop :: "heap \<Rightarrow> PnBigInt \<Rightarrow> string \<Rightarrow> PnBigInt option" where
  "from_digits_loop h out [] = Some out"
| "from_digits_loop h out (c # cs) =
     (if \<not> is_digit_char c then None
      else case push_digit h 10 out (digit_value c) of
        None \<Rightarrow> None
      | Some v \<Rightarrow> from_digits_loop h v cs)"

definition pn_big_from_digits :: "heap \<Rightarrow> string \<Rightarrow> int \<Rightarrow> PnBigInt option" where
  "pn_big_from_digits h digits sgn_arg =
     (case from_digits_loop h pn_big_init digits of
        None \<Rightarrow> None
      | Some out \<Rightarrow>
          Some (if limbs out \<noteq> [] then out\<lparr>sign := (if sgn_arg < 0 then -1 else 1)\<rparr> else out))"

text \<open>\<open>printf("%u")\<close> and \<open>printf("%09u")\<close> of one limb.\<close>

definition digit_char :: "nat \<Rightarrow> char" where
  "digit_char d = char_of (48 + d)"

fun show_u :: "nat \<Rightarrow> string" where
  "show_u n = (if n < 10 then [digit_char n] else show_u (n div 10) @ [digit_char (n mod 10)])"

fun show_padded :: "nat \<Rightarrow> nat \<Rightarrow> string" where
  "show_padded 0 n = []"
| "show_padded (Suc w) n = show_padded w (n div 10) @ [digit_char (n mod 10)]"

definition pn_big_string :: "heap \<Rightarrow> PnBigInt \<Rightarrow> string option" where
  "pn_big_string h v =
     (if sign v = 0 then (if h (Chars 2) then Some ''0'' else None)
      else if \<not> h (Chars (u64 (length (limbs v) * 9 + 2))) then None
      else Some ((if sign v < 0 then ''-'' else '''') @ show_u (last (limbs v)) @
                 concat (map (show_padded 9) (rev (butlast (limbs v))))))"

section \<open>Comparison, addition, subtraction\<close>

fun cmp_limbs :: "nat list \<Rightarrow> nat list \<Rightarrow> int" where
  "cmp_limbs (x # xs) (y # ys) =
     (if x \<noteq> y then (if x < y then -1 else 1) else cmp_limbs xs ys)"
| "cmp_limbs _ _ = 0"

definition abs_compare :: "PnBigInt \<Rightarrow> PnBigInt \<Rightarrow> int" where
  "abs_compare a b =
     (if length (limbs a) \<noteq> length (limbs b)
      then (if length (limbs a) < length (limbs b) then -1 else 1)
      else cmp_limbs (rev (limbs a)) (rev (limbs b)))"

definition pn_big_compare :: "PnBigInt \<Rightarrow> PnBigInt \<Rightarrow> int" where
  "pn_big_compare a b =
     (if sign a \<noteq> sign b then (if sign a < sign b then -1 else 1)
      else if sign a < 0 then - abs_compare a b else abs_compare a b)"

fun add_loop :: "nat \<Rightarrow> nat list \<Rightarrow> nat list \<Rightarrow> nat \<Rightarrow> nat list" where
  "add_loop 0 a b carry = [u32 carry]"
| "add_loop (Suc n) a b carry =
     (let total = u64 (carry + hd0 a + hd0 b)
      in u32 (total mod BASE) # add_loop n (tl a) (tl b) (total div BASE))"

definition abs_add :: "heap \<Rightarrow> PnBigInt \<Rightarrow> PnBigInt \<Rightarrow> PnBigInt option" where
  "abs_add h a b =
     (let count = max (length (limbs a)) (length (limbs b)) + 1 in
      case resize h pn_big_init count of
        None \<Rightarrow> None
      | Some out \<Rightarrow>
          Some (normalize (out\<lparr>limbs := add_loop (count - 1) (limbs a) (limbs b) 0\<rparr>)))"

fun sub_loop :: "nat list \<Rightarrow> nat list \<Rightarrow> int \<Rightarrow> nat list" where
  "sub_loop [] b borrow = []"
| "sub_loop (x # xs) b borrow =
     (let diff = int x - int (hd0 b) - borrow
      in if diff < 0 then u32 (nat (diff + int BASE)) # sub_loop xs (tl b) 1
         else u32 (nat diff) # sub_loop xs (tl b) 0)"

definition abs_sub :: "heap \<Rightarrow> PnBigInt \<Rightarrow> PnBigInt \<Rightarrow> PnBigInt option" where
  "abs_sub h a b =
     (case resize h pn_big_init (length (limbs a)) of
        None \<Rightarrow> None
      | Some out \<Rightarrow> Some (normalize (out\<lparr>limbs := sub_loop (limbs a) (limbs b) 0\<rparr>)))"

definition pn_big_add :: "heap \<Rightarrow> PnBigInt \<Rightarrow> PnBigInt \<Rightarrow> PnBigInt option" where
  "pn_big_add h a b =
     (if sign a = 0 then pn_big_copy h b
      else if sign b = 0 then pn_big_copy h a
      else if sign a = sign b then
        (case abs_add h a b of
           None \<Rightarrow> None
         | Some out \<Rightarrow> Some (out\<lparr>sign := sign a\<rparr>))
      else
        let cmp = abs_compare a b in
        if cmp = 0 then Some pn_big_init
        else case (if cmp > 0 then abs_sub h a b else abs_sub h b a) of
          None \<Rightarrow> None
        | Some out \<Rightarrow> Some (out\<lparr>sign := (if cmp > 0 then sign a else sign b)\<rparr>))"

definition pn_big_sub :: "heap \<Rightarrow> PnBigInt \<Rightarrow> PnBigInt \<Rightarrow> PnBigInt option" where
  "pn_big_sub h a b = pn_big_add h a (b\<lparr>sign := - sign b\<rparr>)"

section \<open>Multiplication\<close>

text \<open>
  One row of the schoolbook product: \<open>out\<close> is the result array from index \<open>i\<close> on. \<open>None\<close> is an
  index past the end of the array.
\<close>

fun carry_row :: "nat list \<Rightarrow> nat \<Rightarrow> nat list option" where
  "carry_row [] carry = (if carry = 0 then Some [] else None)"
| "carry_row (x # xs) carry =
     (if carry = 0 then Some (x # xs)
      else let current = u64 (x + carry) in
        case carry_row xs (current div BASE) of
          None \<Rightarrow> None
        | Some rest \<Rightarrow> Some (u32 (current mod BASE) # rest))"

fun mul_row :: "nat \<Rightarrow> nat list \<Rightarrow> nat list \<Rightarrow> nat \<Rightarrow> nat list option" where
  "mul_row x [] out carry = carry_row out carry"
| "mul_row x (y # ys) [] carry = None"
| "mul_row x (y # ys) (z # zs) carry =
     (let current = u64 (z + x * y + carry) in
      case mul_row x ys zs (current div BASE) of
        None \<Rightarrow> None
      | Some rest \<Rightarrow> Some (u32 (current mod BASE) # rest))"

fun mul_rows :: "nat list \<Rightarrow> nat list \<Rightarrow> nat list \<Rightarrow> nat list option" where
  "mul_rows [] bs out = Some out"
| "mul_rows (x # xs) bs out =
     (case mul_row x bs out 0 of
        Some (z # zs) \<Rightarrow> (case mul_rows xs bs zs of None \<Rightarrow> None | Some rest \<Rightarrow> Some (z # rest))
      | _ \<Rightarrow> None)"

definition pn_big_mul :: "heap \<Rightarrow> PnBigInt \<Rightarrow> PnBigInt \<Rightarrow> PnBigInt option" where
  "pn_big_mul h a b =
     (if sign a = 0 \<or> sign b = 0 then Some pn_big_init
      else if length (limbs a) > SIZE_MAX - length (limbs b) then None
      else case resize h pn_big_init (length (limbs a) + length (limbs b)) of
        None \<Rightarrow> None
      | Some out \<Rightarrow>
          (case mul_rows (limbs a) (limbs b) (limbs out) of
             None \<Rightarrow> None
           | Some ls \<Rightarrow> Some (normalize (out\<lparr>limbs := ls, sign := sign a * sign b\<rparr>))))"

section \<open>Division\<close>

text \<open>The limbs most significant first, as the source's loop visits them.\<close>

fun div_small_loop :: "nat \<Rightarrow> nat list \<Rightarrow> nat \<Rightarrow> nat list \<times> nat" where
  "div_small_loop d [] remainder = ([], remainder)"
| "div_small_loop d (l # ls) remainder =
     (let current = u64 (remainder * BASE + l);
          (rest, out) = div_small_loop d ls (current mod d)
      in (u32 (current div d) # rest, out))"

definition pn_big_div_small :: "PnBigInt \<Rightarrow> nat \<Rightarrow> PnBigInt \<times> nat" where
  "pn_big_div_small v divisor =
     (case div_small_loop divisor (rev (limbs v)) 0 of
        (qs, r) \<Rightarrow> (normalize (v\<lparr>limbs := rev qs\<rparr>), u32 r))"

definition shift_base_add :: "heap \<Rightarrow> PnBigInt \<Rightarrow> nat \<Rightarrow> PnBigInt option" where
  "shift_base_add h v limb =
     (if limbs v = [] \<and> limb = 0 then Some v
      else case resize h v (length (limbs v) + 1) of
        None \<Rightarrow> None
      | Some w \<Rightarrow> Some (w\<lparr>limbs := limb # limbs v, sign := 1\<rparr>))"

text \<open>The binary search for one quotient digit.\<close>

function search_digit ::
  "heap \<Rightarrow> PnBigInt \<Rightarrow> PnBigInt \<Rightarrow> nat \<Rightarrow> nat \<Rightarrow> nat \<Rightarrow> nat option" where
  "search_digit h bb r lo hi best =
     (if lo \<le> hi then
        let mid = lo + (hi - lo) div 2 in
        case pn_big_copy h bb of
          None \<Rightarrow> None
        | Some probe \<Rightarrow>
            (case pn_big_mul_small h probe mid of
               None \<Rightarrow> None
             | Some probe \<Rightarrow>
                 if abs_compare probe r \<le> 0 then
                   (if mid = BASE - 1 then Some mid
                    else search_digit h bb r (mid + 1) hi mid)
                 else
                   (if mid = 0 then Some best
                    else search_digit h bb r lo (mid - 1) best))
      else Some best)"
  by pat_completeness auto
termination
  by (relation "measure (\<lambda>(h, bb, r, lo, hi, best). Suc hi - lo)") auto

definition reduce_remainder :: "heap \<Rightarrow> PnBigInt \<Rightarrow> PnBigInt \<Rightarrow> nat \<Rightarrow> PnBigInt option" where
  "reduce_remainder h bb r best =
     (if best = 0 then Some r
      else case pn_big_copy h bb of
        None \<Rightarrow> None
      | Some product \<Rightarrow>
          (case pn_big_mul_small h product best of
             None \<Rightarrow> None
           | Some product \<Rightarrow> abs_sub h r product))"

fun divmod_loop ::
  "heap \<Rightarrow> PnBigInt \<Rightarrow> nat list \<Rightarrow> PnBigInt \<Rightarrow> (nat list \<times> PnBigInt) option" where
  "divmod_loop h bb [] r = Some ([], r)"
| "divmod_loop h bb (l # ls) r =
     (case shift_base_add h r l of
        None \<Rightarrow> None
      | Some r \<Rightarrow>
          (case search_digit h bb r 0 (BASE - 1) 0 of
             None \<Rightarrow> None
           | Some best \<Rightarrow>
               (case reduce_remainder h bb r best of
                  None \<Rightarrow> None
                | Some r \<Rightarrow>
                    (case divmod_loop h bb ls r of
                       None \<Rightarrow> None
                     | Some (qs, r) \<Rightarrow> Some (best # qs, r)))))"

definition pn_big_divmod ::
  "heap \<Rightarrow> PnBigInt \<Rightarrow> PnBigInt \<Rightarrow> (PnBigInt \<times> PnBigInt) option" where
  "pn_big_divmod h a b =
     (if sign b = 0 then None
      else case pn_big_copy h a of
        None \<Rightarrow> None
      | Some aa \<Rightarrow>
     (case pn_big_copy h b of
        None \<Rightarrow> None
      | Some bb \<Rightarrow>
     let aa = aa\<lparr>sign := (if limbs aa \<noteq> [] then 1 else 0)\<rparr>;
         bb = bb\<lparr>sign := (if limbs bb \<noteq> [] then 1 else 0)\<rparr> in
     if abs_compare aa bb < 0 then
       (case pn_big_copy h a of None \<Rightarrow> None | Some r \<Rightarrow> Some (pn_big_init, r))
     else case resize h pn_big_init (length (limbs aa)) of
        None \<Rightarrow> None
      | Some q \<Rightarrow>
     (case divmod_loop h bb (rev (limbs aa)) pn_big_init of
        None \<Rightarrow> None
      | Some (qs, r) \<Rightarrow>
          Some (normalize (q\<lparr>limbs := rev qs,
                             sign := (if qs \<noteq> [] then sign a * sign b else 0)\<rparr>),
                r\<lparr>sign := (if limbs r \<noteq> [] then sign a else 0)\<rparr>))))"

section \<open>Powers of ten, predicates, conversion to size\<close>

fun pn_big_pow10 :: "heap \<Rightarrow> PnBigInt \<Rightarrow> nat \<Rightarrow> PnBigInt option" where
  "pn_big_pow10 h v 0 = Some v"
| "pn_big_pow10 h v (Suc n) =
     (case pn_big_mul_small h v 10 of
        None \<Rightarrow> None
      | Some w \<Rightarrow> pn_big_pow10 h w n)"

definition pn_big_is_zero :: "PnBigInt \<Rightarrow> bool" where
  "pn_big_is_zero v \<longleftrightarrow> sign v = 0"

definition pn_big_is_one :: "PnBigInt \<Rightarrow> bool" where
  "pn_big_is_one v \<longleftrightarrow> sign v = 1 \<and> limbs v = [1]"

fun fits_loop :: "nat list \<Rightarrow> nat \<Rightarrow> nat option" where
  "fits_loop [] result = Some result"
| "fits_loop (l # ls) result =
     (if result > (SIZE_MAX - l) div BASE then None
      else fits_loop ls (u64 (result * BASE + l)))"

definition pn_big_fits_size :: "PnBigInt \<Rightarrow> nat option" where
  "pn_big_fits_size v = (if sign v < 0 then None else fits_loop (rev (limbs v)) 0)"

section \<open>The integer a representation stands for\<close>

fun mag :: "nat list \<Rightarrow> nat" where
  "mag [] = 0"
| "mag (l # ls) = l + BASE * mag ls"

definition small_limbs :: "nat list \<Rightarrow> bool" where
  "small_limbs ls \<longleftrightarrow> (\<forall>l \<in> set ls. l < BASE)"

definition canonical :: "nat list \<Rightarrow> bool" where
  "canonical ls \<longleftrightarrow> small_limbs ls \<and> (ls \<noteq> [] \<longrightarrow> last ls \<noteq> 0)"

definition big_val :: "PnBigInt \<Rightarrow> int" where
  "big_val v = sign v * int (mag (limbs v))"

definition big_ok :: "PnBigInt \<Rightarrow> bool" where
  "big_ok v \<longleftrightarrow>
     canonical (limbs v) \<and> sign v \<in> {-1, 0, 1} \<and> (sign v = 0 \<longleftrightarrow> limbs v = [])"

declare trim.simps [simp del] count_limbs.simps [simp del] show_u.simps [simp del]
  search_digit.simps [simp del]

subsection \<open>Magnitudes of limb lists\<close>

lemma small_limbs_simps [simp]:
  "small_limbs []"
  "small_limbs (l # ls) \<longleftrightarrow> l < BASE \<and> small_limbs ls"
  "small_limbs (xs @ ys) \<longleftrightarrow> small_limbs xs \<and> small_limbs ys"
  "small_limbs (rev xs) \<longleftrightarrow> small_limbs xs"
  "small_limbs (replicate n 0)"
  by (auto simp: small_limbs_def)

lemma small_limbs_butlast: "small_limbs ls \<Longrightarrow> small_limbs (butlast ls)"
  by (auto simp: small_limbs_def dest: in_set_butlastD)

lemma mag_append [simp]: "mag (xs @ ys) = mag xs + BASE ^ length xs * mag ys"
  by (induction xs) (simp_all add: algebra_simps)

lemma mag_replicate [simp]: "mag (replicate n 0) = 0"
  by (induction n) simp_all

lemma mag_less: "small_limbs ls \<Longrightarrow> mag ls < BASE ^ length ls"
proof (induction ls)
  case (Cons l ls)
  then have "mag ls + 1 \<le> BASE ^ length ls" and "l < BASE" by simp_all
  then have "BASE * (mag ls + 1) \<le> BASE * BASE ^ length ls" by (intro mult_le_mono2)
  with \<open>l < BASE\<close> show ?case by simp
qed simp

lemma mag_snoc_ge:
  assumes "ls \<noteq> []" and "last ls \<noteq> 0"
  shows "BASE ^ (length ls - 1) \<le> mag ls"
proof -
  from assms(1) have "mag ls = mag (butlast ls @ [last ls])" by simp
  also have "\<dots> = mag (butlast ls) + BASE ^ (length ls - 1) * last ls"
    using assms(1) by (simp del: append_butlast_last_id)
  finally show ?thesis using assms(2) by (simp add: trans_le_add2)
qed

lemma canonical_mag_0 [simp]: "canonical ls \<Longrightarrow> mag ls = 0 \<longleftrightarrow> ls = []"
proof
  assume "canonical ls" and "mag ls = 0"
  show "ls = []"
  proof (rule ccontr)
    assume "ls \<noteq> []"
    with \<open>canonical ls\<close> have "BASE ^ (length ls - 1) \<le> mag ls"
      by (intro mag_snoc_ge) (simp_all add: canonical_def)
    with \<open>mag ls = 0\<close> show False by simp
  qed
qed simp

lemma mag_inj:
  "length xs = length ys \<Longrightarrow> small_limbs xs \<Longrightarrow> small_limbs ys \<Longrightarrow> mag xs = mag ys \<Longrightarrow> xs = ys"
proof (induction xs ys rule: list_induct2)
  case (Cons x xs y ys)
  from Cons.prems have "x < BASE" "y < BASE" "x + BASE * mag xs = y + BASE * mag ys" by simp_all
  then have "x = y" and "mag xs = mag ys"
    by (metis mod_less mod_mult_self2, metis add_right_imp_eq div_mult_self2 div_less plus_nat.add_0 zero_neq_numeral)
  with Cons show ?case by simp
qed simp

lemma canonical_mag_less:
  assumes "canonical xs" and "canonical ys" and "length xs < length ys"
  shows "mag xs < mag ys"
proof -
  from assms have "mag xs < BASE ^ length xs" by (simp add: canonical_def mag_less)
  also from assms(3) have "\<dots> \<le> BASE ^ (length ys - 1)" by (intro power_increasing) simp_all
  also from assms(2,3) have "\<dots> \<le> mag ys" by (intro mag_snoc_ge) (auto simp: canonical_def)
  finally show ?thesis .
qed

lemma canonical_inj: "canonical xs \<Longrightarrow> canonical ys \<Longrightarrow> mag xs = mag ys \<Longrightarrow> xs = ys"
  using canonical_mag_less [of xs ys] canonical_mag_less [of ys xs] mag_inj [of xs ys]
  by (cases "length xs" "length ys" rule: linorder_cases) (auto simp: canonical_def)

subsection \<open>Trimming\<close>

lemma trim_last: "trim ls \<noteq> [] \<Longrightarrow> last (trim ls) \<noteq> 0"
  by (induction ls rule: trim.induct) (metis trim.simps)

lemma mag_butlast: "ls \<noteq> [] \<Longrightarrow> last ls = 0 \<Longrightarrow> mag (butlast ls) = mag ls"
  by (metis append_butlast_last_id mag.simps mag_append add_0_right mult_0_right)

lemma mag_trim [simp]: "mag (trim ls) = mag ls"
proof (induction ls rule: trim.induct)
  case (1 ls)
  then show ?case
    by (cases "ls \<noteq> [] \<and> last ls = 0") (auto simp: trim.simps [of ls] mag_butlast)
qed

lemma small_limbs_trim: "small_limbs ls \<Longrightarrow> small_limbs (trim ls)"
proof (induction ls rule: trim.induct)
  case (1 ls)
  then show ?case
    by (cases "ls \<noteq> [] \<and> last ls = 0") (auto simp: trim.simps [of ls] small_limbs_butlast)
qed

lemma canonical_trim: "small_limbs ls \<Longrightarrow> canonical (trim ls)"
  by (simp add: canonical_def small_limbs_trim trim_last)

lemma length_trim: "length (trim ls) \<le> length ls"
proof (induction ls rule: trim.induct)
  case (1 ls)
  then show ?case
    by (cases "ls \<noteq> [] \<and> last ls = 0") (auto simp: trim.simps [of ls])
qed

lemma limbs_normalize [simp]: "limbs (normalize v) = trim (limbs v)"
  by (simp add: normalize_def Let_def)

lemma sign_normalize [simp]:
  "sign (normalize v) = (if trim (limbs v) = [] then 0 else sign v)"
  by (simp add: normalize_def Let_def)

lemma big_val_normalize [simp]: "big_val (normalize v) = big_val v"
  using mag_trim [of "limbs v"] by (auto simp: big_val_def simp del: mag_trim)

lemma big_ok_normalize:
  "small_limbs (limbs v) \<Longrightarrow> sign v \<in> {-1, 1} \<Longrightarrow> big_ok (normalize v)"
  by (auto simp: big_ok_def canonical_trim)

subsection \<open>Canonical representations are unique\<close>

lemma big_ok_canonical: "big_ok v \<Longrightarrow> canonical (limbs v)"
  by (simp add: big_ok_def)

lemma big_ok_small: "big_ok v \<Longrightarrow> small_limbs (limbs v)"
  by (simp add: big_ok_def canonical_def)

lemma big_val_0_iff: "big_ok v \<Longrightarrow> big_val v = 0 \<longleftrightarrow> sign v = 0"
  by (auto simp: big_val_def big_ok_def)

lemma big_val_sgn: "big_ok v \<Longrightarrow> sgn (big_val v) = sign v"
  by (auto simp: big_val_def big_ok_def sgn_mult)

lemma big_val_abs: "big_ok v \<Longrightarrow> \<bar>big_val v\<bar> = int (mag (limbs v))"
  by (auto simp: big_val_def big_ok_def abs_mult)

lemma big_val_inj:
  assumes "big_ok a" and "big_ok b" and "big_val a = big_val b"
  shows "a = b"
proof -
  from assms have "sign a = sign b" by (metis big_val_sgn)
  moreover from assms have "mag (limbs a) = mag (limbs b)" by (metis big_val_abs nat_int)
  then have "limbs a = limbs b"
    using assms(1,2) by (intro canonical_inj) (simp_all add: big_ok_def)
  ultimately show ?thesis by simp
qed

lemma big_init [simp]: "big_ok pn_big_init" "big_val pn_big_init = 0"
  by (simp_all add: pn_big_init_def big_ok_def big_val_def canonical_def)


subsection \<open>Allocation\<close>

definition room :: "heap \<Rightarrow> nat \<Rightarrow> bool" where
  "room h n \<longleftrightarrow> n \<le> SIZE_MAX div 4 \<and> (n = 0 \<or> h (Limbs n))"

lemma resize_eq:
  "resize h v n =
     (if room h n then Some (v\<lparr>limbs := take n (limbs v) @ replicate (n - length (limbs v)) 0\<rparr>)
      else None)"
  by (auto simp: resize_def room_def)

lemma pn_big_copy_eq: "pn_big_copy h v = (if room h (length (limbs v)) then Some v else None)"
  by (simp add: pn_big_copy_def resize_eq pn_big_init_def)

lemma room_plentiful: "plentiful h \<Longrightarrow> n \<le> SIZE_MAX div 4 \<Longrightarrow> room h n"
  by (simp add: room_def)

lemma pn_big_copy_Some [option_flow]: "pn_big_copy h v = Some w \<Longrightarrow> w = v"
  by (simp add: pn_big_copy_eq split: if_splits)

subsection \<open>Small operands\<close>

lemma length_fill_limbs [simp]: "length (fill_limbs n v) = n"
  by (induction n arbitrary: v) simp_all

lemma small_fill_limbs: "small_limbs (fill_limbs n v)"
  by (induction n arbitrary: v) simp_all

lemma mag_fill_limbs: "mag (fill_limbs (count_limbs v) v) = v"
proof (induction v rule: count_limbs.induct)
  case (1 v)
  show ?case
  proof (cases "v = 0")
    case False
    with 1 have "mag (fill_limbs (count_limbs (v div BASE)) (v div BASE)) = v div BASE" by simp
    with False show ?thesis by (simp add: count_limbs.simps [of v])
  qed (simp add: count_limbs.simps)
qed

lemma fill_limbs_last:
  "v \<noteq> 0 \<Longrightarrow> fill_limbs (count_limbs v) v \<noteq> [] \<and> last (fill_limbs (count_limbs v) v) \<noteq> 0"
proof (induction v rule: count_limbs.induct)
  case (1 v)
  show ?case
  proof (cases "v div BASE = 0")
    case True
    with 1 show ?thesis by (simp add: count_limbs.simps)
  next
    case False
    with 1 have "fill_limbs (count_limbs (v div BASE)) (v div BASE) \<noteq> [] \<and>
      last (fill_limbs (count_limbs (v div BASE)) (v div BASE)) \<noteq> 0" by simp
    with 1 show ?thesis by (simp add: count_limbs.simps [of v])
  qed
qed

lemma from_u64_correct:
  assumes "pn_big_from_u64 h v = Some w"
  shows "big_ok w \<and> big_val w = int v"
proof (cases "v = 0")
  case False
  with assms have "w = \<lparr>sign = 1, limbs = fill_limbs (count_limbs v) v\<rparr>"
    by (simp add: pn_big_from_u64_def resize_eq pn_big_init_def split: if_splits)
  with False show ?thesis
    using fill_limbs_last [of v]
    by (simp add: big_ok_def big_val_def canonical_def small_fill_limbs mag_fill_limbs)
qed (use assms in \<open>simp add: pn_big_from_u64_def\<close>)

lemma from_u64_total: "v = 0 \<or> room h (count_limbs v) \<Longrightarrow> \<exists>w. pn_big_from_u64 h v = Some w"
  by (auto simp: pn_big_from_u64_def resize_eq)

lemma count_limbs_small: "v < BASE \<Longrightarrow> count_limbs v = (if v = 0 then 0 else 1)"
  by (simp add: count_limbs.simps)

lemma mul_small_loop_correct:
  assumes "small_limbs ls" and "f \<le> BASE" and "carry < f"
    and "mul_small_loop f ls carry = (rs, out)"
  shows "mag rs + BASE ^ length ls * out = mag ls * f + carry \<and>
    small_limbs rs \<and> length rs = length ls \<and> out < f"
  using assms
proof (induction ls arbitrary: carry rs out)
  case (Cons l ls)
  let ?p = "l * f + carry"
  from Cons.prems have lf: "l \<le> BASE - 1" "f \<le> BASE" "carry < f" by simp_all
  then have "l * f + carry < (BASE - 1) * f + f" by (intro add_le_less_mono mult_le_mono1) simp_all
  then have p: "?p < BASE * f" by (simp add: algebra_simps)
  also from lf have "BASE * f \<le> BASE * BASE" by (intro mult_le_mono2)
  finally have u: "u64 ?p = ?p" by simp
  obtain rs' where rs: "mul_small_loop f ls (?p div BASE) = (rs', out)"
      "rs = ?p mod BASE # rs'"
    using Cons.prems(4) by (auto simp: u Let_def split: prod.splits)
  from p have "?p div BASE < f" by (simp add: less_mult_imp_div_less mult.commute)
  from Cons.IH [OF _ lf(2) this rs(1)] Cons.prems(1)
  have IH: "mag rs' + BASE ^ length ls * out = mag ls * f + ?p div BASE"
      "small_limbs rs'" "length rs' = length ls" "out < f" by simp_all
  have "mag rs + BASE ^ length (l # ls) * out =
      ?p mod BASE + BASE * (mag rs' + BASE ^ length ls * out)"
    by (simp add: rs(2) algebra_simps)
  also have "\<dots> = ?p mod BASE + BASE * (mag ls * f + ?p div BASE)"
    by (simp only: IH(1))
  also have "\<dots> = mag (l # ls) * f + carry"
    using mod_mult_div_eq [of ?p BASE] by (simp add: algebra_simps)
  finally show ?case using IH by (simp add: rs(2))
qed simp

lemma add_small_loop_correct:
  assumes "small_limbs ls" and "carry < BASE" and "add_small_loop ls carry = (rs, out)"
  shows "mag rs + BASE ^ length ls * out = mag ls + carry \<and>
    small_limbs rs \<and> length rs = length ls \<and> out < BASE"
  using assms
proof (induction ls arbitrary: carry rs out)
  case (Cons l ls)
  show ?case
  proof (cases "carry = 0")
    case False
    let ?p = "l + carry"
    from Cons.prems have p: "?p < 2 * BASE" by simp
    then have u: "u64 ?p = ?p" by simp
    obtain rs' where rs: "add_small_loop ls (?p div BASE) = (rs', out)" "rs = ?p mod BASE # rs'"
      using Cons.prems(3) False by (auto simp: u Let_def split: prod.splits)
    from p have "?p div BASE < BASE" by simp
    from Cons.IH [OF _ this rs(1)] Cons.prems(1)
    have IH: "mag rs' + BASE ^ length ls * out = mag ls + ?p div BASE"
        "small_limbs rs'" "length rs' = length ls" "out < BASE" by simp_all
    have "mag rs + BASE ^ length (l # ls) * out =
        ?p mod BASE + BASE * (mag rs' + BASE ^ length ls * out)"
      by (simp add: rs(2) algebra_simps)
    also have "\<dots> = ?p mod BASE + BASE * (mag ls + ?p div BASE)"
      by (simp only: IH(1))
    also have "\<dots> = mag (l # ls) + carry"
      using mod_mult_div_eq [of ?p BASE] by (simp add: algebra_simps)
    finally show ?thesis using IH by (simp add: rs(2))
  qed (use Cons.prems in auto)
qed simp

lemma append_carry_eq:
  "append_carry h v (ls, carry) =
     (if carry = 0 then Some (v\<lparr>limbs := ls\<rparr>)
      else if room h (length ls + 1) then Some (v\<lparr>limbs := ls @ [u32 carry]\<rparr>) else None)"
  by (simp add: append_carry_def resize_eq list_update_append)

text \<open>What \<open>append_carry\<close> keeps: a nonzero magnitude of the right value and no leading zero.\<close>

lemma append_carry_correct:
  assumes app: "append_carry h v (rs, out) = Some w"
    and rs: "small_limbs rs" and out: "out < BASE"
    and len: "length rs = length (limbs v)"
    and val: "mag rs + BASE ^ length rs * out = n"
    and ge: "mag (limbs v) \<le> n" and ok: "big_ok v" and nz: "sign v \<noteq> 0"
  shows "big_ok w \<and> sign w = sign v \<and> mag (limbs w) = n"
proof (cases "out = 0")
  case True
  with app have w: "w = v\<lparr>limbs := rs\<rparr>" by (simp add: append_carry_eq)
  from ok nz have v: "limbs v \<noteq> []" "last (limbs v) \<noteq> 0" by (auto simp: big_ok_def canonical_def)
  then have "BASE ^ (length rs - 1) \<le> n"
    using mag_snoc_ge [of "limbs v"] ge len by simp
  moreover have "mag rs < BASE ^ (length rs - 1)" if "last rs = 0" "rs \<noteq> []"
    using mag_less [OF small_limbs_butlast [OF rs]] mag_butlast [OF that(2,1)] by simp
  ultimately have "last rs \<noteq> 0" if "rs \<noteq> []" using that val True by auto
  with rs w ok nz v len val True show ?thesis by (auto simp: big_ok_def canonical_def)
next
  case False
  with app out have w: "w = v\<lparr>limbs := rs @ [out]\<rparr>"
    by (simp add: append_carry_eq split: if_splits)
  with False rs out ok nz val show ?thesis
    by (auto simp: big_ok_def canonical_def)
qed

lemma mul_small_correct:
  assumes "big_ok v" and "f \<le> BASE" and "pn_big_mul_small h v f = Some w"
  shows "big_ok w \<and> big_val w = big_val v * int f"
proof (cases "sign v = 0 \<or> f = 1 \<or> f = 0")
  case True
  with assms show ?thesis
    by (auto simp: pn_big_mul_small_def big_val_def big_ok_def canonical_def split: if_splits)
next
  case False
  obtain rs out where loop: "mul_small_loop f (limbs v) 0 = (rs, out)" by (cases "mul_small_loop f (limbs v) 0")
  with False assms have app: "append_carry h v (rs, out) = Some w"
    by (simp add: pn_big_mul_small_def)
  from mul_small_loop_correct [OF big_ok_small [OF assms(1)] assms(2) _ loop] False
  have l: "mag rs + BASE ^ length (limbs v) * out = mag (limbs v) * f"
    "small_limbs rs" "length rs = length (limbs v)" "out < f" by simp_all
  with False assms(1,2) have "big_ok w \<and> sign w = sign v \<and> mag (limbs w) = mag (limbs v) * f"
    by (intro append_carry_correct [OF app]) simp_all
  then show ?thesis by (simp add: big_val_def)
qed

lemma add_small_correct:
  assumes "big_ok v" and "sign v \<ge> 0" and "n < BASE" and "pn_big_add_small h v n = Some w"
  shows "big_ok w \<and> big_val w = big_val v + int n"
proof (cases "n = 0 \<or> sign v = 0")
  case True
  with assms show ?thesis
    by (auto simp: pn_big_add_small_def big_val_def dest: from_u64_correct split: if_splits)
next
  case False
  with assms(1,2) have s: "sign v = 1" by (auto simp: big_ok_def)
  obtain rs out where loop: "add_small_loop (limbs v) n = (rs, out)" by (cases "add_small_loop (limbs v) n")
  with False assms have app: "append_carry h v (rs, out) = Some w"
    by (simp add: pn_big_add_small_def)
  from add_small_loop_correct [OF big_ok_small [OF assms(1)] assms(3) loop]
  have l: "mag rs + BASE ^ length (limbs v) * out = mag (limbs v) + n"
    "small_limbs rs" "length rs = length (limbs v)" "out < BASE" by simp_all
  with False assms(1) have "big_ok w \<and> sign w = sign v \<and> mag (limbs w) = mag (limbs v) + n"
    by (intro append_carry_correct [OF app]) simp_all
  with s show ?thesis by (simp add: big_val_def)
qed

lemma append_carry_total:
  "room h (length ls + 1) \<Longrightarrow> \<exists>w. append_carry h v (ls, c) = Some w"
  by (simp add: append_carry_eq)

lemma length_mul_small_loop: "length (fst (mul_small_loop f ls c)) = length ls"
  by (induction ls arbitrary: c) (auto simp: Let_def split: prod.splits, metis fst_conv)

lemma length_add_small_loop: "length (fst (add_small_loop ls c)) = length ls"
  by (induction ls arbitrary: c) (auto simp: Let_def split: prod.splits, metis fst_conv)

lemma mul_small_total:
  "room h (length (limbs v) + 1) \<Longrightarrow> \<exists>w. pn_big_mul_small h v f = Some w"
  using append_carry_total [of h "fst (mul_small_loop f (limbs v) 0)" v "snd (mul_small_loop f (limbs v) 0)"]
  by (simp add: pn_big_mul_small_def length_mul_small_loop)

lemma add_small_total:
  "room h (length (limbs v) + 1) \<Longrightarrow> room h 1 \<Longrightarrow> n < BASE \<Longrightarrow> \<exists>w. pn_big_add_small h v n = Some w"
  using append_carry_total [of h "fst (add_small_loop (limbs v) n)" v "snd (add_small_loop (limbs v) n)"]
    from_u64_total [of n h]
  by (simp add: pn_big_add_small_def length_add_small_loop count_limbs_small)

subsection \<open>Parsing and printing\<close>

definition byte_mag :: "nat \<Rightarrow> byte list \<Rightarrow> nat" where
  "byte_mag n bs = fold (\<lambda>b acc. acc * 256 + unat b) bs n"

definition digits_mag :: "nat \<Rightarrow> string \<Rightarrow> nat" where
  "digits_mag n cs = fold (\<lambda>c acc. acc * 10 + digit_value c) cs n"

lemma sign_ge_0_iff: "big_ok v \<Longrightarrow> sign v \<ge> 0 \<longleftrightarrow> big_val v \<ge> 0"
  by (auto simp: big_val_def big_ok_def)

lemma push_digit_correct:
  assumes "big_ok v" and "sign v \<ge> 0" and "radix \<le> BASE" and "d < BASE"
    and "push_digit h radix v d = Some w"
  shows "big_ok w \<and> sign w \<ge> 0 \<and> big_val w = big_val v * int radix + int d"
proof -
  from assms(5) obtain u where u: "pn_big_mul_small h v radix = Some u"
      "pn_big_add_small h u d = Some w"
    by (auto simp: push_digit_def split: option.splits)
  from mul_small_correct [OF assms(1,3) u(1)] have v: "big_ok u" "big_val u = big_val v * int radix"
    by simp_all
  from assms(1,2) have "big_val v \<ge> 0" by (simp add: big_val_def)
  with v have "sign u \<ge> 0" by (simp add: sign_ge_0_iff)
  from add_small_correct [OF v(1) this assms(4) u(2)] v \<open>big_val v \<ge> 0\<close>
  show ?thesis by (simp add: sign_ge_0_iff)
qed

lemma from_bytes_loop_correct:
  "big_ok v \<Longrightarrow> sign v \<ge> 0 \<Longrightarrow> from_bytes_loop h v bs = Some w \<Longrightarrow>
     big_ok w \<and> big_val w = int (byte_mag (nat (big_val v)) bs)"
proof (induction bs arbitrary: v)
  case Nil
  then show ?case by (simp add: byte_mag_def big_val_def)
next
  case (Cons b bs)
  from Cons.prems(3) obtain u where u: "push_digit h 256 v (unat b) = Some u"
      "from_bytes_loop h u bs = Some w"
    by (auto split: option.splits)
  have "unat b < BASE" using unsigned_less [of b, where 'a = nat] by simp
  from push_digit_correct [OF Cons.prems(1,2) _ this u(1)]
  have "big_ok u" "sign u \<ge> 0" "big_val u = big_val v * 256 + int (unat b)" by simp_all
  moreover have "big_val v \<ge> 0" using Cons.prems(2) by (simp add: big_val_def)
  then have "nat (big_val v * 256 + int (unat b)) = nat (big_val v) * 256 + unat b"
    by (simp add: nat_add_distrib nat_mult_distrib)
  ultimately show ?case using Cons.IH [OF _ _ u(2)] by (simp add: byte_mag_def)
qed

lemma from_bytes_correct:
  "pn_big_from_bytes h bs = Some w \<Longrightarrow> big_ok w \<and> big_val w = int (byte_mag 0 bs)"
  using from_bytes_loop_correct [of pn_big_init h bs w]
  by (simp add: pn_big_from_bytes_def, simp add: pn_big_init_def)

lemma digit_value_less: "is_digit_char c \<Longrightarrow> digit_value c < 10"
  by (auto simp: is_digit_char_def digit_value_def)

lemma from_digits_loop_correct:
  "big_ok v \<Longrightarrow> sign v \<ge> 0 \<Longrightarrow> from_digits_loop h v cs = Some w \<Longrightarrow>
     (\<forall>c \<in> set cs. is_digit_char c) \<and> big_ok w \<and> sign w \<ge> 0 \<and>
     big_val w = int (digits_mag (nat (big_val v)) cs)"
proof (induction cs arbitrary: v)
  case Nil
  then show ?case by (simp add: digits_mag_def big_val_def)
next
  case (Cons c cs)
  from Cons.prems(3) obtain u where d: "is_digit_char c"
    and u: "push_digit h 10 v (digit_value c) = Some u" "from_digits_loop h u cs = Some w"
    by (auto split: option.splits if_splits)
  have "digit_value c < BASE" using digit_value_less [OF d] by simp
  from push_digit_correct [OF Cons.prems(1,2) _ this u(1)]
  have "big_ok u" "sign u \<ge> 0" "big_val u = big_val v * 10 + int (digit_value c)" by simp_all
  moreover have "big_val v \<ge> 0" using Cons.prems(2) by (simp add: big_val_def)
  then have "nat (big_val v * 10 + int (digit_value c)) = nat (big_val v) * 10 + digit_value c"
    by (simp add: nat_add_distrib nat_mult_distrib)
  ultimately show ?case using Cons.IH [OF _ _ u(2)] d by (simp add: digits_mag_def)
qed

lemma from_digits_correct:
  assumes "pn_big_from_digits h cs s = Some w"
  shows "(\<forall>c \<in> set cs. is_digit_char c) \<and> big_ok w \<and>
    big_val w = (if s < 0 then -1 else 1) * int (digits_mag 0 cs)"
proof -
  from assms obtain u where u: "from_digits_loop h pn_big_init cs = Some u"
    and w: "w = (if limbs u \<noteq> [] then u\<lparr>sign := (if s < 0 then -1 else 1)\<rparr> else u)"
    by (auto simp: pn_big_from_digits_def split: option.splits)
  have "sign pn_big_init \<ge> 0" by (simp add: pn_big_init_def)
  from from_digits_loop_correct [OF big_init(1) this u]
  have *: "\<forall>c \<in> set cs. is_digit_char c" "big_ok u" "sign u \<ge> 0"
    "big_val u = int (digits_mag 0 cs)" by simp_all
  from * w show ?thesis
    by (auto simp: big_ok_def big_val_def)
qed

lemma digits_mag_append: "digits_mag n (xs @ ys) = digits_mag (digits_mag n xs) ys"
  by (simp add: digits_mag_def)

lemma digits_mag_shift: "digits_mag n cs = n * 10 ^ length cs + digits_mag 0 cs"
proof (induction cs arbitrary: n)
  case (Cons c cs)
  show ?case
    using Cons [of "n * 10 + digit_value c"] Cons [of "digit_value c"]
    by (simp add: digits_mag_def algebra_simps)
qed (simp add: digits_mag_def)

lemma digit_char [simp]: "d < 10 \<Longrightarrow> digit_value (digit_char d) = d" "d < 10 \<Longrightarrow> is_digit_char (digit_char d)"
  by (simp_all add: digit_value_def digit_char_def is_digit_char_def)

lemma show_u_digits: "(\<forall>c \<in> set (show_u n). is_digit_char c) \<and> digits_mag 0 (show_u n) = n"
proof (induction n rule: show_u.induct)
  case (1 n)
  show ?case
  proof (cases "n < 10")
    case False
    with 1 have "digits_mag 0 (show_u (n div 10)) = n div 10"
      "\<forall>c \<in> set (show_u (n div 10)). is_digit_char c" by simp_all
    with False show ?thesis
      by (simp add: show_u.simps [of n] digits_mag_append) (simp add: digits_mag_def)
  qed (simp add: show_u.simps digits_mag_def)
qed

lemma length_show_padded [simp]: "length (show_padded w n) = w"
  by (induction w arbitrary: n) simp_all

lemma show_padded_digits:
  "(\<forall>c \<in> set (show_padded w n). is_digit_char c) \<and> digits_mag 0 (show_padded w n) = n mod 10 ^ w"
proof (induction w arbitrary: n)
  case (Suc w)
  have "digits_mag 0 (show_padded (Suc w) n) = (n div 10) mod 10 ^ w * 10 + n mod 10"
    using Suc [of "n div 10"] by (simp add: digits_mag_append) (simp add: digits_mag_def)
  also have "\<dots> = n mod 10 ^ Suc w"
    by (simp add: mod_mult2_eq)
  finally show ?case using Suc [of "n div 10"] by simp
qed (simp add: digits_mag_def)

lemma padded_limbs:
  "small_limbs ls \<Longrightarrow>
    (\<forall>c \<in> set (concat (map (show_padded 9) (rev ls))). is_digit_char c) \<and>
    digits_mag n (concat (map (show_padded 9) (rev ls))) = n * BASE ^ length ls + mag ls"
proof (induction ls arbitrary: n)
  case (Cons l ls)
  then have l: "l < BASE" and IH:
      "digits_mag n (concat (map (show_padded 9) (rev ls))) = n * BASE ^ length ls + mag ls"
      "\<forall>c \<in> set (concat (map (show_padded 9) (rev ls))). is_digit_char c"
    by simp_all
  have "digits_mag m (show_padded 9 l) = m * BASE + l" for m
    using show_padded_digits [of 9 l] l by (subst digits_mag_shift) simp
  with IH(1) have "digits_mag n (concat (map (show_padded 9) (rev (l # ls)))) =
      n * BASE ^ length (l # ls) + mag (l # ls)"
    by (simp add: digits_mag_append algebra_simps)
  with IH(2) show_padded_digits [of 9 l] show ?case by auto
qed (simp add: digits_mag_def)

text \<open>The decimal digits of a nonzero magnitude denote it.\<close>

definition mag_digits :: "nat list \<Rightarrow> string" where
  "mag_digits ls = show_u (last ls) @ concat (map (show_padded 9) (rev (butlast ls)))"

lemma mag_digits_correct:
  assumes "small_limbs ls" and "ls \<noteq> []"
  shows "(\<forall>c \<in> set (mag_digits ls). is_digit_char c) \<and> digits_mag 0 (mag_digits ls) = mag ls"
proof -
  from assms(2) have "mag ls = mag (butlast ls @ [last ls])" by simp
  also have "\<dots> = last ls * BASE ^ length (butlast ls) + mag (butlast ls)" by (simp del: append_butlast_last_id)
  finally show ?thesis
    using padded_limbs [OF small_limbs_butlast [OF assms(1)]] show_u_digits [of "last ls"]
    by (auto simp: mag_digits_def digits_mag_append)
qed

lemma pn_big_string_eq:
  "pn_big_string h v = Some s \<Longrightarrow>
     s = (if sign v = 0 then ''0'' else (if sign v < 0 then ''-'' else '''') @ mag_digits (limbs v))"
  by (auto simp: pn_big_string_def mag_digits_def split: if_splits)

subsection \<open>Minimal decimal digits\<close>

lemma digits_mag_snoc: "digits_mag 0 (cs @ [c]) = digits_mag 0 cs * 10 + digit_value c"
  by (simp add: digits_mag_def)

lemma digit_roundtrip: "is_digit_char c \<Longrightarrow> digit_char (digit_value c) = c"
  by (auto simp: digit_char_def digit_value_def is_digit_char_def)

lemma digit_zero: "is_digit_char c \<Longrightarrow> digit_value c = 0 \<Longrightarrow> c = CHR ''0''"
proof -
  assume "is_digit_char c" "digit_value c = 0"
  then have "of_char c = (of_char (CHR ''0'') :: nat)" by (simp add: is_digit_char_def digit_value_def)
  then show ?thesis by (simp only: of_char_eq_iff)
qed

lemma digits_mag_pos:
  "cs \<noteq> [] \<Longrightarrow> hd cs \<noteq> CHR ''0'' \<Longrightarrow> \<forall>c \<in> set cs. is_digit_char c \<Longrightarrow> 0 < digits_mag 0 cs"
proof (induction cs rule: rev_induct)
  case (snoc c cs)
  with digit_zero [of c] show ?case
    by (cases "cs = []") (auto simp: digits_mag_snoc digits_mag_def)
qed simp

lemma show_u_digits_mag:
  "cs \<noteq> [] \<Longrightarrow> \<forall>c \<in> set cs. is_digit_char c \<Longrightarrow> length cs > 1 \<longrightarrow> hd cs \<noteq> CHR ''0'' \<Longrightarrow>
     show_u (digits_mag 0 cs) = cs"
proof (induction cs rule: rev_induct)
  case (snoc c cs)
  have c: "digit_value c < 10" "digit_char (digit_value c) = c"
    using snoc.prems digit_value_less digit_roundtrip by auto
  show ?case
  proof (cases "cs = []")
    case True
    with c show ?thesis by (simp add: show_u.simps digits_mag_def)
  next
    case False
    with snoc.prems have "hd cs \<noteq> CHR ''0''" by auto
    with False snoc.prems have "0 < digits_mag 0 cs" by (intro digits_mag_pos) auto
    moreover have "show_u (digits_mag 0 cs) = cs" using snoc False by auto
    ultimately show ?thesis
      using c by (simp add: digits_mag_snoc show_u.simps [of "digits_mag 0 cs * 10 + digit_value c"])
  qed
qed simp

lemma digit_char_nonzero: "0 < d \<Longrightarrow> d < 10 \<Longrightarrow> digit_char d \<noteq> CHR ''0''"
proof
  assume d: "0 < d" "d < 10" and "digit_char d = CHR ''0''"
  then have "(of_char (digit_char d) :: nat) = of_char (CHR ''0'')" by simp
  with d show False by (simp add: digit_char_def)
qed

lemma show_u_hd: "0 < n \<Longrightarrow> show_u n \<noteq> [] \<and> hd (show_u n) \<noteq> CHR ''0''"
proof (induction n rule: show_u.induct)
  case (1 n)
  then show ?case
    by (cases "n < 10") (auto simp: show_u.simps [of n] digit_char_nonzero)
qed

lemma mag_digits_show_u:
  assumes "canonical ls" and "ls \<noteq> []"
  shows "mag_digits ls = show_u (mag ls)"
proof -
  from assms have last: "0 < last ls" "small_limbs ls" by (auto simp: canonical_def)
  have "mag_digits ls \<noteq> []" "hd (mag_digits ls) \<noteq> CHR ''0''"
    using show_u_hd [OF last(1)] by (auto simp: mag_digits_def)
  with mag_digits_correct [OF last(2) assms(2)] show_u_digits_mag [of "mag_digits ls"] show ?thesis by simp
qed

definition number_text :: "PnBigInt \<Rightarrow> string" where
  "number_text v = (if sign v < 0 then ''-'' else '''') @ show_u (mag (limbs v))"

lemma pn_big_string_text:
  assumes "big_ok v" and "pn_big_string h v = Some s"
  shows "s = number_text v"
proof (cases "sign v = 0")
  case True
  with assms have "limbs v = []" by (simp add: big_ok_def)
  moreover have "digit_char 0 = CHR ''0''" using digit_zero [of "digit_char 0"] by simp
  ultimately show ?thesis
    using pn_big_string_eq [OF assms(2)] True by (simp add: number_text_def show_u.simps)
next
  case False
  with assms have "canonical (limbs v)" "limbs v \<noteq> []" by (auto simp: big_ok_def)
  with pn_big_string_eq [OF assms(2)] False show ?thesis by (simp add: number_text_def mag_digits_show_u)
qed

lemma pn_big_string_show_u:
  "big_ok v \<Longrightarrow> 0 \<le> sign v \<Longrightarrow> pn_big_string h v = Some s \<Longrightarrow> s = show_u (mag (limbs v))"
  using pn_big_string_text [of v h s] by (simp add: number_text_def)

lemma cstr_show_u [simp]: "cstr (show_u n) = show_u n"
proof -
  have "c \<noteq> CHR 0x00" if "is_digit_char c" for c using that by (auto simp: is_digit_char_def)
  then show ?thesis
    using show_u_digits [of n] by (auto simp: cstr_def takeWhile_eq_all_conv)
qed

lemma strlen_show_u: "strlen (show_u n) = length (show_u n)"
  by (simp add: strlen_def)

lemma cstr_number_text [simp]: "cstr (number_text v) = number_text v"
proof -
  have "cstr (CHR ''-'' # s) = CHR ''-'' # cstr s" for s by (simp add: cstr_def)
  then show ?thesis by (simp add: number_text_def)
qed

subsection \<open>Comparison\<close>

lemma mag_hd_tl: "mag b = hd0 b + BASE * mag (tl b)"
  by (cases b) simp_all

lemma small_hd_tl: "small_limbs b \<Longrightarrow> hd0 b < BASE \<and> small_limbs (tl b)"
  by (cases b) simp_all

lemma sgn_step:
  assumes "x < y" and "p < B" and "q < (B::nat)"
  shows "p + B * x < q + B * y"
proof -
  from assms(1) have "B * (x + 1) \<le> B * y" by (intro mult_le_mono2) simp
  with assms(2) show ?thesis by (simp add: algebra_simps)
qed

lemma sgn_diff:
  "m < n \<Longrightarrow> sgn (int m - int n) = -1" "m = n \<Longrightarrow> sgn (int m - int n) = 0"
  "n < m \<Longrightarrow> sgn (int m - int n) = 1"
  by (simp_all add: sgn_if)

lemma cmp_limbs_sgn:
  "length xs = length ys \<Longrightarrow> small_limbs xs \<Longrightarrow> small_limbs ys \<Longrightarrow>
     cmp_limbs (rev xs) (rev ys) = sgn (int (mag xs) - int (mag ys))"
proof (induction xs arbitrary: ys rule: rev_induct)
  case (snoc x xs)
  then obtain y ys' where ys: "ys = ys' @ [y]" by (cases ys rule: rev_cases) auto
  let ?B = "BASE ^ length ys'"
  from snoc.prems ys have len: "length xs = length ys'" and lt: "mag xs < ?B" "mag ys' < ?B"
    by (auto dest: mag_less)
  show ?case
  proof (cases x y rule: linorder_cases)
    case less
    with sgn_step [OF less lt] len have "mag (xs @ [x]) < mag (ys' @ [y])" by simp
    with less show ?thesis unfolding ys by (simp only: sgn_diff) simp
  next
    case equal
    with snoc ys len show ?thesis by simp
  next
    case greater
    with sgn_step [OF greater lt(2,1)] len have "mag (ys' @ [y]) < mag (xs @ [x])" by simp
    with greater show ?thesis unfolding ys by (simp only: sgn_diff) simp
  qed
qed simp

lemma abs_compare_sgn:
  assumes "canonical (limbs a)" and "canonical (limbs b)"
  shows "abs_compare a b = sgn (int (mag (limbs a)) - int (mag (limbs b)))"
  using assms canonical_mag_less [of "limbs a" "limbs b"] canonical_mag_less [of "limbs b" "limbs a"]
    cmp_limbs_sgn [of "limbs a" "limbs b"]
  by (auto simp: abs_compare_def canonical_def sgn_if)

lemma compare_sgn:
  assumes "big_ok a" and "big_ok b"
  shows "pn_big_compare a b = sgn (big_val a - big_val b)"
proof -
  have c: "abs_compare a b = sgn (int (mag (limbs a)) - int (mag (limbs b)))"
    using assms by (intro abs_compare_sgn) (simp_all add: big_ok_def)
  have p: "limbs v \<noteq> [] \<Longrightarrow> big_ok v \<Longrightarrow> mag (limbs v) > 0" for v
    by (metis big_ok_def canonical_mag_0 gr0I)
  from assms p [of a] p [of b] show ?thesis
    by (auto simp: pn_big_compare_def c big_val_def big_ok_def sgn_if)
qed

subsection \<open>Addition and subtraction\<close>

lemma add_loop_correct:
  "small_limbs a \<Longrightarrow> small_limbs b \<Longrightarrow> length a \<le> n \<Longrightarrow> length b \<le> n \<Longrightarrow> carry \<le> 1 \<Longrightarrow>
     mag (add_loop n a b carry) = mag a + mag b + carry \<and> small_limbs (add_loop n a b carry)"
proof (induction n arbitrary: a b carry)
  case (Suc n)
  let ?s = "carry + hd0 a + hd0 b"
  from Suc.prems have h: "hd0 a < BASE" "hd0 b < BASE" "small_limbs (tl a)" "small_limbs (tl b)"
    by (simp_all add: small_hd_tl)
  with Suc.prems have s: "?s < 2 * BASE" by simp
  then have u: "u64 ?s = ?s" and d: "?s div BASE \<le> 1" by simp_all
  have IH: "mag (add_loop n (tl a) (tl b) (?s div BASE)) = mag (tl a) + mag (tl b) + ?s div BASE \<and>
      small_limbs (add_loop n (tl a) (tl b) (?s div BASE))"
    using Suc.prems by (intro Suc.IH h d) simp_all
  have "mag (add_loop (Suc n) a b carry) =
      ?s mod BASE + BASE * (mag (tl a) + mag (tl b) + ?s div BASE)"
    using IH by (simp add: u Let_def)
  also have "\<dots> = mag a + mag b + carry"
    using mod_mult_div_eq [of ?s BASE] by (simp add: mag_hd_tl [of a] mag_hd_tl [of b] algebra_simps)
  finally show ?case using IH by (simp add: u Let_def)
qed simp

lemma abs_add_correct:
  assumes "small_limbs (limbs a)" and "small_limbs (limbs b)" and "abs_add h a b = Some c"
  shows "canonical (limbs c) \<and> mag (limbs c) = mag (limbs a) + mag (limbs b)"
proof -
  let ?n = "max (length (limbs a)) (length (limbs b))"
  from assms(3) have "limbs c = trim (add_loop ?n (limbs a) (limbs b) 0)"
    by (auto simp: abs_add_def resize_eq Let_def split: if_splits)
  with add_loop_correct [OF assms(1,2), of ?n 0] show ?thesis
    by (simp add: canonical_trim)
qed

lemma sub_loop_correct:
  "small_limbs a \<Longrightarrow> small_limbs b \<Longrightarrow> length b \<le> length a \<Longrightarrow> w \<in> {0, 1} \<Longrightarrow>
     int (mag b) + w \<le> int (mag a) \<Longrightarrow>
     int (mag (sub_loop a b w)) = int (mag a) - int (mag b) - w \<and> small_limbs (sub_loop a b w)"
proof (induction a arbitrary: b w)
  case (Cons x xs)
  from Cons.prems have h: "x < BASE" "hd0 b < BASE" "small_limbs xs" "small_limbs (tl b)"
      "length (tl b) \<le> length xs"
    by (simp_all add: small_hd_tl)
  have b: "int (mag b) = int (hd0 b) + int BASE * int (mag (tl b))"
    using mag_hd_tl [of b] by (metis of_nat_add of_nat_mult)
  let ?d = "int x - int (hd0 b) - w"
  show ?case
  proof (cases "?d < 0")
    case True
    have "int (mag (tl b)) + 1 \<le> int (mag xs)"
      using Cons.prems(5) True b by simp
    from Cons.IH [OF h(3,4,5) _ this] Cons.prems(4) h(1,2) True b show ?thesis by auto
  next
    case False
    have "int (mag (tl b)) + 0 \<le> int (mag xs)"
      using Cons.prems(4,5) False b h by auto
    from Cons.IH [OF h(3,4,5) _ this] Cons.prems(4) h(1,2) False b show ?thesis by auto
  qed
qed simp

lemma abs_sub_correct:
  assumes "small_limbs (limbs a)" and "small_limbs (limbs b)"
    and "length (limbs b) \<le> length (limbs a)" and "mag (limbs b) \<le> mag (limbs a)"
    and "abs_sub h a b = Some c"
  shows "canonical (limbs c) \<and> mag (limbs c) = mag (limbs a) - mag (limbs b)"
proof -
  from assms(5) have "limbs c = trim (sub_loop (limbs a) (limbs b) 0)"
    by (auto simp: abs_sub_def resize_eq split: if_splits)
  moreover have "int (mag (sub_loop (limbs a) (limbs b) 0)) = int (mag (limbs a) - mag (limbs b))"
      and "small_limbs (sub_loop (limbs a) (limbs b) 0)"
    using sub_loop_correct [OF assms(1,2,3), of 0] assms(4) by (simp_all add: of_nat_diff)
  ultimately show ?thesis by (simp add: canonical_trim)
qed

lemma canonical_le_length:
  "canonical xs \<Longrightarrow> canonical ys \<Longrightarrow> mag xs \<le> mag ys \<Longrightarrow> length xs \<le> length ys"
  using canonical_mag_less [of ys xs] by (meson leD leI)

lemma add_different_signs:
  assumes ok: "big_ok a" "big_ok b" and less: "mag (limbs b) < mag (limbs a)"
    and sub: "abs_sub h a b = Some out" and signs: "sign a \<noteq> 0" "sign b = - sign a"
  shows "big_ok (out\<lparr>sign := sign a\<rparr>) \<and> big_val (out\<lparr>sign := sign a\<rparr>) = big_val a + big_val b"
proof -
  have "canonical (limbs out) \<and> mag (limbs out) = mag (limbs a) - mag (limbs b)"
    using ok less canonical_le_length [of "limbs b" "limbs a"]
    by (intro abs_sub_correct [OF _ _ _ _ sub]) (simp_all add: big_ok_def canonical_def)
  with ok less signs show ?thesis
    by (auto simp: big_ok_def big_val_def of_nat_diff algebra_simps)
qed

lemma add_correct:
  assumes ok: "big_ok a" "big_ok b" and add: "pn_big_add h a b = Some c"
  shows "big_ok c \<and> big_val c = big_val a + big_val b"
proof (cases "sign a = 0 \<or> sign b = 0")
  case True
  with assms show ?thesis
    by (auto simp: pn_big_add_def big_val_def pn_big_copy_eq split: if_splits)
next
  case nonzero: False
  show ?thesis
  proof (cases "sign a = sign b")
    case True
    with nonzero add obtain out where out: "abs_add h a b = Some out" "c = out\<lparr>sign := sign a\<rparr>"
      by (auto simp: pn_big_add_def split: option.splits)
    from abs_add_correct [OF big_ok_small big_ok_small out(1), OF ok] ok nonzero True out(2)
    show ?thesis by (auto simp: big_ok_def big_val_def algebra_simps)
  next
    case False
    with nonzero ok have neg: "sign b = - sign a" "sign a = - sign b" by (auto simp: big_ok_def)
    have cmp: "abs_compare a b = sgn (int (mag (limbs a)) - int (mag (limbs b)))"
      using ok by (intro abs_compare_sgn) (simp_all add: big_ok_def)
    show ?thesis
    proof (cases "mag (limbs a)" "mag (limbs b)" rule: linorder_cases)
      case less
      with nonzero False add cmp obtain out
        where "abs_sub h b a = Some out" "c = out\<lparr>sign := sign b\<rparr>"
        by (auto simp: pn_big_add_def Let_def sgn_diff split: option.splits)
      with add_different_signs [OF ok(2,1) less] nonzero neg(2) show ?thesis by simp
    next
      case equal
      with nonzero False add cmp have "c = pn_big_init"
        by (simp add: pn_big_add_def Let_def sgn_diff)
      with equal neg(1) show ?thesis by (simp add: big_val_def pn_big_init_def big_ok_def canonical_def)
    next
      case greater
      with nonzero False add cmp obtain out
        where "abs_sub h a b = Some out" "c = out\<lparr>sign := sign a\<rparr>"
        by (auto simp: pn_big_add_def Let_def sgn_diff split: option.splits)
      with add_different_signs [OF ok greater] nonzero neg(1) show ?thesis by simp
    qed
  qed
qed

lemma negate_ok [simp]:
  "big_ok (b\<lparr>sign := - sign b\<rparr>) = big_ok b" "big_val (b\<lparr>sign := - sign b\<rparr>) = - big_val b"
  by (auto simp: big_ok_def big_val_def)

lemma sub_correct:
  "big_ok a \<Longrightarrow> big_ok b \<Longrightarrow> pn_big_sub h a b = Some c \<Longrightarrow>
     big_ok c \<and> big_val c = big_val a - big_val b"
  using add_correct [of a "b\<lparr>sign := - sign b\<rparr>" h c] by (simp add: pn_big_sub_def)

lemma add_total:
  assumes "\<And>n. n \<le> max (length (limbs a)) (length (limbs b)) + 1 \<Longrightarrow> room h n"
  shows "\<exists>c. pn_big_add h a b = Some c"
  using assms by (auto simp: pn_big_add_def pn_big_copy_eq abs_add_def abs_sub_def resize_eq Let_def)

lemma sub_total:
  assumes "\<And>n. n \<le> max (length (limbs a)) (length (limbs b)) + 1 \<Longrightarrow> room h n"
  shows "\<exists>c. pn_big_sub h a b = Some c"
  using add_total [of a "b\<lparr>sign := - sign b\<rparr>" h] assms by (simp add: pn_big_sub_def)

subsection \<open>Multiplication\<close>

lemma carry_row_correct:
  "small_limbs out \<Longrightarrow> carry < BASE \<Longrightarrow> mag out + carry < BASE ^ length out \<Longrightarrow>
     \<exists>rs. carry_row out carry = Some rs \<and> small_limbs rs \<and> length rs = length out \<and>
          mag rs = mag out + carry"
proof (induction out arbitrary: carry)
  case (Cons x xs)
  show ?case
  proof (cases "carry = 0")
    case False
    let ?c = "x + carry"
    from Cons.prems have c: "?c < 2 * BASE" by simp
    then have u: "u64 ?c = ?c" and d: "?c div BASE < BASE" by simp_all
    have split: "?c = ?c mod BASE + BASE * (?c div BASE)" by simp
    have "BASE * (mag xs + ?c div BASE) \<le> mag (x # xs) + carry"
      using split by simp
    also have "\<dots> < BASE * BASE ^ length xs" using Cons.prems(3) by simp
    finally have "mag xs + ?c div BASE < BASE ^ length xs" by simp
    from Cons.IH [OF _ d this] Cons.prems(1) obtain rs where
      rs: "carry_row xs (?c div BASE) = Some rs" "small_limbs rs" "length rs = length xs"
        "mag rs = mag xs + ?c div BASE" by auto
    from split have "?c mod BASE + BASE * (mag xs + ?c div BASE) = x + BASE * mag xs + carry"
      by simp
    with False rs show ?thesis by (simp add: u Let_def)
  qed (use Cons.prems in simp)
qed simp

lemma row_bound:
  assumes "x < BASE" and "y < BASE" and "z < BASE" and "carry < BASE"
  shows "z + x * y + carry < BASE * BASE"
proof -
  from assms have "x * y \<le> (BASE - 1) * (BASE - 1)" by (intro mult_le_mono) simp_all
  with assms show ?thesis by simp
qed

lemma mul_row_correct:
  "small_limbs ys \<Longrightarrow> small_limbs out \<Longrightarrow> x < BASE \<Longrightarrow> carry < BASE \<Longrightarrow> length ys \<le> length out \<Longrightarrow>
     mag out + x * mag ys + carry < BASE ^ length out \<Longrightarrow>
     \<exists>rs. mul_row x ys out carry = Some rs \<and> small_limbs rs \<and> length rs = length out \<and>
          mag rs = mag out + x * mag ys + carry"
proof (induction x ys out carry rule: mul_row.induct)
  case (1 x out carry)
  then show ?case using carry_row_correct [of out carry] by simp
next
  case (3 x y ys z zs carry)
  let ?c = "z + x * y + carry"
  from row_bound [of x y z carry] 3 have c: "?c < BASE * BASE" by simp
  then have u: "u64 ?c = ?c" and d: "?c div BASE < BASE" by (simp_all add: less_mult_imp_div_less)
  have split: "?c = ?c mod BASE + BASE * (?c div BASE)" by simp
  have total: "?c mod BASE + BASE * (mag zs + x * mag ys + ?c div BASE) =
      mag (z # zs) + x * mag (y # ys) + carry"
    using split by (simp add: algebra_simps)
  then have "BASE * (mag zs + x * mag ys + ?c div BASE) \<le> mag (z # zs) + x * mag (y # ys) + carry"
    by linarith
  also have "\<dots> < BASE * BASE ^ length zs" using "3.prems"(6) by simp
  finally have "mag zs + x * mag ys + ?c div BASE < BASE ^ length zs" by simp
  with 3 d obtain rs where rs: "mul_row x ys zs (?c div BASE) = Some rs" "small_limbs rs"
      "length rs = length zs" "mag rs = mag zs + x * mag ys + ?c div BASE"
    by (auto simp: u)
  with total show ?case by (simp add: u Let_def)
qed simp

lemma mul_rows_correct:
  "small_limbs xs \<Longrightarrow> small_limbs ys \<Longrightarrow> small_limbs out \<Longrightarrow> length xs + length ys \<le> length out \<Longrightarrow>
     mag out + mag xs * mag ys < BASE ^ length out \<Longrightarrow>
     \<exists>rs. mul_rows xs ys out = Some rs \<and> small_limbs rs \<and> length rs = length out \<and>
          mag rs = mag out + mag xs * mag ys"
proof (induction xs arbitrary: out)
  case (Cons x xs)
  have "mag out + x * mag ys + 0 \<le> mag out + mag (x # xs) * mag ys" by simp
  also have "\<dots> < BASE ^ length out" by (rule Cons.prems(5))
  finally obtain rs where rs: "mul_row x ys out 0 = Some rs" "small_limbs rs"
      "length rs = length out" "mag rs = mag out + x * mag ys"
    using mul_row_correct [of ys out x 0] Cons.prems by auto
  from rs(3) Cons.prems(4) obtain z zs where z: "rs = z # zs" by (cases rs) auto
  have total: "z + BASE * (mag zs + mag xs * mag ys) = mag out + mag (x # xs) * mag ys"
    using rs(4) z by (simp add: algebra_simps)
  then have "BASE * (mag zs + mag xs * mag ys) \<le> mag out + mag (x # xs) * mag ys" by linarith
  also have "\<dots> < BASE * BASE ^ length zs" using Cons.prems(5) rs(3) z by (metis length_Cons power_Suc)
  finally have "mag zs + mag xs * mag ys < BASE ^ length zs" by simp
  with Cons.IH [of zs] Cons.prems rs z obtain ts where "mul_rows xs ys zs = Some ts"
      "small_limbs ts" "length ts = length zs" "mag ts = mag zs + mag xs * mag ys"
    by auto
  with rs z total show ?case by simp
qed simp

lemma mul_rows_product:
  assumes "small_limbs xs" and "small_limbs ys"
  shows "\<exists>rs. mul_rows xs ys (replicate (length xs + length ys) 0) = Some rs \<and>
    small_limbs rs \<and> mag rs = mag xs * mag ys"
proof -
  have "mag xs * mag ys < BASE ^ length xs * BASE ^ length ys"
    using assms by (intro mult_strict_mono mag_less) simp_all
  then show ?thesis
    using mul_rows_correct [OF assms, of "replicate (length xs + length ys) 0"]
    by (auto simp: power_add)
qed

lemma pn_big_mul_eq:
  assumes "big_ok a" and "big_ok b" and "sign a \<noteq> 0" and "sign b \<noteq> 0"
  shows "\<exists>rs. small_limbs rs \<and> mag rs = mag (limbs a) * mag (limbs b) \<and>
    pn_big_mul h a b =
      (if length (limbs a) + length (limbs b) \<le> SIZE_MAX \<and> room h (length (limbs a) + length (limbs b))
       then Some (normalize \<lparr>sign = sign a * sign b, limbs = rs\<rparr>) else None)"
proof -
  obtain rs where "mul_rows (limbs a) (limbs b) (replicate (length (limbs a) + length (limbs b)) 0) = Some rs"
      "small_limbs rs" "mag rs = mag (limbs a) * mag (limbs b)"
    using mul_rows_product [OF big_ok_small big_ok_small, OF assms(1,2)] by auto
  with assms show ?thesis
    by (intro exI [of _ rs]) (auto simp: pn_big_mul_def resize_eq pn_big_init_def room_def c_types)
qed

lemma mul_correct:
  assumes "big_ok a" and "big_ok b" and "pn_big_mul h a b = Some c"
  shows "big_ok c \<and> big_val c = big_val a * big_val b"
proof (cases "sign a = 0 \<or> sign b = 0")
  case True
  with assms(3) show ?thesis by (auto simp: pn_big_mul_def big_val_def pn_big_init_def big_ok_def canonical_def)
next
  case False
  with assms(1,2) have s: "sign a * sign b \<in> {-1, 1}" by (auto simp: big_ok_def)
  from False pn_big_mul_eq [OF assms(1,2), of h] assms(3) obtain rs where
    "small_limbs rs" "mag rs = mag (limbs a) * mag (limbs b)"
    and c: "c = normalize \<lparr>sign = sign a * sign b, limbs = rs\<rparr>"
    by (auto split: if_splits)
  with s have "big_ok c" unfolding c by (intro big_ok_normalize) simp_all
  moreover have "big_val c = big_val a * big_val b"
    unfolding c big_val_normalize using \<open>mag rs = _\<close> by (simp add: big_val_def)
  ultimately show ?thesis ..
qed

lemma mul_total:
  assumes "big_ok a" and "big_ok b" and "room h (length (limbs a) + length (limbs b))"
  shows "\<exists>c. pn_big_mul h a b = Some c"
proof (cases "sign a = 0 \<or> sign b = 0")
  case False
  with pn_big_mul_eq [OF assms(1,2), of h] assms(3) show ?thesis
    by (auto simp: room_def c_types)
qed (auto simp: pn_big_mul_def)

subsection \<open>Division by a small number\<close>

lemma div_small_loop_correct:
  "small_limbs t \<Longrightarrow> 0 < d \<Longrightarrow> d < 4294967296 \<Longrightarrow> r < d \<Longrightarrow> div_small_loop d t r = (qs, r') \<Longrightarrow>
     mag (rev qs) * d + r' = r * BASE ^ length t + mag (rev t) \<and>
     r' < d \<and> small_limbs qs \<and> length qs = length t"
proof (induction t arbitrary: r qs)
  case (Cons l t)
  let ?c = "r * BASE + l"
  from Cons.prems have "?c < r * BASE + BASE" by simp
  also have "\<dots> = Suc r * BASE" by simp
  also have "\<dots> \<le> d * BASE" using Cons.prems(4) by (intro mult_le_mono1) simp
  finally have c: "?c < d * BASE" .
  with Cons.prems(3) have u: "u64 ?c = ?c" by simp
  from c have q: "?c div d < BASE" by (simp add: less_mult_imp_div_less mult.commute)
  from Cons.prems(5) obtain qs' where qs: "div_small_loop d t (?c mod d) = (qs', r')"
      "qs = ?c div d # qs'"
    using q by (auto simp: u Let_def split: prod.splits)
  from Cons.IH [OF _ Cons.prems(2,3) _ qs(1)] Cons.prems(1,2)
  have IH: "mag (rev qs') * d + r' = (?c mod d) * BASE ^ length t + mag (rev t)"
      "r' < d" "small_limbs qs'" "length qs' = length t" by simp_all
  have "mag (rev qs) * d + r' = mag (rev qs') * d + r' + BASE ^ length t * (?c div d * d)"
    using IH(4) by (simp add: qs(2) algebra_simps)
  also have "\<dots> = BASE ^ length t * (?c mod d + ?c div d * d) + mag (rev t)"
    by (simp only: IH(1)) (simp only: ring_distribs ac_simps)
  also have "\<dots> = BASE ^ length t * ?c + mag (rev t)" by (simp only: mod_div_mult_eq)
  also have "\<dots> = r * BASE ^ length (l # t) + mag (rev (l # t))"
    by (simp add: algebra_simps)
  finally show ?case using IH q by (simp add: qs(2))
qed simp

lemma div_small_correct:
  assumes "big_ok v" and "0 < d" and "d < 4294967296" and "pn_big_div_small v d = (q, r)"
  shows "big_ok q \<and> r < d \<and> mag (limbs v) = mag (limbs q) * d + r \<and>
    sign q = (if mag (limbs q) = 0 then 0 else sign v)"
proof -
  obtain qs r' where l: "div_small_loop d (rev (limbs v)) 0 = (qs, r')"
    by (cases "div_small_loop d (rev (limbs v)) 0")
  from div_small_loop_correct [OF _ assms(2,3) assms(2) l] big_ok_small [OF assms(1)]
  have *: "mag (rev qs) * d + r' = mag (limbs v)" "r' < d" "small_limbs qs"
      "length qs = length (limbs v)" by simp_all
  from assms(4) l *(2) assms(3) have q: "q = normalize (v\<lparr>limbs := rev qs\<rparr>)" "r = r'"
    by (simp_all add: pn_big_div_small_def)
  have c: "canonical (trim (rev qs))" using *(3) by (simp add: canonical_trim)
  have z: "trim (rev qs) = [] \<longleftrightarrow> mag (rev qs) = 0" using canonical_mag_0 [OF c] by simp
  have "trim (rev qs) = []" if "sign v = 0"
    using that assms(1) *(4) by (simp add: big_ok_def trim.simps)
  with c assms(1) have "big_ok q" unfolding q by (auto simp: big_ok_def)
  with * q z show ?thesis by (simp add: canonical_mag_0)
qed

subsection \<open>Long division\<close>

lemma big_ok_mag_pos: "big_ok v \<Longrightarrow> sign v \<noteq> 0 \<Longrightarrow> 0 < mag (limbs v)"
  by (metis big_ok_def canonical_mag_0 gr0I)

lemma shift_base_add_correct:
  assumes "shift_base_add h v l = Some w" and "canonical (limbs v)" and "l < BASE"
  shows "canonical (limbs w) \<and> mag (limbs w) = BASE * mag (limbs v) + l"
  using assms by (auto simp: shift_base_add_def resize_eq canonical_def split: if_splits)

lemma shift_base_add_total:
  "room h (length (limbs v) + 1) \<Longrightarrow> \<exists>w. shift_base_add h v l = Some w"
  by (simp add: shift_base_add_def resize_eq)

lemma probe_correct:
  assumes "big_ok v" and "sign v = 1" and "f \<le> BASE" and "pn_big_mul_small h v f = Some w"
  shows "big_ok w \<and> mag (limbs w) = mag (limbs v) * f"
proof -
  from mul_small_correct [OF assms(1,3,4)] have w: "big_ok w" "big_val w = big_val v * int f" by simp_all
  then have "int (mag (limbs w)) = int (mag (limbs v)) * int f"
    using big_val_abs [OF w(1)] by (simp add: assms(2) big_val_def)
  then have "mag (limbs w) = mag (limbs v) * f"
    by (metis of_nat_eq_iff of_nat_mult)
  with w show ?thesis by simp
qed

lemma abs_compare_le_0:
  "canonical (limbs a) \<Longrightarrow> canonical (limbs b) \<Longrightarrow> abs_compare a b \<le> 0 \<longleftrightarrow> mag (limbs a) \<le> mag (limbs b)"
  by (simp add: abs_compare_sgn sgn_if)

lemma abs_compare_less_0:
  "canonical (limbs a) \<Longrightarrow> canonical (limbs b) \<Longrightarrow> abs_compare a b < 0 \<longleftrightarrow> mag (limbs a) < mag (limbs b)"
  by (simp add: abs_compare_sgn sgn_if)

lemma search_digit_correct:
  assumes "search_digit h bb r lo hi best = Some q"
    and "big_ok bb" and "sign bb = 1" and "canonical (limbs r)"
    and "hi < BASE" and "lo \<le> hi + 1" and "best = lo - 1"
    and "mag (limbs bb) * best \<le> mag (limbs r)" and "mag (limbs r) < mag (limbs bb) * (hi + 1)"
  shows "q < BASE \<and> mag (limbs bb) * q \<le> mag (limbs r) \<and> mag (limbs r) < mag (limbs bb) * (q + 1)"
  using assms
proof (induction h bb r lo hi best rule: search_digit.induct)
  case (1 h bb r lo hi best)
  let ?mid = "lo + (hi - lo) div 2"
  show ?case
  proof (cases "lo \<le> hi")
    case True
    then have mid: "lo \<le> ?mid" "?mid \<le> hi" by auto
    with "1.prems"(5) have midB: "?mid \<le> BASE" by linarith
    from True "1.prems"(1) obtain probe where copy: "pn_big_copy h bb = Some bb"
      and mul: "pn_big_mul_small h bb ?mid = Some probe"
      by (auto simp: search_digit.simps [of h bb r lo hi best] Let_def
          dest: pn_big_copy_Some split: option.splits)
    from probe_correct [OF "1.prems"(2,3) midB mul]
    have probe: "big_ok probe" "mag (limbs probe) = mag (limbs bb) * ?mid" by simp_all
    have cmp: "abs_compare probe r \<le> 0 \<longleftrightarrow> mag (limbs bb) * ?mid \<le> mag (limbs r)"
      using abs_compare_le_0 [of probe r] probe "1.prems"(4) by (simp add: big_ok_def)
    note step = "1.prems"(1) [unfolded search_digit.simps [of h bb r lo hi best]]
    show ?thesis
    proof (cases "mag (limbs bb) * ?mid \<le> mag (limbs r)")
      case low: True
      show ?thesis
      proof (cases "?mid = BASE - 1")
        case mid_max: True
        with mid "1.prems"(5) have "hi = ?mid" by linarith
        moreover from mid_max low cmp step True copy mul have "q = ?mid" by (simp add: Let_def)
        ultimately have "q = hi" and "mag (limbs bb) * hi \<le> mag (limbs r)" using low by metis+
        with "1.prems"(5,9) show ?thesis by simp
      next
        case False
        with low cmp step True copy mul have "search_digit h bb r (?mid + 1) hi ?mid = Some q"
          by (simp add: Let_def)
        with "1.IH"(1) [OF True refl copy mul] low cmp False mid "1.prems" show ?thesis by simp
      qed
    next
      case high: False
      then have "?mid \<noteq> 0" by (metis le0 mult_0_right)
      with high cmp step True copy mul have "search_digit h bb r lo (?mid - 1) best = Some q"
        by (auto simp: Let_def split: if_splits)
      with "1.IH"(2) [OF True refl copy mul] high cmp \<open>?mid \<noteq> 0\<close> mid "1.prems" show ?thesis
        by simp
    qed
  next
    case False
    with "1.prems"(1) have "q = best" by (simp add: search_digit.simps [of h bb r lo hi best])
    moreover from False "1.prems"(6,7) have "best = hi" by simp
    ultimately show ?thesis using "1.prems"(5,8,9) by simp
  qed
qed

lemma search_digit_total:
  assumes "room h (length (limbs bb))" and "room h (length (limbs bb) + 1)"
  shows "\<exists>q. search_digit h bb r lo hi best = Some q"
  using assms
proof (induction h bb r lo hi best rule: search_digit.induct)
  case (1 h bb r lo hi best)
  have copy: "pn_big_copy h bb = Some bb" using "1.prems" by (simp add: pn_big_copy_eq)
  obtain w where mul: "pn_big_mul_small h bb (lo + (hi - lo) div 2) = Some w"
    using mul_small_total [OF "1.prems"(2)] by blast
  note IH = "1.IH" [OF _ refl copy mul]
  show ?case
    using "1.prems" IH by (subst search_digit.simps) (auto simp: Let_def copy mul)
qed

lemma reduce_remainder_correct:
  assumes "reduce_remainder h bb r q = Some r'" and "big_ok bb" and "sign bb = 1"
    and "canonical (limbs r)" and "q < BASE" and "mag (limbs bb) * q \<le> mag (limbs r)"
  shows "canonical (limbs r') \<and> mag (limbs r') = mag (limbs r) - mag (limbs bb) * q"
proof (cases "q = 0")
  case False
  with assms(1) obtain p where mul: "pn_big_mul_small h bb q = Some p" and sub: "abs_sub h r p = Some r'"
    by (auto simp: reduce_remainder_def dest: pn_big_copy_Some split: option.splits)
  from probe_correct [OF assms(2,3) _ mul] assms(5)
  have p: "big_ok p" "mag (limbs p) = mag (limbs bb) * q" by simp_all
  from abs_sub_correct [OF _ _ _ _ sub] canonical_le_length [of "limbs p" "limbs r"] p assms(4,6)
  show ?thesis by (simp add: big_ok_def canonical_def)
qed (use assms in \<open>simp add: reduce_remainder_def\<close>)

lemma divmod_loop_correct:
  assumes "divmod_loop h bb ls r = Some (qs, r')" and "big_ok bb" and "sign bb = 1"
    and "canonical (limbs r)" and "mag (limbs r) < mag (limbs bb)" and "small_limbs ls"
  shows "mag (rev qs) * mag (limbs bb) + mag (limbs r') = mag (limbs r) * BASE ^ length ls + mag (rev ls) \<and>
    mag (limbs r') < mag (limbs bb) \<and> canonical (limbs r') \<and> small_limbs qs \<and> length qs = length ls"
  using assms
proof (induction ls arbitrary: r qs)
  case (Cons l ls)
  let ?B = "mag (limbs bb)"
  from Cons.prems(1) obtain s q t qs' where
    s: "shift_base_add h r l = Some s" and q: "search_digit h bb s 0 (BASE - 1) 0 = Some q"
    and t: "reduce_remainder h bb s q = Some t" and rest: "divmod_loop h bb ls t = Some (qs', r')"
    and qs: "qs = q # qs'"
    by (auto split: option.splits)
  from shift_base_add_correct [OF s Cons.prems(4)] Cons.prems(6)
  have s': "canonical (limbs s)" "mag (limbs s) = BASE * mag (limbs r) + l" by simp_all
  have "mag (limbs s) < BASE * (mag (limbs r) + 1)" using Cons.prems(6) by (simp add: s')
  also have "\<dots> \<le> BASE * ?B" using Cons.prems(5) by (intro mult_le_mono2) simp
  finally have "mag (limbs s) < ?B * (BASE - 1 + 1)" by simp
  with search_digit_correct [OF q Cons.prems(2,3) s'(1)]
  have q': "q < BASE" "?B * q \<le> mag (limbs s)" "mag (limbs s) < ?B * (q + 1)" by simp_all
  from reduce_remainder_correct [OF t Cons.prems(2,3) s'(1) q'(1,2)]
  have t': "canonical (limbs t)" "mag (limbs t) = mag (limbs s) - ?B * q" by simp_all
  with q' have "mag (limbs t) < ?B" by simp
  from Cons.IH [OF rest Cons.prems(2,3) t'(1) this] Cons.prems(6)
  have IH: "mag (rev qs') * ?B + mag (limbs r') = mag (limbs t) * BASE ^ length ls + mag (rev ls)"
    "mag (limbs r') < ?B" "canonical (limbs r')" "small_limbs qs'" "length qs' = length ls"
    by simp_all
  have "mag (rev qs) * ?B + mag (limbs r') =
      (mag (rev qs') * ?B + mag (limbs r')) + BASE ^ length ls * (?B * q)"
    by (simp add: qs IH(5) algebra_simps)
  also have "\<dots> = BASE ^ length ls * (mag (limbs t) + ?B * q) + mag (rev ls)"
    by (simp only: IH(1)) (simp only: ring_distribs ac_simps)
  also have "mag (limbs t) + ?B * q = BASE * mag (limbs r) + l"
    using t'(2) q'(2) s'(2) by simp
  finally show ?case using IH q'(1) by (simp add: qs algebra_simps)
qed simp

lemma divmod_loop_total:
  assumes "\<forall>n \<le> length (limbs bb) + 1. room h n" and "big_ok bb" and "sign bb = 1"
    and "canonical (limbs r)" and "mag (limbs r) < mag (limbs bb)" and "small_limbs ls"
  shows "\<exists>out. divmod_loop h bb ls r = Some out"
  using assms
proof (induction ls arbitrary: r)
  case (Cons l ls)
  let ?B = "mag (limbs bb)"
  have bb: "canonical (limbs bb)" using Cons.prems(2) by (simp add: big_ok_def)
  from canonical_le_length [OF Cons.prems(4) bb] Cons.prems(5)
  have len: "length (limbs r) \<le> length (limbs bb)" by simp
  with Cons.prems(1) obtain s where s: "shift_base_add h r l = Some s"
    using shift_base_add_total [of h r l] by auto
  from shift_base_add_correct [OF s Cons.prems(4)] Cons.prems(6)
  have s': "canonical (limbs s)" "mag (limbs s) = BASE * mag (limbs r) + l" by simp_all
  have "length (limbs s) \<le> length (limbs r) + 1"
    using s by (auto simp: shift_base_add_def resize_eq split: if_splits)
  with len have lens: "length (limbs s) \<le> length (limbs bb) + 1" by simp
  have "mag (limbs s) < BASE * (mag (limbs r) + 1)" using Cons.prems(6) by (simp add: s')
  also have "\<dots> \<le> BASE * ?B" using Cons.prems(5) by (intro mult_le_mono2) simp
  finally have s_less: "mag (limbs s) < ?B * (BASE - 1 + 1)" by simp
  obtain q where q: "search_digit h bb s 0 (BASE - 1) 0 = Some q"
    using search_digit_total [of h bb s 0 "BASE - 1" 0] Cons.prems(1) by auto
  from s_less search_digit_correct [OF q Cons.prems(2,3) s'(1)]
  have q': "q < BASE" "?B * q \<le> mag (limbs s)" "mag (limbs s) < ?B * (q + 1)" by simp_all
  obtain w where "pn_big_mul_small h bb q = Some w"
    using mul_small_total [of h bb q] Cons.prems(1) by auto
  then obtain t where t: "reduce_remainder h bb s q = Some t"
    using Cons.prems(1) lens
    by (cases "q = 0") (simp_all add: reduce_remainder_def pn_big_copy_eq abs_sub_def resize_eq)
  from reduce_remainder_correct [OF t Cons.prems(2,3) s'(1) q'(1,2)] q'
  have "canonical (limbs t)" "mag (limbs t) < ?B" by simp_all
  with Cons.IH [of t] Cons.prems obtain out where "divmod_loop h bb ls t = Some out" by auto
  with s q t show ?case by (cases out) simp
qed simp

definition magnitude :: "PnBigInt \<Rightarrow> PnBigInt" where
  "magnitude v = v\<lparr>sign := (if limbs v \<noteq> [] then 1 else 0)\<rparr>"

lemma magnitude [simp]: "limbs (magnitude v) = limbs v" "big_ok v \<Longrightarrow> big_ok (magnitude v)"
  "big_ok v \<Longrightarrow> sign v \<noteq> 0 \<Longrightarrow> sign (magnitude v) = 1"
  by (auto simp: magnitude_def big_ok_def)

lemma pn_big_divmod_eq:
  assumes "sign b \<noteq> 0"
  shows "pn_big_divmod h a b =
    (if \<not> room h (length (limbs a)) \<or> \<not> room h (length (limbs b)) then None
     else if abs_compare a b < 0 then Some (pn_big_init, a)
     else case divmod_loop h (magnitude b) (rev (limbs a)) pn_big_init of
        None \<Rightarrow> None
      | Some (qs, r) \<Rightarrow>
          Some (normalize \<lparr>sign = (if qs \<noteq> [] then sign a * sign b else 0), limbs = rev qs\<rparr>,
                r\<lparr>sign := (if limbs r \<noteq> [] then sign a else 0)\<rparr>))"
  using assms
  by (auto simp: pn_big_divmod_def pn_big_copy_eq resize_eq magnitude_def pn_big_init_def
      abs_compare_def Let_def split: option.splits)

lemma divmod_correct:
  assumes ok: "big_ok a" "big_ok b" and dm: "pn_big_divmod h a b = Some (q, r)"
  shows "big_ok q \<and> big_ok r \<and> sign b \<noteq> 0 \<and> big_val a = big_val q * big_val b + big_val r \<and>
    \<bar>big_val r\<bar> < \<bar>big_val b\<bar> \<and> (sign r = 0 \<or> sign r = sign a)"
proof -
  from dm have b: "sign b \<noteq> 0" by (auto simp: pn_big_divmod_def)
  note eq = pn_big_divmod_eq [OF b, of h a]
  have c: "canonical (limbs a)" "canonical (limbs b)" using ok by (simp_all add: big_ok_def)
  show ?thesis
  proof (cases "abs_compare a b < 0")
    case True
    with dm eq have "q = pn_big_init" "r = a" by (auto split: if_splits)
    with True ok b c show ?thesis by (auto simp: big_val_abs abs_compare_less_0)
  next
    case False
    with c have ge: "mag (limbs b) \<le> mag (limbs a)" by (simp add: abs_compare_less_0)
    moreover have "mag (limbs b) > 0" using ok(2) b by (rule big_ok_mag_pos)
    ultimately have a: "sign a \<noteq> 0" using ok(1) by (auto simp: big_ok_def)
    from dm eq False obtain qs t where
      loop: "divmod_loop h (magnitude b) (rev (limbs a)) pn_big_init = Some (qs, t)"
      and q: "q = normalize \<lparr>sign = (if qs \<noteq> [] then sign a * sign b else 0), limbs = rev qs\<rparr>"
      and r: "r = t\<lparr>sign := (if limbs t \<noteq> [] then sign a else 0)\<rparr>"
      by (auto split: if_splits option.splits)
    from divmod_loop_correct [OF loop] ok b \<open>mag (limbs b) > 0\<close> big_ok_small [OF ok(1)]
    have l: "mag (rev qs) * mag (limbs b) + mag (limbs t) = mag (limbs a)"
      "mag (limbs t) < mag (limbs b)" "canonical (limbs t)" "small_limbs qs"
      "length qs = length (limbs a)"
      by (simp_all add: pn_big_init_def canonical_def)
    from l(5) a ok(1) have qs: "qs \<noteq> []" by (auto simp: big_ok_def)
    have s: "sign a * sign b \<in> {-1, 1}" "sign b * sign b = 1"
      using a b ok by (auto simp: big_ok_def)
    have "big_ok q" unfolding q using qs l(4) s(1) by (intro big_ok_normalize) simp_all
    moreover have "big_ok r" using l(3) a ok(1) by (auto simp: r big_ok_def)
    moreover have r_val: "big_val r = sign a * int (mag (limbs t))" by (simp add: r big_val_def)
    moreover have "big_val q = sign a * sign b * int (mag (rev qs))"
      unfolding q big_val_normalize using qs by (simp add: big_val_def)
    then have "big_val q * big_val b + big_val r =
        sign a * ((sign b * sign b) * int (mag (rev qs) * mag (limbs b)) + int (mag (limbs t)))"
      unfolding r_val by (simp add: big_val_def [of b] algebra_simps)
    then have "big_val a = big_val q * big_val b + big_val r"
      by (simp add: s(2) big_val_def [of a] flip: l(1))
    moreover have "\<bar>big_val r\<bar> < \<bar>big_val b\<bar>"
      using l(2) ok \<open>big_ok r\<close> by (simp add: big_val_abs) (simp add: r)
    ultimately show ?thesis using b by (simp add: r)
  qed
qed

lemma divmod_total:
  assumes "big_ok a" and "big_ok b" and "sign b \<noteq> 0"
    and "\<forall>n \<le> max (length (limbs a)) (length (limbs b) + 1). room h n"
  shows "\<exists>q r. pn_big_divmod h a b = Some (q, r)"
proof -
  from assms(2,3) have "mag (limbs b) > 0" by (rule big_ok_mag_pos)
  with divmod_loop_total [of "magnitude b" h pn_big_init "rev (limbs a)"] assms
  obtain out where "divmod_loop h (magnitude b) (rev (limbs a)) pn_big_init = Some out"
    by (auto simp: pn_big_init_def canonical_def big_ok_small)
  with assms(4) show ?thesis by (cases out) (simp add: pn_big_divmod_eq [OF assms(3)])
qed

subsection \<open>Conversion to a size, powers of ten\<close>

lemma fits_loop_correct:
  "small_limbs ls \<Longrightarrow> n \<le> SIZE_MAX \<Longrightarrow>
     fits_loop ls n =
       (let v = n * BASE ^ length ls + mag (rev ls) in if v \<le> SIZE_MAX then Some v else None)"
proof (induction ls arbitrary: n)
  case (Cons l ls)
  have le: "n \<le> (SIZE_MAX - l) div BASE \<longleftrightarrow> n * BASE + l \<le> SIZE_MAX"
    using Cons.prems(1) by (subst less_eq_div_iff_mult_less_eq) (auto simp: c_types)
  have eq: "n * BASE ^ length (l # ls) + mag (rev (l # ls)) =
      (n * BASE + l) * BASE ^ length ls + mag (rev ls)"
    by (simp add: algebra_simps)
  show ?case
  proof (cases "n * BASE + l \<le> SIZE_MAX")
    case True
    then have u: "u64 (n * BASE + l) = n * BASE + l" by (simp add: c_types)
    with True le have "fits_loop (l # ls) n = fits_loop ls (n * BASE + l)" by simp
    with Cons.IH [OF _ True] Cons.prems(1) show ?thesis unfolding eq by simp
  next
    case False
    have "n * BASE + l \<le> (n * BASE + l) * BASE ^ length ls" by simp
    with False have "\<not> (n * BASE + l) * BASE ^ length ls + mag (rev ls) \<le> SIZE_MAX" by linarith
    with False le show ?thesis unfolding eq by (simp add: Let_def)
  qed
qed (simp add: Let_def)

lemma fits_size_correct:
  assumes "big_ok v"
  shows "pn_big_fits_size v =
    (if 0 \<le> big_val v \<and> big_val v \<le> int SIZE_MAX then Some (nat (big_val v)) else None)"
proof -
  have sg: "sign v < 0 \<longleftrightarrow> big_val v < 0"
    using assms big_val_sgn [OF assms] by (metis sgn_less)
  show ?thesis
  proof (cases "sign v < 0")
    case False
    with sg have "big_val v = int (mag (limbs v))" using big_val_abs [OF assms] by simp
    with False show ?thesis
      using fits_loop_correct [of "rev (limbs v)" 0] big_ok_small [OF assms]
      by (simp add: pn_big_fits_size_def Let_def c_types)
  qed (use sg in \<open>simp add: pn_big_fits_size_def\<close>)
qed

lemma pow10_correct:
  "big_ok v \<Longrightarrow> pn_big_pow10 h v n = Some w \<Longrightarrow> big_ok w \<and> big_val w = big_val v * 10 ^ n"
proof (induction n arbitrary: v)
  case (Suc n)
  then obtain u where u: "pn_big_mul_small h v 10 = Some u" and w: "pn_big_pow10 h u n = Some w"
    by (auto split: option.splits)
  from mul_small_correct [OF Suc.prems(1) _ u] have "big_ok u" "big_val u = big_val v * 10" by simp_all
  with Suc.IH [OF _ w] show ?case by simp
qed simp

subsection \<open>The decimal text of an integer\<close>

text \<open>The callers of \<open>pn_big_from_digits\<close> split the sign off and pass the digits with it.\<close>

definition read_decimal :: "heap \<Rightarrow> string \<Rightarrow> PnBigInt option" where
  "read_decimal h s =
     (if s \<noteq> [] \<and> hd s = CHR ''-'' then pn_big_from_digits h (tl s) (-1)
      else pn_big_from_digits h s 1)"

lemma append_carry_length:
  "append_carry h v r = Some w \<Longrightarrow> length (limbs w) \<le> length (fst r) + 1"
  by (cases r) (auto simp: append_carry_eq split: if_splits)

lemma push_digit_total:
  assumes rm: "\<forall>n \<le> length (limbs v) + 2. room h n" and d: "d < BASE"
  shows "\<exists>w. push_digit h radix v d = Some w \<and> length (limbs w) \<le> length (limbs v) + 2"
proof -
  obtain u where u: "pn_big_mul_small h v radix = Some u"
    using mul_small_total [of h v radix] rm by auto
  then have len: "length (limbs u) \<le> length (limbs v) + 1"
    by (auto simp: pn_big_mul_small_def length_mul_small_loop
        split: if_splits dest: append_carry_length)
  with rm d obtain w where w: "pn_big_add_small h u d = Some w"
    using add_small_total [of h u d] by auto
  have "length (limbs w) \<le> max 1 (length (limbs u) + 1)"
    using w d
    by (auto simp: pn_big_add_small_def pn_big_from_u64_def resize_eq length_add_small_loop
        count_limbs_small split: if_splits dest: append_carry_length)
  with u w len show ?thesis by (auto simp: push_digit_def)
qed

lemma from_digits_loop_total:
  assumes "\<forall>c \<in> set cs. is_digit_char c"
    and "\<forall>n \<le> length (limbs v) + 2 * length cs. room h n"
  shows "\<exists>w. from_digits_loop h v cs = Some w"
  using assms
proof (induction cs arbitrary: v)
  case (Cons c cs)
  then have "digit_value c < BASE" using digit_value_less [of c] by simp
  then obtain u where "push_digit h 10 v (digit_value c) = Some u"
    "length (limbs u) \<le> length (limbs v) + 2"
    using push_digit_total [of v h "digit_value c" 10] Cons.prems(2) by auto
  with Cons.IH [of u] Cons.prems show ?case by auto
qed simp

lemma from_digits_total:
  assumes "plentiful h" and "\<forall>c \<in> set cs. is_digit_char c" and "length cs \<le> SIZE_MAX div 8"
  shows "\<exists>w. pn_big_from_digits h cs s = Some w"
  using from_digits_loop_total [of cs pn_big_init h] assms
  by (auto simp: pn_big_from_digits_def pn_big_init_def room_def c_types)

lemma length_show_u: "n < 10 ^ k \<Longrightarrow> 0 < k \<Longrightarrow> length (show_u n) \<le> k"
proof (induction n arbitrary: k rule: show_u.induct)
  case (1 n)
  show ?case
  proof (cases "n < 10")
    case False
    with 1 obtain j where j: "k = Suc j" "0 < j" by (cases k; cases "k - 1") auto
    with 1 False have "length (show_u (n div 10)) \<le> j" by auto
    with False j show ?thesis by (simp add: show_u.simps [of n])
  qed (use 1 in \<open>simp add: show_u.simps [of n]\<close>)
qed

lemma length_mag_digits:
  assumes "small_limbs ls" and "ls \<noteq> []"
  shows "length (mag_digits ls) \<le> 9 * length ls"
proof -
  from assms have "last ls < 10 ^ 9" by (auto simp: small_limbs_def)
  then have "length (show_u (last ls)) \<le> 9" by (intro length_show_u) simp_all
  then show ?thesis
    using assms(2) by (cases ls) (simp_all add: mag_digits_def length_concat comp_def sum_list_triv
        split: if_splits)
qed

lemma read_decimal_digits:
  assumes "\<forall>c \<in> set ds. is_digit_char c"
  shows "read_decimal h (''-'' @ ds) = pn_big_from_digits h ds (-1)"
    and "read_decimal h ds = pn_big_from_digits h ds 1"
  using assms by (cases ds; auto simp: read_decimal_def is_digit_char_def)+

lemma string_read_back:
  assumes ok: "big_ok v" and h: "plentiful h" and len: "length (limbs v) \<le> SIZE_MAX div 128"
  shows "\<exists>s. pn_big_string h v = Some s \<and> read_decimal h s = Some v"
proof (cases "sign v = 0")
  case True
  with ok have "v = \<lparr>sign = 0, limbs = []\<rparr>" by (simp add: big_ok_def)
  moreover have "digit_value CHR ''0'' = 0" "is_digit_char CHR ''0''"
    by (simp_all add: digit_value_def is_digit_char_def)
  ultimately show ?thesis
    using h True by (simp add: pn_big_string_def read_decimal_def pn_big_from_digits_def
        push_digit_def pn_big_mul_small_def pn_big_init_def pn_big_add_small_def)
next
  case False
  let ?ds = "mag_digits (limbs v)"
  from ok False have ls: "small_limbs (limbs v)" "limbs v \<noteq> []"
    by (auto simp: big_ok_def canonical_def)
  note digits = mag_digits_correct [OF ls]
  from False h obtain s where s: "pn_big_string h v = Some s" by (simp add: pn_big_string_def)
  from pn_big_string_eq [OF s] False have s': "s = (if sign v < 0 then ''-'' else '''') @ ?ds" by simp
  let ?g = "if sign v < 0 then -1 else 1 :: int"
  from length_mag_digits [OF ls] len have "length ?ds \<le> SIZE_MAX div 8" by (simp add: c_types)
  then obtain w where w: "pn_big_from_digits h ?ds ?g = Some w"
    using from_digits_total [OF h] digits by blast
  from from_digits_correct [OF w] digits
  have "big_ok w" "big_val w = ?g * int (mag (limbs v))" by (simp_all split: if_splits)
  moreover from False ok have "sign v = ?g" by (auto simp: big_ok_def)
  ultimately have "w = v" using ok by (intro big_val_inj) (simp_all add: big_val_def [of v])
  with w s s' digits show ?thesis
    using read_decimal_digits [of ?ds h] by (auto split: if_splits)
qed

text \<open>The arithmetic implements the interface its clients use, under any heap.\<close>

interpretation big: exact_ring big_ok big_val "pn_big_add h" "pn_big_sub h" "pn_big_mul h" for h
  by unfold_locales (fact add_correct sub_correct mul_correct)+

section \<open>Properties\<close>

text \<open>The memory an operation on two operands can ask for.\<close>

definition enough :: "heap \<Rightarrow> PnBigInt \<Rightarrow> PnBigInt \<Rightarrow> bool" where
  "enough h a b \<longleftrightarrow> (\<forall>n \<le> length (limbs a) + length (limbs b) + 1. room h n)"

lemma enough_plentiful:
  "plentiful h \<Longrightarrow> length (limbs a) + length (limbs b) < SIZE_MAX div 4 \<Longrightarrow> enough h a b"
  by (simp add: enough_def room_def)

text \<open>
  C11. Addition, subtraction and multiplication are exact on canonical integers, whatever the signs
  and lengths: the result is canonical and has the mathematical value, and the only failure is a
  refused allocation. In particular no limb index is ever out of range.
\<close>

theorem bigint_arithmetic_exact:
  assumes "big_ok a" and "big_ok b"
  shows "(case pn_big_add h a b of
            None \<Rightarrow> \<not> enough h a b
          | Some c \<Rightarrow> big_ok c \<and> big_val c = big_val a + big_val b) \<and>
         (case pn_big_sub h a b of
            None \<Rightarrow> \<not> enough h a b
          | Some c \<Rightarrow> big_ok c \<and> big_val c = big_val a - big_val b) \<and>
         (case pn_big_mul h a b of
            None \<Rightarrow> \<not> enough h a b
          | Some c \<Rightarrow> big_ok c \<and> big_val c = big_val a * big_val b)"
proof (intro conjI)
  show "case pn_big_add h a b of
      None \<Rightarrow> \<not> enough h a b
    | Some c \<Rightarrow> big_ok c \<and> big_val c = big_val a + big_val b"
    using add_correct [OF assms] add_total [of a b h] by (fastforce simp: enough_def split: option.splits)
  show "case pn_big_sub h a b of
      None \<Rightarrow> \<not> enough h a b
    | Some c \<Rightarrow> big_ok c \<and> big_val c = big_val a - big_val b"
    using sub_correct [OF assms] sub_total [of a b h] by (fastforce simp: enough_def split: option.splits)
  show "case pn_big_mul h a b of
      None \<Rightarrow> \<not> enough h a b
    | Some c \<Rightarrow> big_ok c \<and> big_val c = big_val a * big_val b"
    using mul_correct [OF assms, of h] mul_total [OF assms, of h]
    by (auto simp: enough_def split: option.splits intro!: exI [of _ "length (limbs a) + length (limbs b)"])
qed

definition sample_big :: PnBigInt where
  "sample_big = \<lparr>sign = -1, limbs = [999999999, 7]\<rparr>"

lemma sample_big_ok: "big_ok sample_big" "big_val sample_big = -7999999999" "length (limbs sample_big) = 2"
  by (simp_all add: sample_big_def big_ok_def canonical_def big_val_def)

theorem bigint_arithmetic_exact_witness:
  "\<exists>c. pn_big_mul (\<lambda>_. True) sample_big sample_big = Some c \<and> big_val c = 63999999984000000001"
proof -
  have "enough (\<lambda>_. True) sample_big sample_big"
    by (rule enough_plentiful) (simp_all add: plentiful_def sample_big_ok c_types)
  then show ?thesis
    using bigint_arithmetic_exact [OF sample_big_ok(1) sample_big_ok(1), of "\<lambda>_. True"]
    by (auto simp: sample_big_ok split: option.splits)
qed

text \<open>
  C10. Division returns exactly when the divisor is not zero and the memory is there; quotient and
  remainder are canonical, \<open>a = q * b + r\<close> with \<open>|r| < |b|\<close>, and a nonzero remainder has the sign of
  the dividend: division truncates toward zero. The digit search ends on every input.
\<close>

theorem bigint_divmod_truncates:
  assumes "big_ok a" and "big_ok b"
  shows "case pn_big_divmod h a b of
      None \<Rightarrow> big_val b = 0 \<or> \<not> enough h a b
    | Some (q, r) \<Rightarrow>
        big_ok q \<and> big_ok r \<and> big_val b \<noteq> 0 \<and> big_val a = big_val q * big_val b + big_val r \<and>
        \<bar>big_val r\<bar> < \<bar>big_val b\<bar> \<and> (big_val r = 0 \<or> sgn (big_val r) = sgn (big_val a))"
proof (cases "pn_big_divmod h a b")
  case None
  with divmod_total [OF assms, of h] have "sign b = 0 \<or> \<not> enough h a b"
    by (fastforce simp: enough_def)
  with None show ?thesis by (auto simp: big_val_def)
next
  case (Some out)
  obtain q r where "out = (q, r)" by (cases out)
  with Some divmod_correct [OF assms, of h q r]
  have "big_ok q \<and> big_ok r \<and> sign b \<noteq> 0 \<and> big_val a = big_val q * big_val b + big_val r \<and>
      \<bar>big_val r\<bar> < \<bar>big_val b\<bar> \<and> (sign r = 0 \<or> sign r = sign a)" by simp
  moreover have "big_val b = 0 \<longleftrightarrow> sign b = 0" using assms(2) by (rule big_val_0_iff)
  ultimately show ?thesis
    using Some \<open>out = (q, r)\<close> big_val_sgn [OF assms(1)] big_val_sgn [of r] big_val_0_iff [of r] by simp
qed

theorem bigint_divmod_truncates_witness:
  "\<exists>q r. pn_big_divmod (\<lambda>_. True) sample_big \<lparr>sign = 1, limbs = [7]\<rparr> = Some (q, r) \<and>
     big_val q * 7 + big_val r = -7999999999 \<and> -7 < big_val r \<and> big_val r \<le> 0"
proof -
  let ?b = "\<lparr>sign = 1, limbs = [7]\<rparr>"
  have b: "big_ok ?b" "big_val ?b = 7" by (simp_all add: big_ok_def canonical_def big_val_def)
  have "enough (\<lambda>_. True) sample_big ?b"
    by (rule enough_plentiful) (simp_all add: plentiful_def sample_big_ok c_types)
  then show ?thesis
    using bigint_divmod_truncates [OF sample_big_ok(1) b(1), of "\<lambda>_. True"]
    by (auto simp: sample_big_ok b sgn_if split: option.splits if_splits)
qed

text \<open>
  Comparison is the order of the integers, two canonical representations of one integer are
  equal, and conversion to a size succeeds exactly for the integers a \<open>size_t\<close> can hold.
\<close>

lemma bigint_order_and_size:
  assumes "big_ok a" and "big_ok b"
  shows "pn_big_compare a b = sgn (big_val a - big_val b) \<and> (pn_big_compare a b = 0 \<longleftrightarrow> a = b) \<and>
    pn_big_fits_size a =
      (if 0 \<le> big_val a \<and> big_val a \<le> int SIZE_MAX then Some (nat (big_val a)) else None)"
  using compare_sgn [OF assms] big_val_inj [OF assms] fits_size_correct [OF assms(1)]
  by (auto simp: sgn_if)

text \<open>
  C27. Printing an integer and reading the text back gives the integer, with every limb after the
  first padded to nine digits.
\<close>

theorem bigint_string_roundtrip:
  assumes "big_ok v" and "plentiful h" and "length (limbs v) \<le> SIZE_MAX div 128"
  shows "\<exists>s. pn_big_string h v = Some s \<and> read_decimal h s = Some v"
  using assms by (rule string_read_back)

theorem bigint_string_roundtrip_witness:
  "read_decimal (\<lambda>_. True) (the (pn_big_string (\<lambda>_. True) sample_big)) = Some sample_big"
  using bigint_string_roundtrip [OF sample_big_ok(1), of "\<lambda>_. True"]
  by (auto simp: plentiful_def sample_big_ok c_types)

end
