(* ===== verification/Utf8.thy ===== *)
theory Utf8
  imports Bigint
begin

text \<open>
  Text as bytes: validation and code-point offsets, \<open>src/vm/utf8.c\<close>, and the caches that
  \<open>value_data\<close> of \<open>src/vm/value.c\<close> keeps with a string. \<open>utf8_encode\<close> is the reference encoding of
  one Unicode scalar value; the properties relate the byte-level code to lists of scalar values.
\<close>

unbundle bit_operations_syntax

definition utf8_lead :: "nat \<Rightarrow> (nat \<times> nat \<times> nat) option" where
  "utf8_lead c =
     (if c AND 0xe0 = 0xc0 then Some (1, c AND 0x1f, 0x80)
      else if c AND 0xf0 = 0xe0 then Some (2, c AND 0x0f, 0x800)
      else if c AND 0xf8 = 0xf0 then Some (3, c AND 7, 0x10000)
      else None)"

fun utf8_continue :: "nat \<Rightarrow> nat \<Rightarrow> byte list \<Rightarrow> nat option" where
  "utf8_continue 0 c s = Some c"
| "utf8_continue (Suc need) c [] = None"
| "utf8_continue (Suc need) c (b # s) =
     (if unat b AND 0xc0 \<noteq> 0x80 then None
      else utf8_continue need (push_bit 6 c OR (unat b AND 0x3f)) s)"

function utf8 :: "byte list \<Rightarrow> bool" where
  "utf8 [] = True"
| "utf8 (b # s) =
     (if unat b < 0x80 then utf8 s
      else case utf8_lead (unat b) of
        None \<Rightarrow> False
      | Some (need, c, least) \<Rightarrow>
          if need > length s then False
          else case utf8_continue need c s of
            None \<Rightarrow> False
          | Some c \<Rightarrow>
              if c < least \<or> c > 0x10ffff \<or> (0xd800 \<le> c \<and> c \<le> 0xdfff) then False
              else utf8 (drop need s))"
  by pat_completeness auto
termination
  by (relation "measure length") auto

text \<open>A string value: its bytes and the cached number of code points and ASCII flag.\<close>

record pn_bytes =
  data :: "byte list"
  characters :: nat
  ascii :: bool

fun scan_text :: "byte list \<Rightarrow> nat \<Rightarrow> bool \<Rightarrow> nat \<times> bool" where
  "scan_text [] n a = (n, a)"
| "scan_text (b # s) n a =
     scan_text s (if unat b AND 0xc0 \<noteq> 0x80 then n + 1 else n) (if unat b \<ge> 0x80 then False else a)"

definition text_data :: "byte list \<Rightarrow> pn_bytes" where
  "text_data s = (case scan_text s 0 True of (n, a) \<Rightarrow> \<lparr>data = s, characters = n, ascii = a\<rparr>)"

definition char_width :: "byte \<Rightarrow> nat" where
  "char_width b =
     (if unat b \<ge> 0x80
      then 1 + (if unat b AND 0xe0 = 0xc0 then 1 else if unat b AND 0xf0 = 0xe0 then 2 else 3)
      else 1)"

function offset_loop :: "byte list \<Rightarrow> nat \<Rightarrow> nat \<Rightarrow> nat \<Rightarrow> (nat \<times> nat) option" where
  "offset_loop [] i cp index = None"
| "offset_loop (b # s) i cp index =
     (if cp = index then Some (i, i + char_width b)
      else offset_loop (drop (char_width b - 1) s) (i + char_width b) (cp + 1) index)"
  by pat_completeness auto
termination
  by (relation "measure (\<lambda>(s, i, cp, index). length s)") auto

definition utf8_offset :: "pn_bytes \<Rightarrow> nat \<Rightarrow> (nat \<times> nat) option" where
  "utf8_offset v index =
     (if index \<ge> characters v then None
      else if ascii v then Some (index, index + 1)
      else offset_loop (data v) 0 0 index)"

section \<open>Scalar values and their encoding\<close>

definition scalar :: "nat \<Rightarrow> bool" where
  "scalar c \<longleftrightarrow> c \<le> 0x10ffff \<and> \<not> (0xd800 \<le> c \<and> c \<le> 0xdfff)"

definition utf8_encode :: "nat \<Rightarrow> byte list" where
  "utf8_encode c =
     map word_of_nat
       (if c < 0x80 then [c]
        else if c < 0x800 then [0xc0 + c div 64, 0x80 + c mod 64]
        else if c < 0x10000 then [0xe0 + c div 4096, 0x80 + c div 64 mod 64, 0x80 + c mod 64]
        else [0xf0 + c div 262144, 0x80 + c div 4096 mod 64, 0x80 + c div 64 mod 64, 0x80 + c mod 64])"

definition encode_text :: "nat list \<Rightarrow> byte list" where
  "encode_text cs = concat (map utf8_encode cs)"

declare utf8.simps(2) [simp del] offset_loop.simps(2) [simp del]

subsection \<open>Bit masks as ranges\<close>

lemma and_low: "(c::nat) AND mask n = c mod 2 ^ n"
  by (simp flip: take_bit_eq_mask add: take_bit_eq_mod)

lemma and_high: "(c::nat) AND push_bit n (mask m) = 2 ^ n * (c div 2 ^ n mod 2 ^ m)"
proof -
  have "c AND push_bit n (mask m) = push_bit n (take_bit m (drop_bit n c))"
    by (rule bit_eqI) (auto simp: bit_simps)
  then show ?thesis by (simp add: push_bit_eq_mult drop_bit_eq_div take_bit_eq_mod)
qed

lemma div_block: "0 < d \<Longrightarrow> c div d = k \<longleftrightarrow> d * k \<le> c \<and> c < d * k + (d::nat)"
  using less_eq_div_iff_mult_less_eq [of d k c] div_less_iff_less_mult [of d c "Suc k"]
  by (auto simp: mult.commute)

lemma byte_masks:
  assumes "(c::nat) < 256"
  shows "c AND 0xe0 = 0xc0 \<longleftrightarrow> 192 \<le> c \<and> c < 224"
    and "c AND 0xf0 = 0xe0 \<longleftrightarrow> 224 \<le> c \<and> c < 240"
    and "c AND 0xf8 = 0xf0 \<longleftrightarrow> 240 \<le> c \<and> c < 248"
    and "c AND 0xc0 = 0x80 \<longleftrightarrow> 128 \<le> c \<and> c < 192"
proof -
  have "c AND 0xe0 = 32 * (c div 32 mod 8)" "c AND 0xf0 = 16 * (c div 16 mod 16)"
    "c AND 0xf8 = 8 * (c div 8 mod 32)" "c AND 0xc0 = 64 * (c div 64 mod 4)"
    using and_high [of c 5 3] and_high [of c 4 4] and_high [of c 3 5] and_high [of c 6 2]
    by (simp_all add: push_bit_eq_mult mask_eq_exp_minus_1)
  moreover have "c div 32 mod 8 = c div 32" "c div 16 mod 16 = c div 16"
    "c div 8 mod 32 = c div 8" "c div 64 mod 4 = c div 64"
    using assms by (simp_all add: less_mult_imp_div_less)
  ultimately show "c AND 0xe0 = 0xc0 \<longleftrightarrow> 192 \<le> c \<and> c < 224"
    and "c AND 0xf0 = 0xe0 \<longleftrightarrow> 224 \<le> c \<and> c < 240"
    and "c AND 0xf8 = 0xf0 \<longleftrightarrow> 240 \<le> c \<and> c < 248"
    and "c AND 0xc0 = 0x80 \<longleftrightarrow> 128 \<le> c \<and> c < 192"
    using div_block [of 32 c 6] div_block [of 16 c 14] div_block [of 8 c 30] div_block [of 64 c 2]
    by simp_all
qed

lemma low_masks:
  "(c::nat) AND 0x1f = c mod 32" "c AND 0x0f = c mod 16" "c AND 7 = c mod 8" "c AND 0x3f = c mod 64"
  using and_low [of c 5] and_low [of c 4] and_low [of c 3] and_low [of c 6]
  by (simp_all add: mask_eq_exp_minus_1)

lemma shift_or: "x < 64 \<Longrightarrow> push_bit 6 c OR x = 64 * c + (x::nat)"
proof -
  assume "x < 64"
  then have x: "take_bit 6 x = x" by (simp add: take_bit_eq_mod)
  have "push_bit 6 c AND take_bit 6 x = 0"
    by (rule bit_eqI) (auto simp: bit_simps)
  then have "push_bit 6 c + x = push_bit 6 c OR x"
    by (simp add: x disjunctive_add_eq_or)
  then show ?thesis by (simp add: push_bit_eq_mult)
qed

subsection \<open>Encoding and decoding one scalar value\<close>

lemma unat_byte [simp]: "n < 256 \<Longrightarrow> unat (word_of_nat n :: byte) = n"
  by (simp add: unat_of_nat)

lemma byte_less [simp]: "unat (b :: byte) < 256"
  using unsigned_less [of b, where 'a = nat] by simp

lemma byte_unat [simp]: "(word_of_nat (unat b) :: byte) = b"
  by simp

lemmas mask_simps = byte_masks low_masks shift_or

lemma mod_block: "d * k \<le> c \<Longrightarrow> c < d * k + d \<Longrightarrow> c mod d = c - d * (k::nat)"
  using div_block [of d c k] minus_mult_div_eq_mod [of c d] by auto

lemma utf8_lead_eq:
  "c < 256 \<Longrightarrow> utf8_lead c =
     (if 192 \<le> c \<and> c < 224 then Some (1, c - 192, 0x80)
      else if 224 \<le> c \<and> c < 240 then Some (2, c - 224, 0x800)
      else if 240 \<le> c \<and> c < 248 then Some (3, c - 240, 0x10000) else None)"
  using mod_block [of 32 6 c] mod_block [of 16 14 c] mod_block [of 8 30 c]
  by (simp add: utf8_lead_def mask_simps)

lemma utf8_continue_Suc:
  "utf8_continue (Suc need) c (b # s) =
     (if 128 \<le> unat b \<and> unat b < 192 then utf8_continue need (64 * c + (unat b - 128)) s else None)"
  using mod_block [of 64 2 "unat b"] shift_or [of "unat b - 128" c] by (auto simp: mask_simps)

declare utf8_continue.simps(3) [simp del]

lemma utf8_continue_numeral:
  "utf8_continue (Suc 0) c (b # s) = (if 128 \<le> unat b \<and> unat b < 192 then Some (64 * c + (unat b - 128)) else None)"
  "utf8_continue 2 c (b # s) =
     (if 128 \<le> unat b \<and> unat b < 192 then utf8_continue (Suc 0) (64 * c + (unat b - 128)) s else None)"
  "utf8_continue 3 c (b # s) =
     (if 128 \<le> unat b \<and> unat b < 192 then utf8_continue 2 (64 * c + (unat b - 128)) s else None)"
  using utf8_continue_Suc [of 0 c b s] utf8_continue_Suc [of 1 c b s] utf8_continue_Suc [of 2 c b s]
  by (simp_all add: numeral_2_eq_2 numeral_3_eq_3)

abbreviation cont :: "byte \<Rightarrow> bool" where
  "cont b \<equiv> 128 \<le> unat b \<and> unat b < 192"

lemma utf8_ascii: "unat b < 128 \<Longrightarrow> utf8 (b # s) = utf8 s"
  by (simp add: utf8.simps)

lemma utf8_two:
  assumes "192 \<le> unat b" and "unat b < 224"
  shows "utf8 (b # s) \<longleftrightarrow> (\<exists>d t. s = d # t \<and> cont d \<and> 0x80 \<le> 64 * (unat b - 192) + (unat d - 128) \<and> utf8 t)"
proof (cases s)
  case (Cons d t)
  from assms have "64 * (unat b - 192) + (unat d - 128) < 0xd800" if "cont d"
    using that by linarith
  with assms Cons show ?thesis
    by (auto simp: utf8.simps(2) [of b] utf8_lead_eq utf8_continue_numeral)
qed (use assms in \<open>simp add: utf8.simps utf8_lead_eq\<close>)

lemma utf8_three:
  assumes "224 \<le> unat b" and "unat b < 240"
  shows "utf8 (b # s) \<longleftrightarrow>
    (\<exists>d e t. s = d # e # t \<and> cont d \<and> cont e \<and>
       (let c = 64 * (64 * (unat b - 224) + (unat d - 128)) + (unat e - 128)
        in 0x800 \<le> c \<and> scalar c) \<and> utf8 t)"
proof (cases "2 \<le> length s")
  case True
  then obtain d e t where s: "s = d # e # t" by (cases s; cases "tl s") auto
  define c where "c = 64 * (64 * (unat b - 224) + (unat d - 128)) + (unat e - 128)"
  have "utf8_continue 2 (unat b - 224) s = (if cont d \<and> cont e then Some c else None)"
    by (simp add: s utf8_continue_numeral c_def)
  with assms have "utf8 (b # s) \<longleftrightarrow> cont d \<and> cont e \<and> 0x800 \<le> c \<and> scalar c \<and> utf8 t"
    by (auto simp: s utf8.simps(2) [of b] utf8_lead_eq scalar_def)
  then show ?thesis by (simp add: s c_def Let_def)
qed (use assms in \<open>auto simp: utf8.simps utf8_lead_eq\<close>)

lemma utf8_four:
  assumes "240 \<le> unat b" and "unat b < 248"
  shows "utf8 (b # s) \<longleftrightarrow>
    (\<exists>d e f t. s = d # e # f # t \<and> cont d \<and> cont e \<and> cont f \<and>
       (let c = 64 * (64 * (64 * (unat b - 240) + (unat d - 128)) + (unat e - 128)) + (unat f - 128)
        in 0x10000 \<le> c \<and> scalar c) \<and> utf8 t)"
proof (cases "3 \<le> length s")
  case True
  then obtain d e f t where s: "s = d # e # f # t" by (cases s; cases "tl s"; cases "tl (tl s)") auto
  define c where "c = 64 * (64 * (64 * (unat b - 240) + (unat d - 128)) + (unat e - 128)) + (unat f - 128)"
  have "utf8_continue 3 (unat b - 240) s = (if cont d \<and> cont e \<and> cont f then Some c else None)"
    by (simp add: s utf8_continue_numeral c_def)
  with assms have "utf8 (b # s) \<longleftrightarrow> cont d \<and> cont e \<and> cont f \<and> 0x10000 \<le> c \<and> scalar c \<and> utf8 t"
    by (auto simp: s utf8.simps(2) [of b] utf8_lead_eq scalar_def)
  then show ?thesis by (simp add: s c_def Let_def)
qed (use assms in \<open>auto simp: utf8.simps utf8_lead_eq\<close>)

lemma utf8_other: "128 \<le> unat b \<Longrightarrow> unat b < 192 \<or> 248 \<le> unat b \<Longrightarrow> \<not> utf8 (b # s)"
  by (auto simp: utf8.simps(2) [of b] utf8_lead_eq)

lemma split64: "y < 64 \<Longrightarrow> (64 * x + y) div 64 = x" "y < 64 \<Longrightarrow> (64 * x + y) mod 64 = (y::nat)"
  by simp_all

lemma byte_back: "k \<le> unat (b::byte) \<Longrightarrow> word_of_nat (k + (unat b - k)) = b"
  by simp

lemma encode_nat:
  "x < 32 \<Longrightarrow> y < 64 \<Longrightarrow> 0x80 \<le> 64 * x + y \<Longrightarrow>
     utf8_encode (64 * x + y) = [word_of_nat (0xc0 + x), word_of_nat (0x80 + y)]"
  "x < 16 \<Longrightarrow> y < 64 \<Longrightarrow> z < 64 \<Longrightarrow> 0x800 \<le> 64 * (64 * x + y) + z \<Longrightarrow>
     utf8_encode (64 * (64 * x + y) + z) =
       [word_of_nat (0xe0 + x), word_of_nat (0x80 + y), word_of_nat (0x80 + z)]"
  "x < 8 \<Longrightarrow> y < 64 \<Longrightarrow> z < 64 \<Longrightarrow> w < 64 \<Longrightarrow> 0x10000 \<le> 64 * (64 * (64 * x + y) + z) + w \<Longrightarrow>
     utf8_encode (64 * (64 * (64 * x + y) + z) + w) =
       [word_of_nat (0xf0 + x), word_of_nat (0x80 + y), word_of_nat (0x80 + z), word_of_nat (0x80 + w)]"
proof -
  have d: "c div 4096 = c div 64 div 64" "c div 262144 = c div 64 div 64 div 64" for c :: nat
    by (simp_all flip: div_mult2_eq)
  show "x < 32 \<Longrightarrow> y < 64 \<Longrightarrow> 0x80 \<le> 64 * x + y \<Longrightarrow>
     utf8_encode (64 * x + y) = [word_of_nat (0xc0 + x), word_of_nat (0x80 + y)]"
    by (simp add: utf8_encode_def)
  show "x < 16 \<Longrightarrow> y < 64 \<Longrightarrow> z < 64 \<Longrightarrow> 0x800 \<le> 64 * (64 * x + y) + z \<Longrightarrow>
     utf8_encode (64 * (64 * x + y) + z) =
       [word_of_nat (0xe0 + x), word_of_nat (0x80 + y), word_of_nat (0x80 + z)]"
    by (simp only: utf8_encode_def d split64) simp
  show "x < 8 \<Longrightarrow> y < 64 \<Longrightarrow> z < 64 \<Longrightarrow> w < 64 \<Longrightarrow> 0x10000 \<le> 64 * (64 * (64 * x + y) + z) + w \<Longrightarrow>
     utf8_encode (64 * (64 * (64 * x + y) + z) + w) =
       [word_of_nat (0xf0 + x), word_of_nat (0x80 + y), word_of_nat (0x80 + z), word_of_nat (0x80 + w)]"
    by (simp only: utf8_encode_def d split64) simp
qed

lemma utf8_decode_first:
  assumes "utf8 (b # s)"
  shows "\<exists>c t. scalar c \<and> b # s = utf8_encode c @ t \<and> utf8 t"
proof -
  consider "unat b < 128" | "192 \<le> unat b" "unat b < 224" | "224 \<le> unat b" "unat b < 240"
    | "240 \<le> unat b" "unat b < 248"
    using utf8_other [of b s] assms by linarith
  then show ?thesis
  proof cases
    case 1
    then have "utf8_encode (unat b) = [b]" "scalar (unat b)" by (simp_all add: utf8_encode_def scalar_def)
    with 1 assms show ?thesis by (intro exI [of _ "unat b"] exI [of _ s]) (simp add: utf8_ascii)
  next
    case 2
    from assms utf8_two [OF 2, of s] obtain d t where *: "s = d # t" "cont d"
      "0x80 \<le> 64 * (unat b - 192) + (unat d - 128)" "utf8 t" by blast
    have lt: "unat b - 192 < 32" "unat d - 128 < 64" using 2 *(2) by auto
    have "scalar (64 * (unat b - 192) + (unat d - 128))"
      unfolding scalar_def using lt by linarith
    with encode_nat(1) [OF lt *(3)] * 2 show ?thesis
      by (intro exI conjI) (assumption, simp only: byte_back append.simps, simp)
  next
    case 3
    from assms utf8_three [OF 3, of s] obtain d e t where *: "s = d # e # t" "cont d" "cont e"
      "0x800 \<le> 64 * (64 * (unat b - 224) + (unat d - 128)) + (unat e - 128)"
      "scalar (64 * (64 * (unat b - 224) + (unat d - 128)) + (unat e - 128))" "utf8 t"
      unfolding Let_def by blast
    have lt: "unat b - 224 < 16" "unat d - 128 < 64" "unat e - 128 < 64" using 3 *(2,3) by auto
    have "b # s = utf8_encode (64 * (64 * (unat b - 224) + (unat d - 128)) + (unat e - 128)) @ t"
      by (simp only: encode_nat(2) [OF lt *(4)] byte_back [OF 3(1)] byte_back [OF conjunct1 [OF *(2)]]
          byte_back [OF conjunct1 [OF *(3)]] *(1) append.simps)
    with *(5,6) show ?thesis by blast
  next
    case 4
    from assms utf8_four [OF 4, of s] obtain d e f t where *: "s = d # e # f # t" "cont d" "cont e" "cont f"
      "0x10000 \<le> 64 * (64 * (64 * (unat b - 240) + (unat d - 128)) + (unat e - 128)) + (unat f - 128)"
      "scalar (64 * (64 * (64 * (unat b - 240) + (unat d - 128)) + (unat e - 128)) + (unat f - 128))"
      "utf8 t"
      unfolding Let_def by blast
    have lt: "unat b - 240 < 8" "unat d - 128 < 64" "unat e - 128 < 64" "unat f - 128 < 64"
      using 4 *(2,3,4) by auto
    have "b # s = utf8_encode (64 * (64 * (64 * (unat b - 240) + (unat d - 128)) + (unat e - 128)) + (unat f - 128)) @ t"
      by (simp only: encode_nat(3) [OF lt *(5)] byte_back [OF 4(1)] byte_back [OF conjunct1 [OF *(2)]]
          byte_back [OF conjunct1 [OF *(3)]] byte_back [OF conjunct1 [OF *(4)]] *(1) append.simps)
    with *(6,7) show ?thesis by blast
  qed
qed

subsection \<open>The shape of an encoded scalar value\<close>

lemma encode_cases:
  assumes "scalar c"
  obtains (one) "c < 128" "utf8_encode c = [word_of_nat c]"
    | (two) x y where "x < 32" "y < 64" "0x80 \<le> c" "c = 64 * x + y"
        "utf8_encode c = [word_of_nat (0xc0 + x), word_of_nat (0x80 + y)]"
    | (three) x y z where "x < 16" "y < 64" "z < 64" "0x800 \<le> c" "c = 64 * (64 * x + y) + z"
        "utf8_encode c = [word_of_nat (0xe0 + x), word_of_nat (0x80 + y), word_of_nat (0x80 + z)]"
    | (four) x y z w where "x < 8" "y < 64" "z < 64" "w < 64" "0x10000 \<le> c"
        "c = 64 * (64 * (64 * x + y) + z) + w"
        "utf8_encode c = [word_of_nat (0xf0 + x), word_of_nat (0x80 + y), word_of_nat (0x80 + z), word_of_nat (0x80 + w)]"
proof -
  have c: "c = 64 * (c div 64) + c mod 64" "c div 64 = 64 * (c div 64 div 64) + c div 64 mod 64"
    "c div 64 div 64 = 64 * (c div 64 div 64 div 64) + c div 64 div 64 mod 64"
    by simp_all
  have lt: "c mod 64 < 64" "c div 64 mod 64 < 64" "c div 64 div 64 mod 64 < 64" by simp_all
  from assms have le: "c \<le> 0x10ffff" by (simp add: scalar_def)
  consider "c < 0x80" | "0x80 \<le> c" "c < 0x800" | "0x800 \<le> c" "c < 0x10000" | "0x10000 \<le> c"
    by linarith
  then show thesis
  proof cases
    case 1
    then show thesis by (intro one) (simp_all add: utf8_encode_def)
  next
    case 2
    then have x: "c div 64 < 32" by (simp add: div_less_iff_less_mult)
    show thesis using encode_nat(1) [OF x lt(1)] two [OF x lt(1) 2(1) c(1)] 2 by (simp flip: c(1))
  next
    case 3
    then have x: "c div 64 div 64 < 16" by (simp add: div_less_iff_less_mult)
    have c3: "c = 64 * (64 * (c div 64 div 64) + c div 64 mod 64) + c mod 64" using c by metis
    show thesis
      using encode_nat(2) [OF x lt(2,1)] three [OF x lt(2,1) 3(1) c3] 3 by (simp flip: c3)
  next
    case 4
    then have x: "c div 64 div 64 div 64 < 8" using le by (simp add: div_less_iff_less_mult)
    have c4: "c = 64 * (64 * (64 * (c div 64 div 64 div 64) + c div 64 div 64 mod 64) + c div 64 mod 64) + c mod 64"
      using c by metis
    show thesis
      using encode_nat(3) [OF x lt(3,2,1)] four [OF x lt(3,2,1) 4(1) c4] 4 by (simp flip: c4)
  qed
qed

lemma utf8_encode_append:
  assumes "scalar c"
  shows "utf8 (utf8_encode c @ s) = utf8 s"
  using assms
proof (cases rule: encode_cases)
  case (two x y)
  then show ?thesis using utf8_two [of "word_of_nat (0xc0 + x)"] by (simp del: of_nat_add)
next
  case (three x y z)
  with assms show ?thesis
    using utf8_three [of "word_of_nat (0xe0 + x)" "word_of_nat (0x80 + y) # word_of_nat (0x80 + z) # s"]
    by (simp add: Let_def del: of_nat_add)
next
  case (four x y z w)
  with assms show ?thesis
    using utf8_four [of "word_of_nat (0xf0 + x)"
        "word_of_nat (0x80 + y) # word_of_nat (0x80 + z) # word_of_nat (0x80 + w) # s"]
    by (simp add: Let_def del: of_nat_add)
qed (simp_all add: utf8_ascii)

lemma encode_text_simps [simp]:
  "encode_text [] = []" "encode_text (c # cs) = utf8_encode c @ encode_text cs"
  "encode_text (cs @ ds) = encode_text cs @ encode_text ds"
  by (simp_all add: encode_text_def)

lemma utf8_encode_text: "list_all scalar cs \<Longrightarrow> utf8 (encode_text cs)"
  by (induction cs) (simp_all add: utf8_encode_append)

lemma utf8_decode_text: "utf8 s \<Longrightarrow> \<exists>cs. list_all scalar cs \<and> s = encode_text cs"
proof (induction s rule: length_induct)
  case (1 s)
  show ?case
  proof (cases s)
    case (Cons b t)
    from utf8_decode_first [of b t] "1.prems" Cons obtain c u where
      c: "scalar c" "s = utf8_encode c @ u" "utf8 u" by auto
    moreover from c(1) have "utf8_encode c \<noteq> []" by (cases rule: encode_cases) simp_all
    ultimately have "length u < length s" by simp
    with "1.IH" c(3) obtain cs where "list_all scalar cs" "u = encode_text cs" by blast
    with c show ?thesis by (intro exI [of _ "c # cs"]) simp
  qed (auto intro: exI [of _ "[]"])
qed

lemma utf8_append: "utf8 s \<Longrightarrow> utf8 t \<Longrightarrow> utf8 (s @ t)"
  using utf8_decode_text [of s] utf8_decode_text [of t] utf8_encode_text
  by (metis encode_text_simps(3) list_all_append)

subsection \<open>Cached counts and offsets\<close>

definition leads :: "byte list \<Rightarrow> nat" where
  "leads s = length (filter (\<lambda>b. \<not> cont b) s)"

definition all_ascii :: "byte list \<Rightarrow> bool" where
  "all_ascii s \<longleftrightarrow> list_all (\<lambda>b. unat b < 0x80) s"

lemma scan_text_eq: "scan_text s n a = (n + leads s, a \<and> all_ascii s)"
  by (induction s arbitrary: n a) (auto simp: leads_def all_ascii_def mask_simps)

lemma text_data_eq: "text_data s = \<lparr>data = s, characters = leads s, ascii = all_ascii s\<rparr>"
  by (simp add: text_data_def scan_text_eq)

lemma leads_append [simp]: "leads (s @ t) = leads s + leads t" "leads [] = 0"
  by (simp_all add: leads_def)

lemma all_ascii_append [simp]: "all_ascii (s @ t) \<longleftrightarrow> all_ascii s \<and> all_ascii t" "all_ascii []"
  by (simp_all add: all_ascii_def)

lemma encode_facts:
  assumes "scalar c"
  shows "leads (utf8_encode c) = 1 \<and> (all_ascii (utf8_encode c) \<longleftrightarrow> c < 128) \<and>
    (\<exists>b t. utf8_encode c = b # t \<and> char_width b = length (utf8_encode c))"
  by (cases rule: encode_cases [OF assms])
    (simp_all add: leads_def all_ascii_def char_width_def byte_masks del: of_nat_add)

lemma leads_encode_text: "list_all scalar cs \<Longrightarrow> leads (encode_text cs) = length cs"
  by (induction cs) (simp_all add: encode_facts)

lemma length_ascii_text: "list_all scalar cs \<Longrightarrow> all_ascii (encode_text cs) \<Longrightarrow> length (encode_text cs) = length cs"
  by (induction cs) (auto simp: encode_facts, simp add: utf8_encode_def)

lemma offset_loop_text:
  "list_all scalar cs \<Longrightarrow>
     offset_loop (encode_text cs) i cp k =
       (if cp \<le> k \<and> k - cp < length cs
        then Some (i + length (encode_text (take (k - cp) cs)), i + length (encode_text (take (Suc (k - cp)) cs)))
        else None)"
proof (induction cs arbitrary: i cp)
  case (Cons c cs)
  then obtain b t where b: "utf8_encode c = b # t" "char_width b = Suc (length t)"
    using encode_facts [of c] by auto
  show ?case
  proof (cases "cp = k")
    case False
    have "offset_loop (encode_text (c # cs)) i cp k =
        offset_loop (encode_text cs) (i + Suc (length t)) (Suc cp) k"
      using False b by (simp add: offset_loop.simps)
    also have "\<dots> = (if Suc cp \<le> k \<and> k - Suc cp < length cs
        then Some (i + Suc (length t) + length (encode_text (take (k - Suc cp) cs)),
                   i + Suc (length t) + length (encode_text (take (Suc (k - Suc cp)) cs))) else None)"
      using Cons by simp
    finally have *: "offset_loop (encode_text (c # cs)) i cp k = \<dots>" .
    show ?thesis
    proof (cases "cp < k")
      case True
      then obtain j where "k = Suc (cp + j)" using less_imp_Suc_add by blast
      with * b show ?thesis by (simp del: offset_loop.simps)
    qed (use * False in simp)
  qed (simp add: b offset_loop.simps)
qed simp

lemma utf8_offset_text:
  assumes "list_all scalar cs"
  shows "characters (text_data (encode_text cs)) = length cs \<and>
    utf8_offset (text_data (encode_text cs)) k =
      (if k < length cs
       then Some (length (encode_text (take k cs)), length (encode_text (take (Suc k) cs))) else None)"
proof (cases "k < length cs")
  case True
  have pre: "list_all scalar (take k cs)" using assms by (metis append_take_drop_id list_all_append)
  have "cs = take k cs @ cs ! k # drop (Suc k) cs" using True by (rule id_take_nth_drop)
  then have split: "encode_text cs = encode_text (take k cs) @ utf8_encode (cs ! k) @ encode_text (drop (Suc k) cs)"
    by (metis encode_text_simps(2,3))
  have next_len: "length (encode_text (take (Suc k) cs)) = length (encode_text (take k cs)) + length (utf8_encode (cs ! k))"
    using True by (simp add: take_Suc_conv_app_nth)
  have ascii: "length (encode_text (take k cs)) = k" "length (utf8_encode (cs ! k)) = 1"
    if "all_ascii (encode_text cs)"
  proof -
    from that split have "all_ascii (encode_text (take k cs))" "all_ascii (utf8_encode (cs ! k))"
      by (metis all_ascii_append(1))+
    moreover have "scalar (cs ! k)" using assms True by (simp add: list_all_length)
    ultimately show "length (encode_text (take k cs)) = k" "length (utf8_encode (cs ! k)) = 1"
      using length_ascii_text [OF pre] encode_facts [of "cs ! k"] True
      by (simp_all add: utf8_encode_def [of "cs ! k"])
  qed
  then show ?thesis
    using True next_len offset_loop_text [OF assms, of 0 0 k]
    by (cases "all_ascii (encode_text cs)")
      (simp_all add: utf8_offset_def text_data_eq leads_encode_text [OF assms])
qed (use assms in \<open>simp add: utf8_offset_def text_data_eq leads_encode_text\<close>)

text \<open>The bytes between two code points.\<close>

lemma encode_text_slice:
  assumes "i \<le> j"
  shows "take (length (encode_text (take j cs)) - length (encode_text (take i cs)))
      (drop (length (encode_text (take i cs))) (encode_text cs)) = encode_text (take (j - i) (drop i cs))"
proof -
  have "cs = take i cs @ take (j - i) (drop i cs) @ drop j cs"
    using assms by (metis append_take_drop_id drop_drop le_add_diff_inverse2)
  then have "encode_text cs = encode_text (take i cs) @ encode_text (take (j - i) (drop i cs)) @ encode_text (drop j cs)"
    by (metis encode_text_simps(3))
  moreover have "take j cs = take i cs @ take (j - i) (drop i cs)"
    using assms by (metis le_add_diff_inverse take_add)
  ultimately show ?thesis by simp
qed

section \<open>Properties\<close>

text \<open>
  C14. The validator accepts exactly the byte strings that encode a list of Unicode scalar values:
  overlong forms, surrogates, values above \<open>0x10ffff\<close>, stray and missing continuation bytes are all
  rejected, and nothing else is.
\<close>

theorem utf8_exact: "utf8 s \<longleftrightarrow> (\<exists>cs. list_all scalar cs \<and> s = encode_text cs)"
  using utf8_decode_text utf8_encode_text by blast

text \<open>
  C28. For a string value that holds the encoding of \<open>cs\<close>, the cached count is the number of code
  points, and \<open>utf8_offset\<close> finds for every index below it exactly the bytes of that code point, on
  the ASCII shortcut as on the scan, and nothing for any other index.
\<close>

theorem utf8_offset_exact:
  assumes "list_all scalar cs"
  shows "characters (text_data (encode_text cs)) = length cs \<and>
    (case utf8_offset (text_data (encode_text cs)) k of
       None \<Rightarrow> length cs \<le> k
     | Some (start, stop) \<Rightarrow>
         k < length cs \<and> start = length (encode_text (take k cs)) \<and>
         take (stop - start) (drop start (encode_text cs)) = utf8_encode (cs ! k))"
proof (cases "k < length cs")
  case True
  with utf8_offset_text [OF assms, of k] encode_text_slice [of k "Suc k" cs] show ?thesis
    by (simp add: take_Suc_conv_app_nth hd_drop_conv_nth)
qed (use utf8_offset_text [OF assms, of k] in simp)

theorem utf8_offset_exact_witness:
  "characters (text_data (encode_text [0x41, 0x20ac])) = 2"
  using utf8_offset_exact [of "[0x41, 0x20ac]" 1] by (simp add: scalar_def)

text \<open>An encoding is recovered from any string it starts.\<close>

lemma encode_units:
  assumes "scalar c"
  shows "map unat (utf8_encode c) =
    (if c < 0x80 then [c]
     else if c < 0x800 then [0xc0 + c div 64, 0x80 + c mod 64]
     else if c < 0x10000 then [0xe0 + c div 64 div 64, 0x80 + c div 64 mod 64, 0x80 + c mod 64]
     else [0xf0 + c div 64 div 64 div 64, 0x80 + c div 64 div 64 mod 64, 0x80 + c div 64 mod 64, 0x80 + c mod 64])"
  using assms
proof (cases rule: encode_cases)
  case (two x y)
  then have "c < 0x800" by simp
  with two show ?thesis by (simp add: split64 del: of_nat_add)
next
  case (three x y z)
  have d: "c div 64 = 64 * x + y" "c mod 64 = z" unfolding three(5) using three(3) by (simp_all only: split64)
  have e: "c div 64 div 64 = x" "c div 64 mod 64 = y" unfolding d using three(2) by (simp_all only: split64)
  have "c < 0x10000" "\<not> c < 0x800" using three by simp_all
  then show ?thesis unfolding three(6) d(2) e using three(1-3) by (simp del: of_nat_add)
next
  case (four x y z w)
  have d: "c div 64 = 64 * (64 * x + y) + z" "c mod 64 = w" unfolding four(6) using four(4) by (simp_all only: split64)
  have e: "c div 64 div 64 = 64 * x + y" "c div 64 mod 64 = z" unfolding d using four(3) by (simp_all only: split64)
  have f: "c div 64 div 64 div 64 = x" "c div 64 div 64 mod 64 = y" unfolding e using four(2) by (simp_all only: split64)
  show ?thesis unfolding four(7) d(2) e(2) f using four(1-5) by (simp del: of_nat_add)
qed simp

text \<open>Reading the scalar value back from its units.\<close>

fun units_value :: "nat list \<Rightarrow> nat" where
  "units_value [a] = a"
| "units_value [a, b] = 64 * (a - 192) + (b - 128)"
| "units_value [a, b, c] = 64 * (64 * (a - 224) + (b - 128)) + (c - 128)"
| "units_value [a, b, c, d] = 64 * (64 * (64 * (a - 240) + (b - 128)) + (c - 128)) + (d - 128)"
| "units_value _ = 0"

lemma units_value_encode: "scalar c \<Longrightarrow> units_value (map unat (utf8_encode c)) = c"
  by (simp only: encode_units units_value.simps add_diff_cancel_left' mult_div_mod_eq if_cancel split: if_split) simp

lemma utf8_encode_inject:
  assumes "scalar c" and "scalar d" and "utf8_encode c = utf8_encode d"
  shows "c = d"
  using units_value_encode [OF assms(1)] units_value_encode [OF assms(2)] assms(3) by metis

lemma utf8_encode_prefix_free:
  assumes "scalar c" and "scalar d" and "utf8_encode c @ s = utf8_encode d @ t"
  shows "c = d \<and> s = t"
proof -
  obtain b u where c: "utf8_encode c = b # u" "char_width b = length (utf8_encode c)"
    using encode_facts [OF assms(1)] by blast
  obtain b' u' where d: "utf8_encode d = b' # u'" "char_width b' = length (utf8_encode d)"
    using encode_facts [OF assms(2)] by blast
  from assms(3) c d have "length (utf8_encode c) = length (utf8_encode d)" by simp
  with assms(3) have "utf8_encode c = utf8_encode d" "s = t" by simp_all
  with utf8_encode_inject [OF assms(1,2)] show ?thesis by simp
qed

lemma encode_text_prefix:
  assumes "list_all scalar cs" and "list_all scalar ds"
  shows "(\<exists>t. encode_text ds = encode_text cs @ t) \<longleftrightarrow> (\<exists>es. ds = cs @ es)"
  using assms
proof (induction cs arbitrary: ds)
  case C: (Cons c cs)
  show ?case
  proof (cases ds)
    case Nil
    have "utf8_encode c \<noteq> []" using encode_facts [of c] C.prems(1) by auto
    with Nil show ?thesis by simp
  next
    case (Cons d es)
    with C.prems
    have sc: "scalar c" "scalar d" "list_all scalar cs" "list_all scalar es" by simp_all
    have "(\<exists>t. encode_text ds = encode_text (c # cs) @ t) \<longleftrightarrow> d = c \<and> (\<exists>t. encode_text es = encode_text cs @ t)"
      using utf8_encode_prefix_free [OF sc(2,1)] by (auto simp: Cons)
    also have "\<dots> \<longleftrightarrow> d = c \<and> (\<exists>t. es = cs @ t)" using C.IH [OF sc(3,4)] by simp
    finally show ?thesis by (auto simp: Cons)
  qed
qed simp

end
