(* ===== verification/Values.thy ===== *)
theory Values
  imports Complex_Main Utf8
begin

text \<open>
  Runtime values: \<open>src/vm/value.h\<close> and \<open>src/vm/value.c\<close>, with the decimal comparison of
  \<open>src/vm/numeric.c\<close> that equality needs.

  A \<open>value\<close> is the tree a \<open>Value *\<close> points to. Values are immutable apart from iterators and the
  HTTP objects, so sharing is not visible except through pointer equality: \<open>value_equal\<close> compares
  ranges, iterators and HTTP objects by address, so those constructors carry the address as a number.
  An iterator's mutable part lives in the machine's store under that address. Reference counts are
  not part of the tree; \<open>value_array_append\<close> here is the list the sharing of append storage has to
  implement.
\<close>

section \<open>Decimals and their order\<close>

record Decimal =
  coefficient :: PnBigInt
  exponent :: int
  negative_zero :: bool

fun extra_digits :: "nat \<Rightarrow> nat" where
  "extra_digits t = (if t \<ge> 10 then Suc (extra_digits (t div 10)) else 0)"

definition coefficient_digits :: "PnBigInt \<Rightarrow> nat" where
  "coefficient_digits number =
     (if limbs number = [] then 1
      else u64 ((length (limbs number) - 1) * 9 + 1 + extra_digits (last (limbs number))))"

definition digit_powers :: "nat list" where
  "digit_powers = [1, 10, 100, 1000, 10000, 100000, 1000000, 10000000, 100000000]"

definition coefficient_digit :: "PnBigInt \<Rightarrow> nat \<Rightarrow> nat \<Rightarrow> nat" where
  "coefficient_digit number digits position =
     (if position \<ge> digits then 0
      else let offset = digits - position - 1
           in limbs number ! (offset div 9) div digit_powers ! (offset mod 9) mod 10)"

text \<open>The comparison loop from digit \<open>i\<close> on, with \<open>n\<close> digits left.\<close>

fun compare_digits :: "PnBigInt \<Rightarrow> nat \<Rightarrow> PnBigInt \<Rightarrow> nat \<Rightarrow> nat \<Rightarrow> nat \<Rightarrow> int" where
  "compare_digits left left_digits right right_digits i 0 = 0"
| "compare_digits left left_digits right right_digits i (Suc n) =
     (let ld = coefficient_digit left left_digits i; rd = coefficient_digit right right_digits i
      in if ld \<noteq> rd then (if ld < rd then -1 else 1) * sign left
         else compare_digits left left_digits right right_digits (Suc i) n)"

definition decimal_compare :: "Decimal \<Rightarrow> Decimal \<Rightarrow> int" where
  "decimal_compare a b =
     (let left = coefficient a; right = coefficient b in
      if sign left \<noteq> sign right then (if sign left < sign right then -1 else 1)
      else if sign left = 0 then 0
      else
        let left_digits = coefficient_digits left; right_digits = coefficient_digits right;
            left_magnitude = int64 (int64 (int left_digits) + exponent a);
            right_magnitude = int64 (int64 (int right_digits) + exponent b)
        in if left_magnitude \<noteq> right_magnitude
           then (if left_magnitude < right_magnitude then -1 else 1) * sign left
           else compare_digits left left_digits right right_digits 0 (max left_digits right_digits))"

section \<open>Values\<close>

datatype ValueKind =
    V_PATH | V_DURATION | V_INSTANT | V_RAT | V_UNIT | V_NAT | V_INT | V_DEC | V_STR | V_BOOL | V_VOID
  | V_RANGE | V_ARRAY | V_RECORD | V_VARIANT | V_MAP | V_SET | V_BYTES | V_ITER | V_HTTP_STATE
  | V_HTTP_WRITER | V_HTTP_CONNECTION

datatype Value =
    VPath "byte list"
  | VDuration PnBigInt
  | VInstant PnBigInt
  | VRat PnBigInt PnBigInt
  | VUnit
  | VNat PnBigInt
  | VInt PnBigInt
  | VDec Decimal
  | VStr pn_bytes
  | VBool bool
  | VVoid
  | VRange nat PnBigInt PnBigInt
  | VArray "Value list"
  | VRecord string "string list" "Value list"
  | VVariant string "Value list"
  | VMap "Value list"
  | VSet "Value list"
  | VBytes "byte list"
  | VIter nat
  | VHttpState nat
  | VHttpWriter nat
  | VHttpConnection nat

fun kind :: "Value \<Rightarrow> ValueKind" where
  "kind (VPath _) = V_PATH"
| "kind (VDuration _) = V_DURATION"
| "kind (VInstant _) = V_INSTANT"
| "kind (VRat _ _) = V_RAT"
| "kind VUnit = V_UNIT"
| "kind (VNat _) = V_NAT"
| "kind (VInt _) = V_INT"
| "kind (VDec _) = V_DEC"
| "kind (VStr _) = V_STR"
| "kind (VBool _) = V_BOOL"
| "kind VVoid = V_VOID"
| "kind (VRange _ _ _) = V_RANGE"
| "kind (VArray _) = V_ARRAY"
| "kind (VRecord _ _ _) = V_RECORD"
| "kind (VVariant _ _) = V_VARIANT"
| "kind (VMap _) = V_MAP"
| "kind (VSet _) = V_SET"
| "kind (VBytes _) = V_BYTES"
| "kind (VIter _) = V_ITER"
| "kind (VHttpState _) = V_HTTP_STATE"
| "kind (VHttpWriter _) = V_HTTP_WRITER"
| "kind (VHttpConnection _) = V_HTTP_CONNECTION"

text \<open>
  The members of the value union the operators read behind a test of the kind. The last equation of
  each is a read the source never makes.
\<close>

fun as_integer :: "Value \<Rightarrow> PnBigInt" where
  "as_integer (VNat n) = n"
| "as_integer (VInt n) = n"
| "as_integer (VDuration n) = n"
| "as_integer (VInstant n) = n"
| "as_integer _ = pn_big_init"

fun as_decimal :: "Value \<Rightarrow> Decimal" where
  "as_decimal (VDec d) = d"
| "as_decimal _ = \<lparr>coefficient = pn_big_init, exponent = 0, negative_zero = False\<rparr>"

fun as_bytes :: "Value \<Rightarrow> byte list" where
  "as_bytes (VStr s) = data s"
| "as_bytes (VBytes s) = s"
| "as_bytes (VPath s) = s"
| "as_bytes _ = []"

fun as_boolean :: "Value \<Rightarrow> bool" where
  "as_boolean (VBool b) = b"
| "as_boolean _ = False"

fun as_sequence :: "Value \<Rightarrow> Value list" where
  "as_sequence (VArray vs) = vs"
| "as_sequence (VMap vs) = vs"
| "as_sequence (VSet vs) = vs"
| "as_sequence _ = []"

section \<open>Construction\<close>

definition value_new :: "heap \<Rightarrow> Value \<Rightarrow> Value option" where
  "value_new h v = (if h Cell then Some v else None)"

definition value_bool :: "heap \<Rightarrow> bool \<Rightarrow> Value option" where
  "value_bool h b = value_new h (VBool b)"

definition value_void :: "heap \<Rightarrow> Value option" where
  "value_void h = value_new h VVoid"

text \<open>\<open>value_big\<close> is only called for the kinds that hold one integer.\<close>

definition value_big :: "heap \<Rightarrow> (PnBigInt \<Rightarrow> Value) \<Rightarrow> PnBigInt \<Rightarrow> Value option" where
  "value_big h mk number =
     (if \<not> h Cell then None
      else case pn_big_copy h number of None \<Rightarrow> None | Some n \<Rightarrow> Some (mk n))"

definition value_size :: "heap \<Rightarrow> nat \<Rightarrow> Value option" where
  "value_size h number =
     (case pn_big_from_u64 h number of None \<Rightarrow> None | Some n \<Rightarrow> value_big h VNat n)"

definition value_data :: "heap \<Rightarrow> ValueKind \<Rightarrow> byte list \<Rightarrow> Value option" where
  "value_data h k s =
     (if \<not> h Cell \<or> \<not> h (Chars (u64 (length s + 1))) then None
      else Some (case k of V_STR \<Rightarrow> VStr (text_data s) | V_BYTES \<Rightarrow> VBytes s | _ \<Rightarrow> VPath s))"

definition value_sequence :: "heap \<Rightarrow> ValueKind \<Rightarrow> Value list \<Rightarrow> Value option" where
  "value_sequence h k items =
     (if \<not> h Cell \<or> items \<noteq> [] \<and> \<not> h (Slots (length items)) then None
      else Some (case k of V_MAP \<Rightarrow> VMap items | V_SET \<Rightarrow> VSet items | _ \<Rightarrow> VArray items))"

definition array_limit :: nat where
  "array_limit = SIZE_MAX div 8"

definition array_capacity :: "nat \<Rightarrow> nat" where
  "array_capacity count =
     (if count < 8 then 8 else if count \<le> array_limit div 2 then count * 2 else array_limit)"

definition value_array_append :: "heap \<Rightarrow> Value list \<Rightarrow> Value \<Rightarrow> Value option" where
  "value_array_append h items item =
     (if length items \<ge> array_limit then None
      else if \<not> h Cell \<or> \<not> h (Slots (array_capacity (length items))) then None
      else Some (VArray (items @ [item])))"

definition copy_text :: "heap \<Rightarrow> string \<Rightarrow> string option" where
  "copy_text h s = (if h (Chars (strlen s + 1)) then Some (cstr s) else None)"

fun copy_texts :: "heap \<Rightarrow> string list \<Rightarrow> string list option" where
  "copy_texts h [] = Some []"
| "copy_texts h (s # ss) =
     (case copy_text h s of
        None \<Rightarrow> None
      | Some t \<Rightarrow> (case copy_texts h ss of None \<Rightarrow> None | Some ts \<Rightarrow> Some (t # ts)))"

text \<open>\<open>named_value\<close> for a record (with its field names) and for a variant (without).\<close>

definition named_value :: "heap \<Rightarrow> string \<Rightarrow> string list option \<Rightarrow> Value list \<Rightarrow> Value option" where
  "named_value h name names vals =
     (if \<not> h Cell then None
      else case copy_text h name of
        None \<Rightarrow> None
      | Some name \<Rightarrow>
          if vals \<noteq> [] \<and> \<not> h (Slots (length vals)) then None
          else case names of
            None \<Rightarrow> Some (VVariant name vals)
          | Some names \<Rightarrow>
              (case copy_texts h (take (length vals) names) of
                 None \<Rightarrow> None
               | Some names \<Rightarrow> Some (VRecord name names vals)))"

definition value_index :: "Value \<Rightarrow> nat option" where
  "value_index v = (case v of VNat n \<Rightarrow> pn_big_fits_size n | _ \<Rightarrow> None)"

section \<open>Equality\<close>

fun value_equal :: "Value \<Rightarrow> Value \<Rightarrow> bool" where
  "value_equal (VNat a) v = (case v of VNat b \<Rightarrow> pn_big_compare a b = 0 | _ \<Rightarrow> False)"
| "value_equal (VInt a) v = (case v of VInt b \<Rightarrow> pn_big_compare a b = 0 | _ \<Rightarrow> False)"
| "value_equal (VDuration a) v = (case v of VDuration b \<Rightarrow> pn_big_compare a b = 0 | _ \<Rightarrow> False)"
| "value_equal (VInstant a) v = (case v of VInstant b \<Rightarrow> pn_big_compare a b = 0 | _ \<Rightarrow> False)"
| "value_equal (VRat n d) v = (case v of VRat m e \<Rightarrow> pn_big_compare n m = 0 \<and> pn_big_compare d e = 0 | _ \<Rightarrow> False)"
| "value_equal (VDec a) v = (case v of VDec b \<Rightarrow> decimal_compare a b = 0 | _ \<Rightarrow> False)"
| "value_equal (VStr a) v = (case v of VStr b \<Rightarrow> data a = data b | _ \<Rightarrow> False)"
| "value_equal (VBytes a) v = (case v of VBytes b \<Rightarrow> a = b | _ \<Rightarrow> False)"
| "value_equal (VPath a) v = (case v of VPath b \<Rightarrow> a = b | _ \<Rightarrow> False)"
| "value_equal (VBool a) v = (case v of VBool b \<Rightarrow> a = b | _ \<Rightarrow> False)"
| "value_equal VUnit v = (case v of VUnit \<Rightarrow> True | _ \<Rightarrow> False)"
| "value_equal VVoid v = (case v of VVoid \<Rightarrow> True | _ \<Rightarrow> False)"
| "value_equal (VArray xs) v = (case v of VArray ys \<Rightarrow> list_all2 value_equal xs ys | _ \<Rightarrow> False)"
| "value_equal (VSet xs) v = (case v of VSet ys \<Rightarrow> list_all2 value_equal xs ys | _ \<Rightarrow> False)"
| "value_equal (VMap xs) v = (case v of VMap ys \<Rightarrow> list_all2 value_equal xs ys | _ \<Rightarrow> False)"
| "value_equal (VRecord n _ xs) v = (case v of VRecord m _ ys \<Rightarrow> strcmp n m = 0 \<and> list_all2 value_equal xs ys | _ \<Rightarrow> False)"
| "value_equal (VVariant n xs) v = (case v of VVariant m ys \<Rightarrow> strcmp n m = 0 \<and> list_all2 value_equal xs ys | _ \<Rightarrow> False)"
| "value_equal (VRange i _ _) v = (case v of VRange j _ _ \<Rightarrow> i = j | _ \<Rightarrow> False)"
| "value_equal (VIter i) v = (case v of VIter j \<Rightarrow> i = j | _ \<Rightarrow> False)"
| "value_equal (VHttpState i) v = (case v of VHttpState j \<Rightarrow> i = j | _ \<Rightarrow> False)"
| "value_equal (VHttpWriter i) v = (case v of VHttpWriter j \<Rightarrow> i = j | _ \<Rightarrow> False)"
| "value_equal (VHttpConnection i) v = (case v of VHttpConnection j \<Rightarrow> i = j | _ \<Rightarrow> False)"

declare extra_digits.simps [simp del]

section \<open>Decimal order\<close>

definition dec_val :: "Decimal \<Rightarrow> rat" where
  "dec_val d = of_int (big_val (coefficient d)) * 10 powi exponent d"

definition dec_ok :: "Decimal \<Rightarrow> bool" where
  "dec_ok d \<longleftrightarrow> big_ok (coefficient d) \<and> int32_range (exponent d) \<and>
     length (limbs (coefficient d)) \<le> 2 ^ 58"

subsection \<open>Digits of a magnitude\<close>

lemma extra_digits_bounds: "0 < t \<Longrightarrow> 10 ^ extra_digits t \<le> t \<and> t < 10 ^ Suc (extra_digits t)"
proof (induction t rule: extra_digits.induct)
  case (1 t)
  show ?case
  proof (cases "t \<ge> 10")
    case True
    with 1 have "10 ^ extra_digits (t div 10) \<le> t div 10 \<and> t div 10 < 10 ^ Suc (extra_digits (t div 10))"
      by simp
    then have "10 * 10 ^ extra_digits (t div 10) \<le> t" "t < 10 * 10 ^ Suc (extra_digits (t div 10))"
      by (simp_all add: less_eq_div_iff_mult_less_eq div_less_iff_less_mult mult.commute)
    with True show ?thesis by (simp add: extra_digits.simps [of t])
  qed (use 1 in \<open>simp add: extra_digits.simps [of t]\<close>)
qed

lemma BASE_power: "BASE ^ n = 10 ^ (9 * n)"
  by (simp add: power_mult)

lemma extra_digits_less: "0 < t \<Longrightarrow> t < 10 ^ k \<Longrightarrow> extra_digits t < k"
  using extra_digits_bounds [of t] by (meson le_less_trans power_less_imp_less_exp one_less_numeral_iff semiring_norm(76))

lemma coefficient_digits_bounds:
  assumes "big_ok n" and "sign n \<noteq> 0" and "length (limbs n) \<le> 2 ^ 58"
  defines "d \<equiv> coefficient_digits n"
  shows "0 < d \<and> d \<le> 9 * length (limbs n) \<and> 10 ^ (d - 1) \<le> mag (limbs n) \<and> mag (limbs n) < 10 ^ d"
proof -
  let ?ls = "limbs n" and ?t = "last (limbs n)"
  have ne: "?ls \<noteq> []" "?t \<noteq> 0" "small_limbs ?ls" using assms(1,2) by (auto simp: big_ok_def canonical_def)
  then have t: "0 < ?t" "?t < 10 ^ 9" by (auto simp: small_limbs_def)
  note e = extra_digits_bounds [OF t(1)] extra_digits_less [OF t]
  let ?k = "length ?ls - 1" and ?x = "extra_digits ?t"
  have d: "d = ?k * 9 + 1 + ?x" using ne e(2) assms(3) by (simp add: d_def coefficient_digits_def)
  have m: "mag ?ls = mag (butlast ?ls) + BASE ^ ?k * ?t"
    using mag_append [of "butlast ?ls" "[?t]"] ne(1) by simp
  have "mag (butlast ?ls) < BASE ^ ?k" using mag_less [OF small_limbs_butlast [OF ne(3)]] by simp
  then have "mag ?ls < BASE ^ ?k * (?t + 1)" using m by simp
  also have "\<dots> \<le> BASE ^ ?k * 10 ^ Suc ?x" using e(1) by (intro mult_le_mono2) simp
  also have "\<dots> = 10 ^ d" by (simp add: BASE_power d power_add algebra_simps)
  finally have less: "mag ?ls < 10 ^ d" .
  have "10 ^ (d - 1) = BASE ^ ?k * 10 ^ ?x" by (simp add: BASE_power d power_add algebra_simps)
  also have "\<dots> \<le> BASE ^ ?k * ?t" using e(1) by (intro mult_le_mono2) simp
  also have "\<dots> \<le> mag ?ls" using m by simp
  finally have "10 ^ (d - 1) \<le> mag ?ls" .
  moreover have "d \<le> 9 * length ?ls" using d e(2) ne(1) by (cases ?ls) simp_all
  ultimately show ?thesis using less d by simp
qed

lemma mag_div: "small_limbs ls \<Longrightarrow> j < length ls \<Longrightarrow> mag ls div BASE ^ j mod BASE = ls ! j"
proof (induction ls arbitrary: j)
  case (Cons l ls)
  show ?case
  proof (cases j)
    case (Suc i)
    have "mag (l # ls) div BASE ^ j = mag (l # ls) div BASE div BASE ^ i" by (simp add: Suc div_mult2_eq)
    also have "mag (l # ls) div BASE = mag ls" using Cons.prems(1) by simp
    finally show ?thesis using Cons Suc by simp
  qed (use Cons.prems in simp)
qed simp

lemma digit_powers_nth: "m < 9 \<Longrightarrow> digit_powers ! m = 10 ^ m"
proof -
  assume "m < 9"
  moreover have "digit_powers = map ((^) 10) [0..<9]" by (simp add: digit_powers_def upt_rec)
  ultimately show "digit_powers ! m = 10 ^ m" by (metis add_0 length_upt minus_nat.diff_0 nth_map nth_upt)
qed

lemma mod_div_swap: "0 < b \<Longrightarrow> x mod (b * c) div b = x div b mod (c::nat)"
  by (simp add: mod_mult2_eq)

lemma coefficient_digit_eq:
  assumes "small_limbs (limbs n)" and "d \<le> 9 * length (limbs n)"
  shows "coefficient_digit n d i = (if d \<le> i then 0 else mag (limbs n) div 10 ^ (d - i - 1) mod 10)"
proof (cases "d \<le> i")
  case False
  let ?k = "d - Suc i"
  let ?j = "?k div 9" and ?m = "?k mod 9" and ?M = "mag (limbs n)"
  have "?j < length (limbs n)" using assms(2) False by (auto simp: div_less_iff_less_mult)
  then have l: "limbs n ! ?j = ?M div BASE ^ ?j mod BASE" using mag_div [OF assms(1)] by simp
  have "(10::nat) ^ ?k = BASE ^ ?j * 10 ^ ?m" by (simp add: BASE_power flip: power_add)
  then have "?M div 10 ^ ?k = ?M div BASE ^ ?j div 10 ^ ?m" by (simp add: div_mult2_eq)
  moreover have "x mod BASE div 10 ^ ?m mod 10 = x div 10 ^ ?m mod 10" for x :: nat
  proof -
    have "(10::nat) ^ 9 = 10 ^ ?m * 10 ^ (9 - ?m)" by (simp flip: power_add)
    then have B: "BASE = 10 ^ ?m * 10 ^ (9 - ?m)" by simp
    then have "x mod BASE div 10 ^ ?m = x div 10 ^ ?m mod 10 ^ (9 - ?m)"
      using mod_div_swap [of "10 ^ ?m" x "10 ^ (9 - ?m)"] by (simp only:) simp
    moreover have "(10::nat) dvd 10 ^ (9 - ?m)" by (simp add: dvd_power)
    ultimately show ?thesis by (simp add: mod_mod_cancel)
  qed
  ultimately show ?thesis
    using False digit_powers_nth [of ?m] by (simp add: coefficient_digit_def Let_def l)
qed (simp add: coefficient_digit_def)

lemma scaled_digit:
  assumes "small_limbs (limbs n)" and "d \<le> 9 * length (limbs n)" and "d \<le> c" and "i < c"
  shows "coefficient_digit n d i = mag (limbs n) * 10 ^ (c - d) div 10 ^ (c - i - 1) mod 10"
proof (cases "d \<le> i")
  case True
  then have "c - d = (c - i - 1) + Suc (i - d)" using assms(3,4) by simp
  then have "mag (limbs n) * 10 ^ (c - d) = mag (limbs n) * 10 ^ Suc (i - d) * 10 ^ (c - i - 1)"
    by (simp only: power_add ac_simps)
  then have "mag (limbs n) * 10 ^ (c - d) div 10 ^ (c - i - 1) = mag (limbs n) * 10 ^ Suc (i - d)"
    by (simp only:) simp
  then show ?thesis using True by (simp add: coefficient_digit_eq [OF assms(1,2)])
next
  case False
  then have "c - i - 1 = (c - d) + (d - i - 1)" using assms(3) by simp
  then have "mag (limbs n) * 10 ^ (c - d) div 10 ^ (c - i - 1) =
      mag (limbs n) * 10 ^ (c - d) div 10 ^ (c - d) div 10 ^ (d - i - 1)"
    by (simp only: power_add div_mult2_eq)
  then show ?thesis using False by (simp add: coefficient_digit_eq [OF assms(1,2)])
qed

text \<open>Comparing the digits of two numbers from the top is comparing the numbers.\<close>

lemma compare_digits_sgn:
  assumes "\<And>j. j < c \<Longrightarrow> coefficient_digit l ld j = A div 10 ^ (c - j - 1) mod 10"
    and "\<And>j. j < c \<Longrightarrow> coefficient_digit r rd j = B div 10 ^ (c - j - 1) mod 10"
    and "n \<le> c" and "A div 10 ^ n = B div 10 ^ n"
  shows "compare_digits l ld r rd (c - n) n = sgn (int A - int B) * sign l"
  using assms(3,4)
proof (induction n)
  case (Suc n)
  let ?a = "A div 10 ^ n" and ?b = "B div 10 ^ n"
  have i: "c - Suc n < c" "c - (c - Suc n) - 1 = n" "Suc (c - Suc n) = c - n" using Suc.prems(1) by simp_all
  have digits: "coefficient_digit l ld (c - Suc n) = ?a mod 10" "coefficient_digit r rd (c - Suc n) = ?b mod 10"
    using assms(1,2) [OF i(1)] by (simp_all only: i(2))
  have high: "?a div 10 = ?b div 10" using Suc.prems(2) by (simp only: power_Suc2 div_mult2_eq)
  show ?case
  proof (cases "?a mod 10 = ?b mod 10")
    case True
    with high have "?a = ?b" by (metis mod_mult_div_eq)
    with Suc True show ?thesis by (simp add: digits i(3) Let_def)
  next
    case False
    have "?a mod 10 < ?b mod 10 \<longleftrightarrow> ?a < ?b" using high by (metis add_less_cancel_left mod_mult_div_eq add.commute)
    moreover have "?a \<noteq> ?b" using False by metis
    ultimately have "sgn (int A - int B) = (if ?a mod 10 < ?b mod 10 then -1 else 1)"
      using div_le_mono [of A B "10 ^ n"] div_le_mono [of B A "10 ^ n"]
      by (auto simp: sgn_if)
    with False show ?thesis by (simp add: digits Let_def)
  qed
qed simp

subsection \<open>The comparison is the order of the rational values\<close>

definition dec_mag :: "Decimal \<Rightarrow> rat" where
  "dec_mag d = of_nat (mag (limbs (coefficient d))) * 10 powi exponent d"

lemma dec_val_eq: "dec_val d = of_int (sign (coefficient d)) * dec_mag d"
  by (simp add: dec_val_def dec_mag_def big_val_def)

lemma dec_mag_nonneg: "0 \<le> dec_mag d"
  by (simp add: dec_mag_def)

lemma dec_mag_bounds:
  assumes "dec_ok d" and "sign (coefficient d) \<noteq> 0"
  shows "10 powi (int (coefficient_digits (coefficient d)) + exponent d - 1) \<le> dec_mag d \<and>
    dec_mag d < 10 powi (int (coefficient_digits (coefficient d)) + exponent d)"
proof -
  let ?n = "coefficient d"
  let ?k = "coefficient_digits ?n"
  from coefficient_digits_bounds [of ?n] assms
  have k: "0 < ?k" "10 ^ (?k - 1) \<le> mag (limbs ?n)" "mag (limbs ?n) < 10 ^ ?k"
    by (simp_all add: dec_ok_def)
  have "rat_of_nat (10 ^ (?k - 1)) * 10 powi exponent d \<le> dec_mag d"
    unfolding dec_mag_def using k(2) by (intro mult_right_mono) (simp_all only: of_nat_le_iff, simp)
  moreover have "dec_mag d < rat_of_nat (10 ^ ?k) * 10 powi exponent d"
    unfolding dec_mag_def using k(3) by (intro mult_strict_right_mono) (simp_all only: of_nat_less_iff, simp)
  moreover have "rat_of_nat (10 ^ j) * 10 powi e = 10 powi (int j + e)" for j e
    by (simp add: power_int_add power_int_of_nat)
  moreover have "int (?k - 1) + exponent d = int ?k + exponent d - 1" using k(1) by simp
  ultimately show ?thesis by metis
qed

lemma dec_mag_scaled:
  assumes "int k + e = m" and "k \<le> c"
  shows "rat_of_nat M * 10 powi e = rat_of_nat (M * 10 ^ (c - k)) * 10 powi (m - int c)"
proof -
  have "rat_of_nat (10 ^ (c - k)) * 10 powi (m - int c) = 10 powi (int (c - k) + (m - int c))"
    by (simp add: power_int_add power_int_of_nat)
  also have "int (c - k) + (m - int c) = e" using assms by simp
  finally show ?thesis by (simp add: mult.assoc)
qed

lemma three_way_scaled: "0 < (p::rat) \<Longrightarrow> three_way (of_nat A * p) (of_nat B * p) = sgn (int A - int B)"
  by (auto simp: three_way_def sgn_if)

lemma decimal_compare_order:
  assumes a: "dec_ok a" and b: "dec_ok b"
  shows "decimal_compare a b = three_way (dec_val a) (dec_val b)"
proof -
  let ?l = "coefficient a" and ?r = "coefficient b"
  let ?s = "sign ?l"
  have s: "?s \<in> {-1, 0, 1}" "sign ?r \<in> {-1, 0, 1}" using a b by (auto simp: dec_ok_def big_ok_def)
  have pos: "sign (coefficient d) \<noteq> 0 \<Longrightarrow> 0 < dec_mag d" if "dec_ok d" for d
    using dec_mag_bounds [OF that] by (meson less_le_trans zero_less_numeral zero_less_power_int)
  show ?thesis
  proof (cases "?s = sign ?r \<and> ?s \<noteq> 0")
    case False
    then show ?thesis
      using s pos [OF a] pos [OF b]
      by (auto simp: decimal_compare_def Let_def dec_val_eq three_way_def)
  next
    case True
    define ld where "ld = coefficient_digits ?l"
    define rd where "rd = coefficient_digits ?r"
    define lm where "lm = int ld + exponent a"
    define rm where "rm = int rd + exponent b"
    note lb = dec_mag_bounds [OF a, folded ld_def, folded lm_def]
      and rb = dec_mag_bounds [OF b, folded rd_def, folded rm_def]
    from coefficient_digits_bounds [of ?l] coefficient_digits_bounds [of ?r] a b True
    have d: "ld \<le> 9 * length (limbs ?l)" "rd \<le> 9 * length (limbs ?r)"
      by (simp_all add: dec_ok_def ld_def rd_def)
    from a b d have small: "int ld < 2 ^ 62" "int rd < 2 ^ 62" by (simp_all add: dec_ok_def)
    with a b have i64: "int64 (int64 (int ld) + exponent a) = lm" "int64 (int64 (int rd) + exponent b) = rm"
      by (simp_all add: dec_ok_def int32_range_def lm_def rm_def)
    have split: "three_way (dec_val a) (dec_val b) = three_way (dec_mag a) (dec_mag b) * ?s"
      using s True by (auto simp: dec_val_eq three_way_def)
    show ?thesis
    proof (cases "lm = rm")
      case False
      have less: "dec_mag x < dec_mag y"
        if "dec_mag x < 10 powi i" "10 powi (j - 1) \<le> dec_mag y" "i < j" for x y i j
        using that power_int_increasing [of i "j - 1" "10::rat"] by (meson le_less_trans less_le_trans zle_diff1_eq order.strict_trans1 one_le_numeral)
      have "three_way (dec_mag a) (dec_mag b) = (if lm < rm then -1 else 1)"
        using False True lb rb less [of a lm rm b] less [of b rm lm a]
        by (cases lm rm rule: linorder_cases) (auto simp: three_way_def)
      with False True show ?thesis
        unfolding split by (simp add: decimal_compare_def Let_def i64 flip: ld_def rd_def)
    next
      case eq: True
      define c where "c = max ld rd"
      let ?A = "mag (limbs ?l) * 10 ^ (c - ld)" and ?B = "mag (limbs ?r) * 10 ^ (c - rd)"
      have le: "ld \<le> c" "rd \<le> c" by (simp_all add: c_def)
      have "dec_mag a = rat_of_nat ?A * 10 powi (lm - int c)"
        unfolding dec_mag_def by (rule dec_mag_scaled) (simp_all add: lm_def le)
      moreover have "dec_mag b = rat_of_nat ?B * 10 powi (lm - int c)"
        unfolding dec_mag_def by (rule dec_mag_scaled) (simp_all add: eq rm_def le)
      ultimately have cmp: "three_way (dec_mag a) (dec_mag b) = sgn (int ?A - int ?B)"
        using three_way_scaled [of "10 powi (lm - int c)" ?A ?B] by simp
      have bound: "M * 10 ^ (c - k) < 10 ^ c" if "M < 10 ^ k" "k \<le> c" for M k :: nat
        using that by (metis le_add_diff_inverse mult_less_cancel2 power_add zero_less_numeral zero_less_power)
      then have "?A div 10 ^ c = 0" "?B div 10 ^ c = 0"
        using coefficient_digits_bounds [of ?l] coefficient_digits_bounds [of ?r] a b True le
        by (simp_all add: dec_ok_def ld_def rd_def)
      have "compare_digits ?l ld ?r rd (c - c) c = sgn (int ?A - int ?B) * ?s"
        using scaled_digit [OF _ d(1) le(1)] scaled_digit [OF _ d(2) le(2)] a b \<open>?A div 10 ^ c = 0\<close> \<open>?B div 10 ^ c = 0\<close>
        by (intro compare_digits_sgn) (simp_all add: dec_ok_def big_ok_small)
      with eq True show ?thesis
        unfolding split cmp by (simp add: decimal_compare_def Let_def i64 c_def flip: ld_def rd_def)
    qed
  qed
qed

section \<open>Well-formed values\<close>

text \<open>
  The invariant of the values the machine builds: canonical integers, naturals that are not negative,
  reduced rationals with a positive denominator, valid text with correct caches, one name per field,
  map storage in key and value pairs.
\<close>

definition rat_ok :: "PnBigInt \<Rightarrow> PnBigInt \<Rightarrow> bool" where
  "rat_ok n d \<longleftrightarrow> big_ok n \<and> big_ok d \<and> sign d = 1 \<and> coprime (big_val n) (big_val d)"

definition text_ok :: "pn_bytes \<Rightarrow> bool" where
  "text_ok s \<longleftrightarrow> utf8 (data s) \<and> s = text_data (data s)"

fun value_ok :: "Value \<Rightarrow> bool" where
  "value_ok (VPath _) = True"
| "value_ok (VDuration n) = (big_ok n \<and> 0 \<le> sign n)"
| "value_ok (VInstant n) = big_ok n"
| "value_ok (VRat n d) = rat_ok n d"
| "value_ok VUnit = True"
| "value_ok (VNat n) = (big_ok n \<and> 0 \<le> sign n)"
| "value_ok (VInt n) = big_ok n"
| "value_ok (VDec d) = (big_ok (coefficient d) \<and> int32_range (exponent d))"
| "value_ok (VStr s) = text_ok s"
| "value_ok (VBool _) = True"
| "value_ok VVoid = True"
| "value_ok (VRange _ a b) = (big_ok a \<and> big_ok b)"
| "value_ok (VArray vs) = list_all value_ok vs"
| "value_ok (VRecord _ ns vs) = (length ns = length vs \<and> list_all value_ok vs)"
| "value_ok (VVariant _ vs) = list_all value_ok vs"
| "value_ok (VMap vs) = (even (length vs) \<and> list_all value_ok vs)"
| "value_ok (VSet vs) = list_all value_ok vs"
| "value_ok (VBytes _) = True"
| "value_ok (VIter _) = True"
| "value_ok (VHttpState _) = True"
| "value_ok (VHttpWriter _) = True"
| "value_ok (VHttpConnection _) = True"

fun decimals :: "Value \<Rightarrow> Decimal list" where
  "decimals (VDec d) = [d]"
| "decimals (VArray vs) = concat (map decimals vs)"
| "decimals (VRecord _ _ vs) = concat (map decimals vs)"
| "decimals (VVariant _ vs) = concat (map decimals vs)"
| "decimals (VMap vs) = concat (map decimals vs)"
| "decimals (VSet vs) = concat (map decimals vs)"
| "decimals _ = []"

text \<open>
  Decimal coefficients of at most \<open>2 ^ 58\<close> limbs (\<open>2 ^ 60\<close> bytes), for which the digit count of
  \<open>decimal_compare\<close> fits a \<open>size_t\<close>.
\<close>

definition comparable_value :: "Value \<Rightarrow> bool" where
  "comparable_value v \<longleftrightarrow>
     value_ok v \<and> (\<forall>d \<in> set (decimals v). length (limbs (coefficient d)) \<le> 2 ^ 58)"

lemma comparable_simps [simp]:
  "comparable_value (VArray vs) \<longleftrightarrow> (\<forall>v \<in> set vs. comparable_value v)"
  "comparable_value (VSet vs) \<longleftrightarrow> (\<forall>v \<in> set vs. comparable_value v)"
  "comparable_value (VVariant name vs) \<longleftrightarrow> (\<forall>v \<in> set vs. comparable_value v)"
  "comparable_value (VMap vs) \<longleftrightarrow> even (length vs) \<and> (\<forall>v \<in> set vs. comparable_value v)"
  "comparable_value (VRecord name ns vs) \<longleftrightarrow> length ns = length vs \<and> (\<forall>v \<in> set vs. comparable_value v)"
  "comparable_value (VDec d) \<longleftrightarrow> dec_ok d"
  "comparable_value (VNat n) \<longleftrightarrow> big_ok n \<and> 0 \<le> sign n"
  "comparable_value (VInt n) \<longleftrightarrow> big_ok n"
  "comparable_value (VDuration n) \<longleftrightarrow> big_ok n \<and> 0 \<le> sign n"
  "comparable_value (VInstant n) \<longleftrightarrow> big_ok n"
  "comparable_value (VRat n e) \<longleftrightarrow> rat_ok n e"
  by (auto simp: comparable_value_def list_all_iff dec_ok_def)

lemma compare_0_iff: "big_ok a \<Longrightarrow> big_ok b \<Longrightarrow> pn_big_compare a b = 0 \<longleftrightarrow> a = b"
  using big_val_inj [of a b] by (auto simp: compare_sgn sgn_if)

lemma decimal_compare_0_iff:
  "dec_ok a \<Longrightarrow> dec_ok b \<Longrightarrow> decimal_compare a b = 0 \<longleftrightarrow> dec_val a = dec_val b"
  by (simp add: decimal_compare_order)

lemmas equal_simps = compare_0_iff decimal_compare_0_iff strcmp_0_iff rat_ok_def

lemma value_equal_refl: "comparable_value v \<Longrightarrow> value_equal v v"
  by (induction v) (auto simp: equal_simps list_all2_same)

lemma values_equal_sym:
  assumes "\<And>x y. x \<in> set xs \<Longrightarrow> y \<in> set ys \<Longrightarrow> value_equal x y \<Longrightarrow> value_equal y x"
    and "list_all2 value_equal xs ys"
  shows "list_all2 value_equal ys xs"
  using assms by (auto simp: list_all2_conv_all_nth)

lemma value_equal_sym:
  "comparable_value v \<Longrightarrow> comparable_value w \<Longrightarrow> value_equal v w \<Longrightarrow> value_equal w v"
proof (induction v arbitrary: w)
  case (VArray xs) then show ?case by (auto split: Value.splits intro: values_equal_sym)
next
  case (VSet xs) then show ?case by (auto split: Value.splits intro: values_equal_sym)
next
  case (VMap xs) then show ?case by (auto split: Value.splits intro: values_equal_sym)
next
  case (VRecord n ns xs) then show ?case
    by (auto simp: equal_simps split: Value.splits intro: values_equal_sym)
next
  case (VVariant n xs) then show ?case
    by (auto simp: equal_simps split: Value.splits intro: values_equal_sym)
qed (auto simp: equal_simps split: Value.splits)

lemma values_equal_trans:
  assumes "list_all2 value_equal xs ys" and "list_all2 value_equal ys zs"
    and "\<And>x y z. x \<in> set xs \<Longrightarrow> y \<in> set ys \<Longrightarrow> z \<in> set zs \<Longrightarrow>
      value_equal x y \<Longrightarrow> value_equal y z \<Longrightarrow> value_equal x z"
  shows "list_all2 value_equal xs zs"
  using assms by (auto simp: list_all2_conv_all_nth) (metis nth_mem)

lemma value_equal_trans:
  "comparable_value u \<Longrightarrow> comparable_value v \<Longrightarrow> comparable_value w \<Longrightarrow>
     value_equal u v \<Longrightarrow> value_equal v w \<Longrightarrow> value_equal u w"
proof (induction u arbitrary: v w)
  case (VArray xs) then show ?case by (auto split: Value.splits) (erule (1) values_equal_trans, blast)
next
  case (VSet xs) then show ?case by (auto split: Value.splits) (erule (1) values_equal_trans, blast)
next
  case (VMap xs) then show ?case by (auto split: Value.splits) (erule (1) values_equal_trans, blast)
next
  case (VRecord n ns xs) then show ?case
    by (auto simp: equal_simps split: Value.splits) (erule (1) values_equal_trans, blast)
next
  case (VVariant n xs) then show ?case
    by (auto simp: equal_simps split: Value.splits) (erule (1) values_equal_trans, blast)
qed (auto simp: equal_simps split: Value.splits)

section \<open>Properties\<close>

text \<open>
  C30. Decimal comparison, which allocates nothing and never aligns scales, is the order of the
  rational numbers \<open>coefficient * 10 ^ exponent\<close>; negative zero compares as zero.
\<close>

theorem decimal_compare_exact:
  assumes "dec_ok a" and "dec_ok b"
  shows "decimal_compare a b = three_way (dec_val a) (dec_val b)"
  using assms by (rule decimal_compare_order)

theorem decimal_compare_exact_witness:
  "decimal_compare
     \<lparr>coefficient = \<lparr>sign = 1, limbs = [15]\<rparr>, exponent = -1, negative_zero = False\<rparr>
     \<lparr>coefficient = \<lparr>sign = 1, limbs = [150]\<rparr>, exponent = -2, negative_zero = False\<rparr> = 0"
  by (subst decimal_compare_exact)
    (simp_all add: dec_ok_def big_ok_def canonical_def int32_range_def dec_val_def big_val_def
      power_int_minus)

text \<open>
  C29. Language equality is an equivalence relation on well-formed values of every kind, nested
  containers included.
\<close>

theorem value_equal_equivalence:
  assumes "comparable_value u" and "comparable_value v" and "comparable_value w"
  shows "value_equal u u \<and> (value_equal u v \<longleftrightarrow> value_equal v u) \<and>
    (value_equal u v \<and> value_equal v w \<longrightarrow> value_equal u w)"
  using assms value_equal_refl value_equal_sym value_equal_trans by blast

theorem value_equal_equivalence_witness:
  "value_equal (VArray [VNat pn_big_init, VUnit]) (VArray [VNat pn_big_init, VUnit])"
proof -
  have "comparable_value (VArray [VNat pn_big_init, VUnit])"
    by (simp add: pn_big_init_def big_ok_def canonical_def) (simp add: comparable_value_def)
  then show ?thesis using value_equal_equivalence by blast
qed

end
