(* ===== verification/Program.thy ===== *)
theory Program
  imports Values
begin

text \<open>
  Decoded programs, \<open>src/vm/program.h\<close> and \<open>src/vm/program.c\<close>. The C structures \<open>Constant\<close> and
  \<open>Instruction\<close> are flat records with a tag and the operands of every tag; the model has one
  constructor per tag with the operands that tag uses. Counts that accompany an array are the length
  of the list. Function lookup returns the index of the function in the table.
\<close>

section \<open>Program data\<close>

datatype Constant =
    K_NAT PnBigInt
  | K_INT PnBigInt
  | K_DEC bool PnBigInt int
  | K_STR string
  | K_BOOL bool
  | K_VOID

datatype Instruction =
    OP_CONST Constant
  | OP_LOAD string
  | OP_STORE string
  | OP_POP
  | OP_UNARY nat
  | OP_BINARY nat
  | OP_MAKE_RANGE
  | OP_MAKE_ARRAY nat
  | OP_INDEX_GET
  | OP_INTERPOLATE "string list"
  | OP_ITER_INIT string
  | OP_ITER_NEXT string string nat
  | OP_MAKE_RECORD string "string list"
  | OP_FIELD_GET string
  | OP_MAKE_VARIANT string string nat
  | OP_MATCH_VARIANT string nat
  | OP_MATCH_FAIL
  | OP_CALL string nat
  | OP_JUMP_FALSE nat
  | OP_JUMP nat
  | OP_RETURN
  | OP_CALL_VALUE nat
  | OP_AWAIT_CALL string nat
  | OP_AWAIT_VALUE nat

record Function =
  fname :: string
  pure :: bool
  is_async :: bool
  local_effect :: bool
  params :: "string list"
  ins :: "Instruction list"

record Program =
  "functions" :: "Function list"
  verified_function_order :: bool

section \<open>Lookup by name\<close>

function binary_search :: "Function list \<Rightarrow> string \<Rightarrow> nat \<Rightarrow> nat \<Rightarrow> nat option" where
  "binary_search fs name low high =
     (if low < high then
        let middle = low + (high - low) div 2;
            order = strcmp name (fname (fs ! middle)) in
        if order = 0 then Some middle
        else if order < 0 then binary_search fs name low middle
        else binary_search fs name (middle + 1) high
      else None)"
  by pat_completeness auto
termination
  by (relation "measure (\<lambda>(fs, name, low, high). high - low)") auto

fun linear_search :: "Function list \<Rightarrow> string \<Rightarrow> nat \<Rightarrow> nat option" where
  "linear_search [] name i = None"
| "linear_search (f # fs) name i =
     (if strcmp name (fname f) = 0 then Some i else linear_search fs name (Suc i))"

definition program_function :: "Program \<Rightarrow> string \<Rightarrow> nat option" where
  "program_function p name =
     (if verified_function_order p then binary_search (functions p) name 0 (length (functions p))
      else linear_search (functions p) name 0)"

declare binary_search.simps [simp del]

section \<open>The lookup contract\<close>

text \<open>
  What the verifier and the executor rely on: a lookup finds an entry of that name, and fails only
  when there is none. The client facts are proved once for any table.
\<close>

locale name_table =
  fixes entries :: "'t \<Rightarrow> string list" and good :: "'t \<Rightarrow> bool" and find :: "'t \<Rightarrow> string \<Rightarrow> nat option"
  assumes found: "good t \<Longrightarrow> find t n = Some i \<Longrightarrow> i < length (entries t) \<and> cstr (entries t ! i) = cstr n"
    and missing: "good t \<Longrightarrow> find t n = None \<Longrightarrow> i < length (entries t) \<Longrightarrow> cstr (entries t ! i) \<noteq> cstr n"
begin

lemma find_iff:
  "good t \<Longrightarrow> (\<exists>i. find t n = Some i) \<longleftrightarrow> (\<exists>m \<in> set (entries t). cstr m = cstr n)"
  using found missing by (metis in_set_conv_nth option.exhaust)

lemma find_unique:
  assumes "good t" and "distinct (map cstr (entries t))"
  shows "find t n = Some i \<longleftrightarrow> i < length (entries t) \<and> cstr (entries t ! i) = cstr n"
proof
  assume i: "i < length (entries t) \<and> cstr (entries t ! i) = cstr n"
  then obtain j where j: "find t n = Some j" using missing [OF assms(1)] by (cases "find t n") auto
  from found [OF assms(1) j] i assms(2) have "i = j"
    by (metis length_map nth_eq_iff_index_eq nth_map)
  with j show "find t n = Some i" by simp
qed (use found [OF assms(1)] in blast)

end

section \<open>Correctness of the lookup\<close>

definition function_names :: "Program \<Rightarrow> string list" where
  "function_names p = map fname (functions p)"

definition ordered_names :: "string list \<Rightarrow> bool" where
  "ordered_names ns \<longleftrightarrow> sorted_wrt (\<lambda>a b. strcmp a b < 0) ns"

text \<open>A table marked as verified is in strictly ascending order.\<close>

definition order_honest :: "Program \<Rightarrow> bool" where
  "order_honest p \<longleftrightarrow> (verified_function_order p \<longrightarrow> ordered_names (function_names p))"

lemma linear_search_Some:
  "linear_search fs n k = Some i \<Longrightarrow> k \<le> i \<and> i - k < length fs \<and> cstr (fname (fs ! (i - k))) = cstr n"
proof (induction fs arbitrary: k)
  case (Cons f fs)
  show ?case
  proof (cases "strcmp n (fname f) = 0")
    case False
    with Cons have "Suc k \<le> i \<and> i - Suc k < length fs \<and> cstr (fname (fs ! (i - Suc k))) = cstr n" by simp
    moreover from this have "i - k = Suc (i - Suc k)" using Suc_diff_le [of "Suc k" i] by simp
    ultimately show ?thesis by simp
  qed (use Cons.prems in \<open>simp add: strcmp_0_iff\<close>)
qed simp

lemma linear_search_None:
  "linear_search fs n k = None \<Longrightarrow> i < length fs \<Longrightarrow> cstr (fname (fs ! i)) \<noteq> cstr n"
  by (induction fs arbitrary: i k) (auto simp: strcmp_0_iff nth_Cons split: if_splits nat.splits)

lemma binary_search_Some:
  "binary_search fs n low high = Some i \<Longrightarrow> high \<le> length fs \<Longrightarrow> i < length fs \<and> cstr (fname (fs ! i)) = cstr n"
proof (induction fs n low high rule: binary_search.induct)
  case (1 fs n low high)
  let ?m = "low + (high - low) div 2"
  show ?case
  proof (cases "low < high")
    case True
    then have "?m < high" by simp
    with 1 True show ?thesis
      by (auto simp: binary_search.simps [of fs n low high] Let_def strcmp_0_iff split: if_splits)
  qed (use "1.prems" in \<open>simp add: binary_search.simps\<close>)
qed

lemma binary_search_None:
  assumes "sorted_wrt (\<lambda>f g. strcmp (fname f) (fname g) < 0) fs"
  shows "binary_search fs n low high = None \<Longrightarrow> high \<le> length fs \<Longrightarrow> low \<le> i \<Longrightarrow> i < high \<Longrightarrow>
    cstr (fname (fs ! i)) \<noteq> cstr n"
  using assms
proof (induction fs n low high rule: binary_search.induct)
  case (1 fs n low high)
  let ?m = "low + (high - low) div 2"
  have low: "low < high" using "1.prems" by simp
  then have m: "?m < length fs" "low \<le> ?m" "?m < high" using "1.prems"(2) by simp_all
  have order: "cstr (fname (fs ! j)) < cstr (fname (fs ! k))" if "j < k" "k < length fs" for j k
    using "1.prems"(5) that by (simp add: sorted_wrt_iff_nth_less strcmp_less_iff)
  let ?o = "strcmp n (fname (fs ! ?m))"
  from "1.prems"(1) low have nz: "?o \<noteq> 0"
    by (auto simp: binary_search.simps [of fs n low high] Let_def)
  show ?case
  proof (cases "?o < 0")
    case True
    with "1.prems"(1) low nz have rest: "binary_search fs n low ?m = None"
      by (simp add: binary_search.simps [of fs n low high] Let_def)
    show ?thesis
    proof (cases "i < ?m")
      case True
      with "1.IH"(1) [OF low refl refl nz \<open>?o < 0\<close> rest] "1.prems" m show ?thesis by simp
    next
      case False
      then have "cstr (fname (fs ! ?m)) \<le> cstr (fname (fs ! i))"
        using order [of ?m i] "1.prems"(2,4) by (cases "i = ?m") auto
      with \<open>?o < 0\<close> show ?thesis by (auto simp: strcmp_less_iff)
    qed
  next
    case False
    with "1.prems"(1) low nz have rest: "binary_search fs n (?m + 1) high = None"
      by (simp add: binary_search.simps [of fs n low high] Let_def)
    show ?thesis
    proof (cases "?m < i")
      case True
      with "1.IH"(2) [OF low refl refl nz False rest] "1.prems" m show ?thesis by simp
    next
      case le: False
      then have "cstr (fname (fs ! i)) \<le> cstr (fname (fs ! ?m))"
        using order [of i ?m] m(1) by (cases "i = ?m") auto
      moreover have "cstr (fname (fs ! ?m)) < cstr n"
        using False nz by (auto simp: strcmp_def split: if_splits)
      ultimately show ?thesis by auto
    qed
  qed
qed

interpretation fns: name_table function_names order_honest program_function
proof
  fix p n i
  assume p: "order_honest p" and find: "program_function p n = Some i"
  then show "i < length (function_names p) \<and> cstr (function_names p ! i) = cstr n"
    using binary_search_Some [of "functions p" n 0 "length (functions p)" i]
      linear_search_Some [of "functions p" n 0 i]
    by (auto simp: program_function_def function_names_def split: if_splits)
next
  fix p n i
  assume "order_honest p" and "program_function p n = None" and "i < length (function_names p)"
  then show "cstr (function_names p ! i) \<noteq> cstr n"
    using binary_search_None [of "functions p" n 0 "length (functions p)" i]
      linear_search_None [of "functions p" n 0 i]
    by (auto simp: program_function_def function_names_def order_honest_def ordered_names_def
        sorted_wrt_map split: if_splits)
qed

section \<open>Properties\<close>

text \<open>
  C34. On a table whose names are in strictly ascending order, the binary search that verified programs
  use and the linear search that unverified ones use find the same function.
\<close>

theorem lookup_strategies_agree:
  assumes "ordered_names (function_names p)"
  shows "program_function (p\<lparr>verified_function_order := True\<rparr>) name =
    program_function (p\<lparr>verified_function_order := False\<rparr>) name"
proof -
  let ?t = "p\<lparr>verified_function_order := True\<rparr>" and ?f = "p\<lparr>verified_function_order := False\<rparr>"
  have honest: "order_honest ?t" "order_honest ?f" and names: "function_names ?t = function_names p"
    "function_names ?f = function_names p"
    using assms by (simp_all add: order_honest_def function_names_def)
  have "distinct (map cstr (function_names p))"
    using assms by (auto simp: ordered_names_def distinct_conv_nth sorted_wrt_iff_nth_less strcmp_less_iff)
      (metis linorder_neqE_nat less_irrefl)
  then have "program_function ?t name = Some i \<longleftrightarrow> program_function ?f name = Some i" for i
    using fns.find_unique [OF honest(1)] fns.find_unique [OF honest(2)] by (simp add: names)
  then show ?thesis by (metis option.exhaust)
qed

definition sample_function :: "string \<Rightarrow> Instruction list \<Rightarrow> Function" where
  "sample_function n is = \<lparr>fname = n, pure = False, is_async = False, local_effect = False, params = [], ins = is\<rparr>"

theorem lookup_strategies_agree_witness:
  "program_function \<lparr>functions = [sample_function ''a'' [], sample_function ''main'' []],
     verified_function_order = True\<rparr> ''main'' = Some 1"
  using lookup_strategies_agree
    [of "\<lparr>functions = [sample_function ''a'' [], sample_function ''main'' []], verified_function_order = True\<rparr>" "''main''"]
  by (simp add: ordered_names_def function_names_def sample_function_def program_function_def strcmp_def
      cstr_def less_char_def)

end
