(* ===== verification/Decode.thy ===== *)
theory Decode
  imports Program
begin

text \<open>
  The bounded bytecode decoder, \<open>src/vm/decode.c\<close>, and the artifact encoding that
  \<open>src/bytecode/FORMAT.md\<close> specifies, as a function \<open>encode\<close> on programs.

  A reading function takes the \<open>Reader\<close> and returns its result, \<open>None\<close> where the C function returns
  false or NULL, with the advanced reader; the first diagnostic stays. A name or text is the byte
  string as read, embedded NUL bytes included.
\<close>

unbundle bit_operations_syntax

section \<open>The reader\<close>

record Reader =
  rdata :: "byte list"
  pos :: nat
  rerror :: "string option"

type_synonym 'a reader = "Reader \<Rightarrow> 'a option \<times> Reader"

definition MAX_FUNCTIONS :: nat where "MAX_FUNCTIONS = 4096"
definition MAX_INSTRUCTIONS :: nat where "MAX_INSTRUCTIONS = 4000000"
definition MAX_NAME :: nat where "MAX_NAME = 1024"
definition MAX_TEXT :: nat where "MAX_TEXT = 1024 * 1024"
definition MAX_DIGITS :: nat where "MAX_DIGITS = 4096"
definition MAX_ARTIFACT :: nat where "MAX_ARTIFACT = 16 * 1024 * 1024"

definition rd_fail :: "Reader \<Rightarrow> string \<Rightarrow> Reader" where
  "rd_fail r message = (if rerror r = None then r\<lparr>rerror := Some message\<rparr> else r)"

text \<open>A failing step, a result, and sequencing that stops at the first failing step.\<close>

definition rfail :: "string \<Rightarrow> 'a reader" where
  "rfail message r = (None, rd_fail r message)"

definition rret :: "'a \<Rightarrow> 'a reader" where
  "rret x r = (Some x, r)"

definition rbind :: "'a reader \<Rightarrow> ('a \<Rightarrow> 'b reader) \<Rightarrow> 'b reader" where
  "rbind m f r = (case m r of (None, r') \<Rightarrow> (None, r') | (Some x, r') \<Rightarrow> f x r')"

definition rd_take :: "nat \<Rightarrow> byte list reader" where
  "rd_take n r =
     (if n > length (rdata r) - pos r then rfail ''truncated data'' r
      else (Some (take n (drop (pos r) (rdata r))), r\<lparr>pos := pos r + n\<rparr>))"

definition rd_u8 :: "nat reader" where
  "rd_u8 = rbind (rd_take 1) (\<lambda>p. rret (unat (p ! 0)))"

definition rd_u16 :: "nat reader" where
  "rd_u16 = rbind (rd_take 2) (\<lambda>p. rret (push_bit 8 (unat (p ! 0)) OR unat (p ! 1)))"

definition rd_u32 :: "nat reader" where
  "rd_u32 = rbind (rd_take 4) (\<lambda>p.
     rret (push_bit 24 (unat (p ! 0)) OR push_bit 16 (unat (p ! 1)) OR push_bit 8 (unat (p ! 2)) OR
           unat (p ! 3)))"

text \<open>\<open>text\<close> for a name (\<open>u16\<close> length) and for a text (\<open>u32\<close> length).\<close>

definition rd_bytes :: "heap \<Rightarrow> nat \<Rightarrow> string reader" where
  "rd_bytes h n =
     rbind (rd_take n) (\<lambda>p.
       if \<not> utf8 p then rfail ''invalid UTF-8''
       else if \<not> h (Chars (n + 1)) then rfail ''out of memory''
       else rret (chars p))"

definition rd_text :: "heap \<Rightarrow> bool \<Rightarrow> string reader" where
  "rd_text h name =
     (if name then
        rbind rd_u16 (\<lambda>n. if n > MAX_NAME then rfail ''name exceeds limit'' else rd_bytes h n)
      else
        rbind rd_u32 (\<lambda>n. if n > MAX_TEXT then rfail ''text exceeds limit'' else rd_bytes h n))"

text \<open>\<open>for (i = 0; i < count && !r->error; i++) items[i] = f(r);\<close>\<close>

fun read_list :: "'a reader \<Rightarrow> nat \<Rightarrow> 'a list reader" where
  "read_list f 0 r = (Some [], r)"
| "read_list f (Suc n) r =
     (if rerror r \<noteq> None then (None, r)
      else rbind f (\<lambda>x. rbind (read_list f n) (\<lambda>xs. rret (x # xs))) r)"

section \<open>Constants\<close>

definition max_nat_bytes :: nat where
  "max_nat_bytes = (MAX_DIGITS * 3322 + 7999) div 8000"

definition read_nat :: "heap \<Rightarrow> PnBigInt reader" where
  "read_nat h =
     rbind rd_u16 (\<lambda>n.
       if n > max_nat_bytes then rfail ''integer exceeds digit limit''
       else rbind (rd_take n) (\<lambda>p.
         if n \<noteq> 0 \<and> p ! 0 = 0 then rfail ''non-minimal integer''
         else case pn_big_from_bytes h p of
           None \<Rightarrow> rfail ''out of memory''
         | Some v \<Rightarrow>
             (case pn_big_string h v of
                None \<Rightarrow> rfail ''out of memory''
              | Some digits \<Rightarrow>
                  if strlen digits > MAX_DIGITS then rfail ''integer exceeds digit limit''
                  else rret v)))"

definition int16 :: "nat \<Rightarrow> int" where
  "int16 n = (if n < 32768 then int n else int n - 65536)"

definition nibble :: "byte list \<Rightarrow> nat \<Rightarrow> nat" where
  "nibble p i = (if odd i then unat (p ! (i div 2)) AND 15 else drop_bit 4 (unat (p ! (i div 2))))"

fun bcd_loop :: "byte list \<Rightarrow> nat \<Rightarrow> nat \<Rightarrow> string option" where
  "bcd_loop p i 0 = Some []"
| "bcd_loop p i (Suc n) =
     (if nibble p i > 9 then None
      else case bcd_loop p (Suc i) n of
        None \<Rightarrow> None
      | Some cs \<Rightarrow> Some (digit_char (nibble p i) # cs))"

definition read_decimal_constant :: "heap \<Rightarrow> Constant reader" where
  "read_decimal_constant h =
     rbind rd_u8 (\<lambda>sgn. rbind rd_u16 (\<lambda>ex. rbind rd_u16 (\<lambda>digits.
       if sgn > 1 \<or> digits = 0 \<or> int16 ex > 4096 \<or> int16 ex < -4096 \<or> digits > MAX_DIGITS
       then rfail ''invalid decimal''
       else let bytes = (digits + 1) div 2 in
         rbind (rd_take bytes) (\<lambda>p.
           if \<not> h (Chars digits) then rfail ''out of memory''
           else case bcd_loop p 0 digits of
             None \<Rightarrow> rfail ''invalid decimal digit''
           | Some cs \<Rightarrow>
               if odd digits \<and> unat (p ! (bytes - 1)) AND 15 \<noteq> 15 then rfail ''invalid decimal padding''
               else if digits > 1 \<and> cs ! 0 = CHR ''0'' then rfail ''non-minimal decimal coefficient''
               else case pn_big_from_digits h cs (if sgn \<noteq> 0 then -1 else 1) of
                 None \<Rightarrow> rfail ''out of memory''
               | Some v \<Rightarrow> rret (K_DEC (sgn \<noteq> 0) v (int16 ex))))))"

text \<open>A flag byte that has to be 0 or 1; a failed read keeps its own diagnostic.\<close>

definition rd_flag :: "string \<Rightarrow> nat reader" where
  "rd_flag message r =
     (case rd_u8 r of
        (None, r') \<Rightarrow> rfail message r'
      | (Some b, r') \<Rightarrow> if b > 1 then rfail message r' else (Some b, r'))"

definition read_constant :: "heap \<Rightarrow> Constant reader" where
  "read_constant h =
     rbind rd_u8 (\<lambda>tag.
       if tag = 0 then rbind (read_nat h) (\<lambda>n. rret (K_NAT n))
       else if tag = 1 then
         rbind (rd_flag ''invalid integer sign'') (\<lambda>sgn. rbind (read_nat h) (\<lambda>n.
           if sgn \<noteq> 0 \<and> pn_big_is_zero n then rfail ''negative zero integer''
           else rret (K_INT (if sgn \<noteq> 0 then n\<lparr>sign := -1\<rparr> else n))))
       else if tag = 2 then read_decimal_constant h
       else if tag = 3 then rbind (rd_text h False) (\<lambda>s. rret (K_STR s))
       else if tag = 4 then rbind (rd_flag ''invalid Bool constant'') (\<lambda>b. rret (K_BOOL (b \<noteq> 0)))
       else if tag = 5 then rret K_VOID
       else rfail ''unknown constant tag'')"

section \<open>Instructions\<close>

definition rd_strings :: "heap \<Rightarrow> nat \<Rightarrow> bool \<Rightarrow> string list reader" where
  "rd_strings h count names r =
     (if count \<noteq> 0 \<and> \<not> h (Slots count) then rfail ''out of memory'' r
      else case read_list (rd_text h names) count r of
        (items, r') \<Rightarrow> if rerror r' \<noteq> None then (None, r') else (items, r'))"

text \<open>Two names read one after the other, the second even if the first failed.\<close>

definition rd_two_names :: "heap \<Rightarrow> (string \<times> string) reader" where
  "rd_two_names h r =
     (case rd_text h True r of (a, r1) \<Rightarrow>
      case rd_text h True r1 of (b, r2) \<Rightarrow>
        (case (a, b) of (Some x, Some y) \<Rightarrow> (Some (x, y), r2) | _ \<Rightarrow> (None, r2)))"

definition rd_operator :: "nat \<Rightarrow> string \<Rightarrow> nat reader" where
  "rd_operator limit message r =
     (case rd_u8 r of
        (None, r') \<Rightarrow> rfail message r'
      | (Some c, r') \<Rightarrow> if c > limit then rfail message r' else (Some c, r'))"

definition instruction :: "heap \<Rightarrow> Instruction reader" where
  "instruction h =
     rbind rd_u8 (\<lambda>op.
       if op = 0 then rbind (read_constant h) (\<lambda>c. rret (OP_CONST c))
       else if op = 1 then rbind (rd_text h True) (\<lambda>n. rret (OP_LOAD n))
       else if op = 2 then rbind (rd_text h True) (\<lambda>n. rret (OP_STORE n))
       else if op = 10 then rbind (rd_text h True) (\<lambda>n. rret (OP_ITER_INIT n))
       else if op = 13 then rbind (rd_text h True) (\<lambda>n. rret (OP_FIELD_GET n))
       else if op = 3 then rret OP_POP
       else if op = 6 then rret OP_MAKE_RANGE
       else if op = 8 then rret OP_INDEX_GET
       else if op = 16 then rret OP_MATCH_FAIL
       else if op = 20 then rret OP_RETURN
       else if op = 23 then rbind rd_u8 (\<lambda>a. rret (OP_AWAIT_VALUE a))
       else if op = 21 then rbind rd_u8 (\<lambda>a. rret (OP_CALL_VALUE a))
       else if op = 4 then rbind (rd_operator 1 ''unknown unary operator'') (\<lambda>c. rret (OP_UNARY c))
       else if op = 5 then rbind (rd_operator 12 ''unknown binary operator'') (\<lambda>c. rret (OP_BINARY c))
       else if op = 7 then rbind rd_u16 (\<lambda>n. rret (OP_MAKE_ARRAY n))
       else if op = 9 then rbind rd_u16 (\<lambda>n. rbind (rd_strings h n False) (\<lambda>ss. rret (OP_INTERPOLATE ss)))
       else if op = 11 then
         rbind (rd_two_names h) (\<lambda>(a, b). rbind rd_u32 (\<lambda>t. rret (OP_ITER_NEXT a b t)))
       else if op = 12 then
         rbind (rd_text h True) (\<lambda>a. rbind rd_u16 (\<lambda>n.
           rbind (rd_strings h n True) (\<lambda>ss. rret (OP_MAKE_RECORD a ss))))
       else if op = 14 then
         rbind (rd_two_names h) (\<lambda>(a, b). rbind rd_u16 (\<lambda>n. rret (OP_MAKE_VARIANT a b n)))
       else if op = 15 then rbind (rd_text h True) (\<lambda>a. rbind rd_u32 (\<lambda>t. rret (OP_MATCH_VARIANT a t)))
       else if op = 22 then rbind (rd_text h True) (\<lambda>a. rbind rd_u8 (\<lambda>n. rret (OP_AWAIT_CALL a n)))
       else if op = 17 then rbind (rd_text h True) (\<lambda>a. rbind rd_u8 (\<lambda>n. rret (OP_CALL a n)))
       else if op = 18 then rbind rd_u32 (\<lambda>t. rret (OP_JUMP_FALSE t))
       else if op = 19 then rbind rd_u32 (\<lambda>t. rret (OP_JUMP t))
       else rfail ''unknown bytecode opcode'')"

section \<open>Programs\<close>

text \<open>The header of one function: name, flags, parameter count.\<close>

definition rd_flags :: "nat reader" where
  "rd_flags = rbind rd_u8 (\<lambda>flags. if flags > 2 then rfail ''invalid function flags'' else rret flags)"

text \<open>The instruction count is read even after a parameter name failed; \<open>sofar\<close> is the count so far.\<close>

definition rd_code :: "heap \<Rightarrow> nat \<Rightarrow> (nat \<times> Instruction list) reader" where
  "rd_code h sofar =
     rbind rd_u32 (\<lambda>n.
       if n > 1000000 \<or> sofar + n > MAX_INSTRUCTIONS then rfail ''instruction count exceeds limit''
       else if n \<noteq> 0 \<and> \<not> h (Slots n) then rfail ''out of memory''
       else rbind (read_list (instruction h) n) (\<lambda>is. rret (sofar + n, is)))"

definition rd_body :: "heap \<Rightarrow> nat \<Rightarrow> nat \<Rightarrow> (string list \<times> nat \<times> Instruction list) reader" where
  "rd_body h sofar n r =
     (if n \<noteq> 0 \<and> \<not> h (Slots n) then rfail ''out of memory'' r
      else case read_list (rd_text h True) n r of (ps, r1) \<Rightarrow>
           case rd_code h sofar r1 of (body, r2) \<Rightarrow>
             (case (ps, body) of (Some ps, Some (sofar', is)) \<Rightarrow> (Some (ps, sofar', is), r2) | _ \<Rightarrow> (None, r2)))"

fun rd_functions :: "heap \<Rightarrow> nat \<Rightarrow> nat \<Rightarrow> Function list reader" where
  "rd_functions h 0 sofar r = (Some [], r)"
| "rd_functions h (Suc n) sofar r =
     (if rerror r \<noteq> None then (None, r)
      else rbind (rd_text h True) (\<lambda>name. rbind rd_flags (\<lambda>flags. rbind rd_u8 (\<lambda>param_count.
           rbind (rd_body h sofar param_count) (\<lambda>(ps, sofar', is).
           rbind (rd_functions h n sofar') (\<lambda>fs.
             rret (\<lparr>fname = name, pure = (flags = 1), is_async = (flags = 2), local_effect = False,
                    params = ps, ins = is\<rparr> # fs)))))) r)"

definition magic :: "byte list" where
  "magic = bytes_of (''PANACKBC'' @ [CHR 0x00])"

definition decode :: "heap \<Rightarrow> byte list \<Rightarrow> string + Program" where
  "decode h bytes =
     (let r = \<lparr>rdata = bytes, pos = 0, rerror = None\<rparr> in
      if length bytes > MAX_ARTIFACT then Inl ''artifact exceeds size limit''
      else case rd_take 9 r of
        (None, r) \<Rightarrow> Inl ''not a Panackelty bytecode file''
      | (Some m, r) \<Rightarrow>
      if m \<noteq> magic then Inl ''not a Panackelty bytecode file''
      else case rd_u16 r of
        (None, r) \<Rightarrow> Inl (the (rerror r))
      | (Some version, r) \<Rightarrow>
      if version \<noteq> 9 then Inl ''unsupported bytecode version''
      else case rd_u16 r of
        (None, r) \<Rightarrow> Inl (the (rerror r))
      | (Some count, r) \<Rightarrow>
      if count > MAX_FUNCTIONS then Inl ''function count exceeds limit''
      else if count \<noteq> 0 \<and> \<not> h (Slots count) then Inl ''out of memory''
      else case rd_functions h count 0 r of (fs, r) \<Rightarrow>
      let r = (if rerror r = None \<and> pos r \<noteq> length (rdata r) then rd_fail r ''trailing data'' else r) in
      case (rerror r, fs) of
        (None, Some fs) \<Rightarrow> Inr \<lparr>functions = fs, verified_function_order = False\<rparr>
      | (e, _) \<Rightarrow> Inl (the e))"

section \<open>The specified encoding\<close>

definition be16 :: "nat \<Rightarrow> byte list" where
  "be16 n = [word_of_nat (n div 256), word_of_nat (n mod 256)]"

definition be32 :: "nat \<Rightarrow> byte list" where
  "be32 n = [word_of_nat (n div 16777216), word_of_nat (n div 65536 mod 256),
             word_of_nat (n div 256 mod 256), word_of_nat (n mod 256)]"

definition write_u8 :: "nat \<Rightarrow> byte list" where
  "write_u8 n = [word_of_nat n]"

definition write_name :: "string \<Rightarrow> byte list" where
  "write_name s = be16 (length s) @ bytes_of s"

definition write_text :: "string \<Rightarrow> byte list" where
  "write_text s = be32 (length s) @ bytes_of s"

fun nat_bytes :: "nat \<Rightarrow> byte list" where
  "nat_bytes n = (if n = 0 then [] else nat_bytes (n div 256) @ [word_of_nat (n mod 256)])"

definition write_nat :: "PnBigInt \<Rightarrow> byte list" where
  "write_nat v = be16 (length (nat_bytes (mag (limbs v)))) @ nat_bytes (mag (limbs v))"

fun pack :: "string \<Rightarrow> byte list" where
  "pack [] = []"
| "pack [c] = [word_of_nat (16 * digit_value c + 15)]"
| "pack (c # d # cs) = word_of_nat (16 * digit_value c + digit_value d) # pack cs"

definition write_exponent :: "int \<Rightarrow> byte list" where
  "write_exponent e = be16 (nat (e mod 65536))"

definition write_decimal :: "bool \<Rightarrow> PnBigInt \<Rightarrow> int \<Rightarrow> byte list" where
  "write_decimal s v e =
     (let digits = show_u (mag (limbs v))
      in write_u8 (of_bool s) @ write_exponent e @ be16 (length digits) @ pack digits)"

fun write_constant :: "Constant \<Rightarrow> byte list" where
  "write_constant (K_NAT n) = write_u8 0 @ write_nat n"
| "write_constant (K_INT n) = write_u8 1 @ write_u8 (of_bool (sign n < 0)) @ write_nat n"
| "write_constant (K_DEC s v e) = write_u8 2 @ write_decimal s v e"
| "write_constant (K_STR s) = write_u8 3 @ write_text s"
| "write_constant (K_BOOL b) = write_u8 4 @ write_u8 (of_bool b)"
| "write_constant K_VOID = write_u8 5"

fun write_instruction :: "Instruction \<Rightarrow> byte list" where
  "write_instruction (OP_CONST c) = write_u8 0 @ write_constant c"
| "write_instruction (OP_LOAD n) = write_u8 1 @ write_name n"
| "write_instruction (OP_STORE n) = write_u8 2 @ write_name n"
| "write_instruction OP_POP = write_u8 3"
| "write_instruction (OP_UNARY c) = write_u8 4 @ write_u8 c"
| "write_instruction (OP_BINARY c) = write_u8 5 @ write_u8 c"
| "write_instruction OP_MAKE_RANGE = write_u8 6"
| "write_instruction (OP_MAKE_ARRAY n) = write_u8 7 @ be16 n"
| "write_instruction OP_INDEX_GET = write_u8 8"
| "write_instruction (OP_INTERPOLATE ss) = write_u8 9 @ be16 (length ss) @ concat (map write_text ss)"
| "write_instruction (OP_ITER_INIT n) = write_u8 10 @ write_name n"
| "write_instruction (OP_ITER_NEXT a b t) = write_u8 11 @ write_name a @ write_name b @ be32 t"
| "write_instruction (OP_MAKE_RECORD a fs) =
     write_u8 12 @ write_name a @ be16 (length fs) @ concat (map write_name fs)"
| "write_instruction (OP_FIELD_GET n) = write_u8 13 @ write_name n"
| "write_instruction (OP_MAKE_VARIANT a b n) = write_u8 14 @ write_name a @ write_name b @ be16 n"
| "write_instruction (OP_MATCH_VARIANT a t) = write_u8 15 @ write_name a @ be32 t"
| "write_instruction OP_MATCH_FAIL = write_u8 16"
| "write_instruction (OP_CALL a n) = write_u8 17 @ write_name a @ write_u8 n"
| "write_instruction (OP_JUMP_FALSE t) = write_u8 18 @ be32 t"
| "write_instruction (OP_JUMP t) = write_u8 19 @ be32 t"
| "write_instruction OP_RETURN = write_u8 20"
| "write_instruction (OP_CALL_VALUE n) = write_u8 21 @ write_u8 n"
| "write_instruction (OP_AWAIT_CALL a n) = write_u8 22 @ write_name a @ write_u8 n"
| "write_instruction (OP_AWAIT_VALUE n) = write_u8 23 @ write_u8 n"

definition write_function :: "Function \<Rightarrow> byte list" where
  "write_function f =
     write_name (fname f) @ write_u8 (if pure f then 1 else if is_async f then 2 else 0) @
     write_u8 (length (params f)) @ concat (map write_name (params f)) @
     be32 (length (ins f)) @ concat (map write_instruction (ins f))"

definition encode :: "Program \<Rightarrow> byte list" where
  "encode p = magic @ be16 9 @ be16 (length (functions p)) @ concat (map write_function (functions p))"

subsection \<open>Encodable programs\<close>

definition name_valid :: "string \<Rightarrow> bool" where
  "name_valid s \<longleftrightarrow> length s \<le> MAX_NAME \<and> utf8 (bytes_of s)"

definition text_valid :: "string \<Rightarrow> bool" where
  "text_valid s \<longleftrightarrow> length s \<le> MAX_TEXT \<and> utf8 (bytes_of s)"

definition nat_valid :: "PnBigInt \<Rightarrow> bool" where
  "nat_valid v \<longleftrightarrow> big_ok v \<and> 0 \<le> sign v \<and> length (nat_bytes (mag (limbs v))) \<le> max_nat_bytes \<and>
     length (show_u (mag (limbs v))) \<le> MAX_DIGITS"

fun constant_valid :: "Constant \<Rightarrow> bool" where
  "constant_valid (K_NAT n) = nat_valid n"
| "constant_valid (K_INT n) = (big_ok n \<and> nat_valid (magnitude n))"
| "constant_valid (K_DEC s v e) =
     (big_ok v \<and> length (show_u (mag (limbs v))) \<le> MAX_DIGITS \<and> \<bar>e\<bar> \<le> 4096 \<and>
      (sign v \<noteq> 0 \<longrightarrow> sign v = (if s then -1 else 1)))"
| "constant_valid (K_STR s) = text_valid s"
| "constant_valid (K_BOOL b) = True"
| "constant_valid K_VOID = True"

fun instruction_valid :: "Instruction \<Rightarrow> bool" where
  "instruction_valid (OP_CONST c) = constant_valid c"
| "instruction_valid (OP_LOAD n) = name_valid n"
| "instruction_valid (OP_STORE n) = name_valid n"
| "instruction_valid (OP_UNARY c) = (c \<le> 1)"
| "instruction_valid (OP_BINARY c) = (c \<le> 12)"
| "instruction_valid (OP_MAKE_ARRAY n) = (n < 65536)"
| "instruction_valid (OP_INTERPOLATE ss) = (length ss < 65536 \<and> list_all text_valid ss)"
| "instruction_valid (OP_ITER_INIT n) = name_valid n"
| "instruction_valid (OP_ITER_NEXT a b t) = (name_valid a \<and> name_valid b \<and> t < 4294967296)"
| "instruction_valid (OP_MAKE_RECORD a fs) = (name_valid a \<and> length fs < 65536 \<and> list_all name_valid fs)"
| "instruction_valid (OP_FIELD_GET n) = name_valid n"
| "instruction_valid (OP_MAKE_VARIANT a b n) = (name_valid a \<and> name_valid b \<and> n < 65536)"
| "instruction_valid (OP_MATCH_VARIANT a t) = (name_valid a \<and> t < 4294967296)"
| "instruction_valid (OP_CALL a n) = (name_valid a \<and> n < 256)"
| "instruction_valid (OP_JUMP_FALSE t) = (t < 4294967296)"
| "instruction_valid (OP_JUMP t) = (t < 4294967296)"
| "instruction_valid (OP_CALL_VALUE n) = (n < 256)"
| "instruction_valid (OP_AWAIT_CALL a n) = (name_valid a \<and> n < 256)"
| "instruction_valid (OP_AWAIT_VALUE n) = (n < 256)"
| "instruction_valid _ = True"

definition function_valid :: "Function \<Rightarrow> bool" where
  "function_valid f \<longleftrightarrow> name_valid (fname f) \<and> \<not> (pure f \<and> is_async f) \<and> \<not> local_effect f \<and>
     length (params f) < 256 \<and> list_all name_valid (params f) \<and>
     length (ins f) \<le> 1000000 \<and> list_all instruction_valid (ins f)"

definition program_valid :: "Program \<Rightarrow> bool" where
  "program_valid p \<longleftrightarrow> length (functions p) \<le> MAX_FUNCTIONS \<and> list_all function_valid (functions p) \<and>
     sum_list (map (\<lambda>f. length (ins f)) (functions p)) \<le> MAX_INSTRUCTIONS \<and>
     \<not> verified_function_order p \<and> length (encode p) \<le> MAX_ARTIFACT"

section \<open>The reading contract\<close>

definition consumes :: "Reader \<Rightarrow> Reader \<Rightarrow> byte list \<Rightarrow> bool" where
  "consumes r r' bs \<longleftrightarrow> r' = r\<lparr>pos := pos r + length bs\<rparr> \<and>
     pos r + length bs \<le> length (rdata r) \<and> take (length bs) (drop (pos r) (rdata r)) = bs"

lemma consumes_Nil [simp]: "consumes r r' [] \<longleftrightarrow> r' = r \<and> pos r \<le> length (rdata r)"
  by (auto simp: consumes_def)

lemma consumes_append:
  "consumes r r2 (xs @ ys) \<longleftrightarrow> (\<exists>r1. consumes r r1 xs \<and> consumes r1 r2 ys)"
proof
  assume c: "consumes r r2 (xs @ ys)"
  let ?r1 = "r\<lparr>pos := pos r + length xs\<rparr>"
  let ?D = "drop (pos r) (rdata r)"
  from c have T: "take (length xs + length ys) ?D = xs @ ys" by (simp add: consumes_def)
  have "take (length xs) ?D = take (length xs) (take (length xs + length ys) ?D)" by simp
  then have "take (length xs) ?D = xs" unfolding T by simp
  moreover have "take (length ys) (drop (length xs) ?D) = drop (length xs) (take (length xs + length ys) ?D)"
    by (simp add: drop_take)
  then have "take (length ys) (drop (length xs) ?D) = ys" unfolding T by simp
  ultimately have "consumes r ?r1 xs \<and> consumes ?r1 r2 ys"
    using c by (simp add: consumes_def add.commute add.left_commute)
  then show "\<exists>r1. consumes r r1 xs \<and> consumes r1 r2 ys" by blast
next
  assume "\<exists>r1. consumes r r1 xs \<and> consumes r1 r2 ys"
  then show "consumes r r2 (xs @ ys)"
    by (auto simp: consumes_def take_add add.commute add.left_commute)
qed

lemma consumes_error: "consumes r r' bs \<Longrightarrow> rerror r' = rerror r"
  by (simp add: consumes_def)

text \<open>
  A reading function keeps the contract when every result it returns is valid and exactly the bytes
  of its encoding were consumed, and when a failure records a diagnostic.
\<close>

locale sound_reader =
  fixes read :: "'a reader" and enc :: "'a \<Rightarrow> byte list" and valid :: "'a \<Rightarrow> bool"
  assumes sound: "read r = (Some x, r') \<Longrightarrow> rerror r = None \<Longrightarrow> pos r \<le> length (rdata r) \<Longrightarrow>
      valid x \<and> consumes r r' (enc x)"
    and fails: "read r = (None, r') \<Longrightarrow> rerror r' \<noteq> None"
begin

lemma list_sound:
  "read_list read n r = (Some xs, r') \<Longrightarrow> rerror r = None \<Longrightarrow> pos r \<le> length (rdata r) \<Longrightarrow>
     length xs = n \<and> list_all valid xs \<and> consumes r r' (concat (map enc xs))"
proof (induction n arbitrary: r xs)
  case (Suc n)
  from Suc.prems obtain x r1 ys where 1: "read r = (Some x, r1)"
    and 2: "read_list read n r1 = (Some ys, r')" and xs: "xs = x # ys"
    by (auto simp: rbind_def rret_def split: option.splits prod.splits)
  from sound [OF 1 Suc.prems(2,3)] have x: "valid x" "consumes r r1 (enc x)" by simp_all
  then have "rerror r1 = None" "pos r1 \<le> length (rdata r1)"
    using Suc.prems(2) by (auto simp: consumes_def)
  from Suc.IH [OF 2 this] x show ?case by (auto simp: xs consumes_append)
qed auto

lemma list_fails: "read_list read n r = (None, r') \<Longrightarrow> rerror r' \<noteq> None"
proof (induction n arbitrary: r)
  case (Suc n)
  then show ?case
    by (auto simp: rbind_def rret_def split: option.splits prod.splits if_splits dest: fails)
qed simp

end

text \<open>With memory for every request, the encoding of a valid object is also read back.\<close>

locale exact_reader = sound_reader +
  assumes complete: "valid x \<Longrightarrow> rerror r = None \<Longrightarrow> consumes r r' (enc x) \<Longrightarrow> read r = (Some x, r')"
begin

lemma list_complete:
  "list_all valid xs \<Longrightarrow> rerror r = None \<Longrightarrow> consumes r r' (concat (map enc xs)) \<Longrightarrow>
     read_list read (length xs) r = (Some xs, r')"
proof (induction xs arbitrary: r)
  case (Cons x xs)
  then obtain r1 where 1: "consumes r r1 (enc x)" "consumes r1 r' (concat (map enc xs))"
    by (auto simp: consumes_append)
  with Cons.prems have "read r = (Some x, r1)" "rerror r1 = None"
    by (auto intro: complete simp: consumes_error)
  with Cons 1 show ?case by (simp add: rbind_def rret_def)
qed simp

end

section \<open>Reading primitives\<close>

lemma rd_fail_error [simp]: "rerror (rd_fail r m) \<noteq> None" "\<exists>e. rerror (rd_fail r m) = Some e"
  by (simp_all add: rd_fail_def)

lemma rfail_simps [simp]: "rfail m r \<noteq> (Some x, r')" "rfail m r = (None, r') \<longleftrightarrow> r' = rd_fail r m"
  by (auto simp: rfail_def)

lemma rret_simps [simp]: "rret x r = (Some y, r') \<longleftrightarrow> y = x \<and> r' = r" "rret x r \<noteq> (None, r')"
  by (auto simp: rret_def)

lemma rbind_Some: "rbind m f r = (Some y, r') \<longleftrightarrow> (\<exists>x r1. m r = (Some x, r1) \<and> f x r1 = (Some y, r'))"
  by (auto simp: rbind_def split: option.splits prod.splits)

lemma rbind_None:
  "rbind m f r = (None, r') \<longleftrightarrow> m r = (None, r') \<or> (\<exists>x r1. m r = (Some x, r1) \<and> f x r1 = (None, r'))"
  by (auto simp: rbind_def split: option.splits prod.splits)

lemmas reader_flow = rbind_Some rbind_None

lemma rd_take_sound:
  "rd_take n r = (Some p, r') \<Longrightarrow> pos r \<le> length (rdata r) \<Longrightarrow> length p = n \<and> consumes r r' p"
  by (auto simp: rd_take_def consumes_def split: if_splits)

lemma rd_take_complete: "consumes r r' p \<Longrightarrow> rd_take (length p) r = (Some p, r')"
  by (auto simp: rd_take_def consumes_def)

lemma rd_take_fails: "rd_take n r = (None, r') \<Longrightarrow> rerror r' \<noteq> None"
  by (auto simp: rd_take_def split: if_splits)

lemma push_or: "b < 2 ^ n \<Longrightarrow> push_bit n a OR b = 2 ^ n * a + (b::nat)"
proof -
  assume "b < 2 ^ n"
  then have b: "take_bit n b = b" by (simp add: take_bit_eq_mod)
  have "push_bit n a AND take_bit n b = 0" by (rule bit_eqI) (auto simp: bit_simps)
  then have "push_bit n a + b = push_bit n a OR b" by (simp add: b disjunctive_add_eq_or)
  then show ?thesis by (simp only: push_bit_eq_mult mult.commute [of a])
qed

lemma value16: "push_bit 8 (unat a) OR unat (b::byte) = 256 * unat (a::byte) + unat b"
  using push_or [of "unat b" 8 "unat a"] by simp

lemma value32:
  "push_bit 24 (unat a) OR push_bit 16 (unat b) OR push_bit 8 (unat c) OR unat (d::byte) =
     16777216 * unat (a::byte) + 65536 * unat (b::byte) + 256 * unat (c::byte) + unat d"
proof -
  have d: "unat d < 256" and c: "unat c < 256" and b: "unat b < 256" by simp_all
  have 1: "push_bit 8 (unat c) OR unat d = 256 * unat c + unat d" by (rule value16)
  have 2: "push_bit 16 (unat b) OR (256 * unat c + unat d) = 65536 * unat b + (256 * unat c + unat d)"
    using push_or [of "256 * unat c + unat d" 16 "unat b"] c d by simp
  have 3: "push_bit 24 (unat a) OR (65536 * unat b + (256 * unat c + unat d)) =
      16777216 * unat a + (65536 * unat b + (256 * unat c + unat d))"
    using push_or [of "65536 * unat b + (256 * unat c + unat d)" 24 "unat a"] b c d by simp
  show ?thesis unfolding 1 2 3 by simp
qed

lemma be16_value: "be16 (256 * unat a + unat b) = [a, b]"
  by (simp add: be16_def)

lemma split256: "y < 256 \<Longrightarrow> (256 * x + y) div 256 = x" "y < 256 \<Longrightarrow> (256 * x + y) mod 256 = (y::nat)"
  by simp_all

lemma be32_nested:
  "be32 n = [word_of_nat (n div 256 div 256 div 256), word_of_nat (n div 256 div 256 mod 256),
             word_of_nat (n div 256 mod 256), word_of_nat (n mod 256)]"
  by (simp add: be32_def flip: div_mult2_eq)

lemma be32_value: "be32 (16777216 * unat a + 65536 * unat b + 256 * unat c + unat d) = [a, b, c, d]"
proof -
  have lt: "unat a < 256" "unat b < 256" "unat c < 256" "unat d < 256" by simp_all
  have "16777216 * unat a + 65536 * unat b + 256 * unat c + unat d =
      256 * (256 * (256 * unat a + unat b) + unat c) + unat d" by simp
  then show ?thesis unfolding be32_nested by (simp only: split256 lt byte_unat)
qed

lemma length_be [simp]: "length (be16 n) = 2" "length (be32 n) = 4" "length (write_u8 n) = 1"
  by (simp_all add: be16_def be32_def write_u8_def)

interpretation u8: exact_reader rd_u8 write_u8 "\<lambda>n. n < 256"
proof
  fix r x r'
  assume "rd_u8 r = (Some x, r')" "rerror r = None" "pos r \<le> length (rdata r)"
  then obtain p where p: "rd_take 1 r = (Some p, r')" "x = unat (p ! 0)" by (auto simp: rd_u8_def reader_flow)
  from rd_take_sound [OF p(1)] \<open>pos r \<le> _\<close> obtain a where "p = [a]" "consumes r r' p"
    by (auto simp: length_Suc_conv)
  with p(2) show "x < 256 \<and> consumes r r' (write_u8 x)" by (simp add: write_u8_def)
next
  fix r r' assume "rd_u8 r = (None, r')"
  then show "rerror r' \<noteq> None" by (auto simp: rd_u8_def reader_flow dest: rd_take_fails)
next
  fix x r r' assume "x < 256" and c: "consumes r r' (write_u8 x)"
  with rd_take_complete [OF c] show "rd_u8 r = (Some x, r')"
    by (simp add: rd_u8_def reader_flow write_u8_def)
qed

interpretation u16: exact_reader rd_u16 be16 "\<lambda>n. n < 65536"
proof
  fix r x r'
  assume "rd_u16 r = (Some x, r')" "rerror r = None" "pos r \<le> length (rdata r)"
  then obtain p where p: "rd_take 2 r = (Some p, r')" "x = push_bit 8 (unat (p ! 0)) OR unat (p ! 1)"
    by (auto simp: rd_u16_def reader_flow)
  from rd_take_sound [OF p(1)] \<open>pos r \<le> _\<close> obtain a b where ab: "p = [a, b]" "consumes r r' p"
    by (auto simp: length_Suc_conv numeral_2_eq_2)
  with p(2) have "x = 256 * unat a + unat b" by (simp add: value16)
  moreover have "256 * unat a + unat b < 65536" using byte_less [of a] byte_less [of b] by linarith
  ultimately show "x < 65536 \<and> consumes r r' (be16 x)" using ab by (simp add: be16_value)
next
  fix r r' assume "rd_u16 r = (None, r')"
  then show "rerror r' \<noteq> None" by (auto simp: rd_u16_def reader_flow dest: rd_take_fails)
next
  fix x r r' assume x: "x < 65536" and c: "consumes r r' (be16 x)"
  then have "x div 256 < 256" by simp
  with rd_take_complete [OF c, unfolded length_be] x show "rd_u16 r = (Some x, r')"
    by (simp add: rd_u16_def reader_flow be16_def value16)
qed

interpretation u32: exact_reader rd_u32 be32 "\<lambda>n. n < 4294967296"
proof
  fix r x r'
  assume "rd_u32 r = (Some x, r')" "rerror r = None" "pos r \<le> length (rdata r)"
  then obtain p where p: "rd_take 4 r = (Some p, r')"
    "x = push_bit 24 (unat (p ! 0)) OR push_bit 16 (unat (p ! 1)) OR push_bit 8 (unat (p ! 2)) OR unat (p ! 3)"
    by (auto simp: rd_u32_def reader_flow)
  from rd_take_sound [OF p(1)] \<open>pos r \<le> _\<close> obtain a b c d where ab: "p = [a, b, c, d]" "consumes r r' p"
    by (auto simp: length_Suc_conv numeral_eq_Suc)
  with p(2) have "x = 16777216 * unat a + 65536 * unat b + 256 * unat c + unat d" by (simp add: value32)
  moreover have "16777216 * unat a + 65536 * unat b + 256 * unat c + unat d < 4294967296"
    using byte_less [of a] byte_less [of b] byte_less [of c] byte_less [of d] by linarith
  ultimately show "x < 4294967296 \<and> consumes r r' (be32 x)" using ab by (simp add: be32_value)
next
  fix r r' assume "rd_u32 r = (None, r')"
  then show "rerror r' \<noteq> None" by (auto simp: rd_u32_def reader_flow dest: rd_take_fails)
next
  fix x r r' assume x: "x < 4294967296" and c: "consumes r r' (be32 x)"
  have lt: "x div 256 div 256 div 256 < 256" using x by (simp add: div_less_iff_less_mult)
  have "x = 256 * (x div 256) + x mod 256" "x div 256 = 256 * (x div 256 div 256) + x div 256 mod 256"
    "x div 256 div 256 = 256 * (x div 256 div 256 div 256) + x div 256 div 256 mod 256"
    by simp_all
  then have "16777216 * (x div 256 div 256 div 256) + 65536 * (x div 256 div 256 mod 256) +
      256 * (x div 256 mod 256) + x mod 256 = x"
    by linarith
  with lt rd_take_complete [OF c, unfolded length_be] show "rd_u32 r = (Some x, r')"
    by (simp add: rd_u32_def reader_flow be32_nested value32)
qed

section \<open>Names, texts and numbers\<close>

lemma rd_bytes_sound:
  "rd_bytes h n r = (Some s, r') \<Longrightarrow> pos r \<le> length (rdata r) \<Longrightarrow>
     length s = n \<and> utf8 (bytes_of s) \<and> consumes r r' (bytes_of s)"
  by (auto simp: rd_bytes_def reader_flow comp_def split: if_splits dest!: rd_take_sound)

lemma rd_bytes_fails: "rd_bytes h n r = (None, r') \<Longrightarrow> rerror r' \<noteq> None"
  by (auto simp: rd_bytes_def reader_flow split: if_splits dest: rd_take_fails)

lemma rd_bytes_complete:
  "utf8 (bytes_of s) \<Longrightarrow> consumes r r' (bytes_of s) \<Longrightarrow> rd_bytes (\<lambda>_. True) (length s) r = (Some s, r')"
  using rd_take_complete [of r r' "bytes_of s"] by (simp add: rd_bytes_def reader_flow comp_def)

lemma consumed_ready:
  "consumes r r' bs \<Longrightarrow> rerror r = None \<Longrightarrow> rerror r' = None \<and> pos r' \<le> length (rdata r')"
  by (auto simp: consumes_def)

interpretation name: sound_reader "rd_text h True" write_name name_valid for h
proof
  fix r x r'
  assume a: "rd_text h True r = (Some x, r')" and r: "rerror r = None" "pos r \<le> length (rdata r)"
  then obtain n r1 where 1: "rd_u16 r = (Some n, r1)" "n \<le> MAX_NAME" "rd_bytes h n r1 = (Some x, r')"
    by (auto simp: rd_text_def reader_flow split: if_splits)
  from u16.sound [OF 1(1) r] have c: "consumes r r1 (be16 n)" by simp
  with rd_bytes_sound [OF 1(3)] consumed_ready [OF c r(1)] 1(2)
  show "name_valid x \<and> consumes r r' (write_name x)"
    by (auto simp: name_valid_def write_name_def consumes_append)
next
  fix r r' assume "rd_text h True r = (None, r')"
  then show "rerror r' \<noteq> None"
    by (auto simp: rd_text_def reader_flow split: if_splits dest: rd_bytes_fails u16.fails)
qed

interpretation name_all: exact_reader "rd_text (\<lambda>_. True) True" write_name name_valid
proof
  fix x r r'
  assume x: "name_valid x" and r: "rerror r = None" and c: "consumes r r' (write_name x)"
  then obtain r1 where 1: "consumes r r1 (be16 (length x))" "consumes r1 r' (bytes_of x)"
    by (auto simp: write_name_def consumes_append)
  have "rd_u16 r = (Some (length x), r1)"
    using x by (intro u16.complete [OF _ r 1(1)]) (simp add: name_valid_def MAX_NAME_def)
  with x rd_bytes_complete [OF _ 1(2)] show "rd_text (\<lambda>_. True) True r = (Some x, r')"
    by (auto simp: rd_text_def reader_flow name_valid_def)
qed

interpretation long: sound_reader "rd_text h False" write_text text_valid for h
proof
  fix r x r'
  assume a: "rd_text h False r = (Some x, r')" and r: "rerror r = None" "pos r \<le> length (rdata r)"
  then obtain n r1 where 1: "rd_u32 r = (Some n, r1)" "n \<le> MAX_TEXT" "rd_bytes h n r1 = (Some x, r')"
    by (auto simp: rd_text_def reader_flow split: if_splits)
  from u32.sound [OF 1(1) r] have c: "consumes r r1 (be32 n)" by simp
  with rd_bytes_sound [OF 1(3)] consumed_ready [OF c r(1)] 1(2)
  show "text_valid x \<and> consumes r r' (write_text x)"
    by (auto simp: text_valid_def write_text_def consumes_append)
next
  fix r r' assume "rd_text h False r = (None, r')"
  then show "rerror r' \<noteq> None"
    by (auto simp: rd_text_def reader_flow split: if_splits dest: rd_bytes_fails u32.fails)
qed

interpretation long_all: exact_reader "rd_text (\<lambda>_. True) False" write_text text_valid
proof
  fix x r r'
  assume x: "text_valid x" and r: "rerror r = None" and c: "consumes r r' (write_text x)"
  then obtain r1 where 1: "consumes r r1 (be32 (length x))" "consumes r1 r' (bytes_of x)"
    by (auto simp: write_text_def consumes_append)
  have "rd_u32 r = (Some (length x), r1)"
    using x by (intro u32.complete [OF _ r 1(1)]) (simp add: text_valid_def MAX_TEXT_def)
  with x rd_bytes_complete [OF _ 1(2)] show "rd_text (\<lambda>_. True) False r = (Some x, r')"
    by (auto simp: rd_text_def reader_flow text_valid_def)
qed

subsection \<open>Minimal magnitudes\<close>

declare nat_bytes.simps [simp del]

lemma nat_bytes_0 [simp]: "nat_bytes 0 = []"
  by (simp add: nat_bytes.simps)

lemma byte_mag_snoc: "byte_mag 0 (bs @ [b]) = byte_mag 0 bs * 256 + unat b"
  by (simp add: byte_mag_def)

lemma byte_mag_nat_bytes: "byte_mag 0 (nat_bytes n) = n"
proof (induction n rule: nat_bytes.induct)
  case (1 n)
  then show ?case
    by (cases "n = 0") (simp_all add: nat_bytes.simps [of n] byte_mag_snoc, simp add: byte_mag_def)
qed

lemma byte_mag_pos: "bs \<noteq> [] \<Longrightarrow> hd bs \<noteq> 0 \<Longrightarrow> 0 < byte_mag 0 bs"
proof (induction bs rule: rev_induct)
  case (snoc b bs)
  then show ?case
    by (cases "bs = []") (auto simp: byte_mag_snoc byte_mag_def unat_gt_0)
qed simp

lemma nat_bytes_byte_mag: "bs = [] \<or> hd bs \<noteq> 0 \<Longrightarrow> nat_bytes (byte_mag 0 bs) = bs"
proof (induction bs rule: rev_induct)
  case Nil
  then show ?case by (simp add: byte_mag_def)
next
  case (snoc b bs)
  have "0 < byte_mag 0 (bs @ [b])" using snoc.prems by (intro byte_mag_pos) auto
  moreover have "byte_mag 0 (bs @ [b]) div 256 = byte_mag 0 bs" "byte_mag 0 (bs @ [b]) mod 256 = unat b"
    by (simp_all add: byte_mag_snoc mult.commute [of _ 256] split256)
  moreover have "bs = [] \<or> hd bs \<noteq> 0" using snoc.prems by auto
  ultimately show ?case using snoc.IH by (simp add: nat_bytes.simps [of "byte_mag 0 (bs @ [b])"])
qed

lemma nat_bytes_hd: "n \<noteq> 0 \<Longrightarrow> nat_bytes n \<noteq> [] \<and> hd (nat_bytes n) \<noteq> 0"
proof (induction n rule: nat_bytes.induct)
  case (1 n)
  show ?case
  proof (cases "n div 256 = 0")
    case True
    then have "n < 256" by simp
    with 1 True show ?thesis by (simp add: nat_bytes.simps [of n] word_of_nat_eq_0_iff) (auto dest: dvd_imp_le)
  next
    case False
    with 1 show ?thesis by (simp add: nat_bytes.simps [of n])
  qed
qed

subsection \<open>Natural constants\<close>

lemma big_ok_nonneg: "big_ok v \<Longrightarrow> 0 \<le> sign v \<Longrightarrow> big_val v = int (mag (limbs v))"
  by (auto simp: big_ok_def big_val_def)

lemma guard_Some:
  "(if b then rfail m else g) r = (Some x, r') \<longleftrightarrow> \<not> b \<and> g r = (Some x, r')"
  "(case z of None \<Rightarrow> rfail m | Some v \<Rightarrow> f v) r = (Some x, r') \<longleftrightarrow> (\<exists>v. z = Some v \<and> f v r = (Some x, r'))"
  by (auto split: option.splits)

lemmas reader_guards = reader_flow guard_Some

text \<open>A reader that reports a diagnostic whenever it has no result.\<close>

definition reports :: "'a reader \<Rightarrow> bool" where
  "reports f \<longleftrightarrow> (\<forall>r r'. f r = (None, r') \<longrightarrow> rerror r' \<noteq> None)"

lemma reportsD: "reports f \<Longrightarrow> f r = (None, r') \<Longrightarrow> rerror r' \<noteq> None"
  by (simp add: reports_def)

lemma reports_rules [intro!]:
  "reports (rfail m)"
  "reports (rret x)"
  "reports m' \<Longrightarrow> (\<And>x. reports (f x)) \<Longrightarrow> reports (rbind m' f)"
  "(b \<Longrightarrow> reports g) \<Longrightarrow> (\<not> b \<Longrightarrow> reports g') \<Longrightarrow> reports (if b then g else g')"
  "(z = None \<Longrightarrow> reports g) \<Longrightarrow> (\<And>v. z = Some v \<Longrightarrow> reports (k v)) \<Longrightarrow>
     reports (case z of None \<Rightarrow> g | Some v \<Rightarrow> k v)"
  by (force simp: reports_def reader_flow split: option.splits)+

lemma reports_primitives [simp]:
  "reports (rd_take n)" "reports rd_u8" "reports rd_u16" "reports rd_u32" "reports (rd_text h name)"
  by (auto simp: reports_def dest: rd_take_fails u8.fails u16.fails u32.fails)
    (cases name; auto dest: name.fails long.fails)

lemma reports_read_nat [simp]: "reports (read_nat h)"
  unfolding read_nat_def by (auto simp del: not_None_eq)

interpretation nat: sound_reader "read_nat h" write_nat nat_valid for h
proof
  fix r x r'
  assume a: "read_nat h r = (Some x, r')" and r: "rerror r = None" "pos r \<le> length (rdata r)"
  then obtain n r1 p digits where 1: "rd_u16 r = (Some n, r1)" "n \<le> max_nat_bytes"
    "rd_take n r1 = (Some p, r')" "n = 0 \<or> p ! 0 \<noteq> 0" "pn_big_from_bytes h p = Some x"
    "pn_big_string h x = Some digits" "strlen digits \<le> MAX_DIGITS"
    by (auto simp: read_nat_def reader_guards split: if_splits option.splits)
  from u16.sound [OF 1(1) r] have c: "consumes r r1 (be16 n)" by simp
  from rd_take_sound [OF 1(3)] consumed_ready [OF c r(1)] have p: "length p = n" "consumes r1 r' p" by simp_all
  from from_bytes_correct [OF 1(5)] have x: "big_ok x" "big_val x = int (byte_mag 0 p)" by simp_all
  then have s: "0 \<le> sign x" by (simp add: sign_ge_0_iff)
  with x have m: "mag (limbs x) = byte_mag 0 p" by (simp add: big_ok_nonneg)
  have "p = [] \<or> hd p \<noteq> 0" using 1(4) p(1) by (cases p) auto
  then have nb: "nat_bytes (mag (limbs x)) = p" by (simp add: m nat_bytes_byte_mag)
  moreover have "length (show_u (mag (limbs x))) \<le> MAX_DIGITS"
    using 1(7) pn_big_string_show_u [OF x(1) s 1(6)] by (simp add: strlen_show_u)
  ultimately show "nat_valid x \<and> consumes r r' (write_nat x)"
    using x s p c 1(2) by (auto simp: nat_valid_def write_nat_def consumes_append)
next
  show "read_nat h r = (None, r') \<Longrightarrow> rerror r' \<noteq> None" for r r'
    by (rule reportsD [OF reports_read_nat])
qed

section \<open>Running readers over an encoding\<close>

text \<open>\<open>has r bs\<close>: the input at the position of \<open>r\<close> starts with \<open>bs\<close>; \<open>after r bs\<close>: the reader moved past them.\<close>

definition has :: "Reader \<Rightarrow> byte list \<Rightarrow> bool" where
  "has r bs \<longleftrightarrow> pos r + length bs \<le> length (rdata r) \<and> take (length bs) (drop (pos r) (rdata r)) = bs"

definition after :: "Reader \<Rightarrow> byte list \<Rightarrow> Reader" where
  "after r bs = r\<lparr>pos := pos r + length bs\<rparr>"

definition ready :: "Reader \<Rightarrow> bool" where
  "ready r \<longleftrightarrow> rerror r = None \<and> pos r \<le> length (rdata r)"

lemma consumes_has: "consumes r r' bs \<longleftrightarrow> has r bs \<and> r' = after r bs"
  by (auto simp: consumes_def has_def after_def)

lemma after_append [simp]: "after r (xs @ ys) = after (after r xs) ys"
  by (simp add: after_def add.assoc)

lemma after_Nil [simp]: "after r [] = r"
  by (simp add: after_def)

lemma has_Nil [simp]: "ready r \<Longrightarrow> has r []"
  by (simp add: has_def ready_def)

lemma has_append [simp]: "has r (xs @ ys) \<longleftrightarrow> has r xs \<and> has (after r xs) ys"
  using consumes_append [of r "after r (xs @ ys)" xs ys] by (auto simp: consumes_has)

lemma ready_after [simp]: "ready r \<Longrightarrow> has r bs \<Longrightarrow> ready (after r bs)"
  by (simp add: ready_def has_def after_def)

lemma ready_error [simp]: "ready r \<Longrightarrow> rerror r = None"
  by (simp add: ready_def)

context sound_reader
begin

lemma step: "read r = (Some x, r') \<Longrightarrow> ready r \<Longrightarrow> valid x \<and> has r (enc x) \<and> r' = after r (enc x)"
  using sound [of r x r'] by (simp add: ready_def consumes_has)

lemma list_step:
  "read_list read n r = (Some xs, r') \<Longrightarrow> ready r \<Longrightarrow>
     length xs = n \<and> list_all valid xs \<and> has r (concat (map enc xs)) \<and> r' = after r (concat (map enc xs))"
  using list_sound [of n r xs r'] by (simp add: ready_def consumes_has)

lemma reporting [simp]: "reports read"
  using fails by (simp add: reports_def)

end

context exact_reader
begin

lemma run: "has r (enc x) \<Longrightarrow> ready r \<Longrightarrow> valid x \<Longrightarrow> read r = (Some x, after r (enc x))"
  using complete [of x r "after r (enc x)"] by (simp add: consumes_has)

lemma list_run:
  "has r (concat (map enc xs)) \<Longrightarrow> ready r \<Longrightarrow> list_all valid xs \<Longrightarrow>
     read_list read (length xs) r = (Some xs, after r (concat (map enc xs)))"
  using list_complete [of xs r "after r (concat (map enc xs))"] by (simp add: consumes_has)

end

text \<open>The contract is equally the pair of a step rule and a run rule.\<close>

lemma sound_readerI:
  assumes "\<And>r x r'. f r = (Some x, r') \<Longrightarrow> ready r \<Longrightarrow> P x \<and> has r (enc x) \<and> r' = after r (enc x)"
    and "reports f"
  shows "sound_reader f enc P"
  using assms by unfold_locales (simp_all add: ready_def consumes_has reports_def)

lemma exact_readerI:
  assumes "sound_reader f enc P"
    and "\<And>x r. P x \<Longrightarrow> ready r \<Longrightarrow> has r (enc x) \<Longrightarrow> f r = (Some x, after r (enc x))"
  shows "exact_reader f enc P"
  by (intro exact_reader.intro [OF assms(1)] exact_reader_axioms.intro)
    (auto simp: consumes_has has_def ready_def intro!: assms(2))

lemma take_run: "has r bs \<Longrightarrow> rd_take (length bs) r = (Some bs, after r bs)"
  using rd_take_complete [of r "after r bs" bs] by (simp add: consumes_has)

lemma take_step: "rd_take n r = (Some p, r') \<Longrightarrow> ready r \<Longrightarrow> length p = n \<and> has r p \<and> r' = after r p"
  using rd_take_sound [of n r p r'] by (simp add: ready_def consumes_has)

lemmas reader_steps = u8.step u16.step u32.step name.step long.step nat.step take_step
lemmas reader_runs = u8.run u16.run u32.run name_all.run long_all.run take_run

subsection \<open>Natural constants with enough memory\<close>

lemma from_bytes_loop_total:
  "\<forall>n \<le> length (limbs v) + 2 * length bs. room h n \<Longrightarrow> \<exists>w. from_bytes_loop h v bs = Some w"
proof (induction bs arbitrary: v)
  case (Cons b bs)
  moreover have "unat b < BASE" using byte_less [of b] by linarith
  ultimately obtain u where "push_digit h 256 v (unat b) = Some u" "length (limbs u) \<le> length (limbs v) + 2"
    using push_digit_total [of v h "unat b" 256] by auto
  with Cons.IH [of u] Cons.prems show ?case by auto
qed simp

lemma from_bytes_total: "plentiful h \<Longrightarrow> length bs \<le> SIZE_MAX div 8 \<Longrightarrow> \<exists>w. pn_big_from_bytes h bs = Some w"
  using from_bytes_loop_total [of pn_big_init bs h]
  by (auto simp: pn_big_from_bytes_def pn_big_init_def room_def c_types)

lemma string_all: "\<exists>s. pn_big_string (\<lambda>_. True) v = Some s"
  by (simp add: pn_big_string_def)

interpretation nat_all: exact_reader "read_nat (\<lambda>_. True)" write_nat nat_valid
proof (rule exact_readerI [OF nat.sound_reader_axioms])
  fix v r
  assume v: "nat_valid v" and r: "ready r" and has: "has r (write_nat v)"
  define p where "p = nat_bytes (mag (limbs v))"
  from v have ok: "big_ok v" "0 \<le> sign v" "length p \<le> max_nat_bytes"
    "length (show_u (mag (limbs v))) \<le> MAX_DIGITS" by (simp_all add: nat_valid_def p_def)
  have len: "length p < 65536" using ok(3) by (simp add: max_nat_bytes_def MAX_DIGITS_def)
  from len obtain w where w: "pn_big_from_bytes (\<lambda>_. True) p = Some w"
    using from_bytes_total [of "\<lambda>_. True" p] by (auto simp: c_types)
  from from_bytes_correct [OF w] have "big_ok w" "big_val w = big_val v"
    using ok(1,2) by (simp_all add: big_ok_nonneg p_def byte_mag_nat_bytes)
  with ok(1) have "w = v" by (simp add: big_val_inj)
  moreover obtain s where s: "pn_big_string (\<lambda>_. True) v = Some s" using string_all by blast
  moreover from pn_big_string_show_u [OF ok(1,2) s] ok(4) have "strlen s \<le> MAX_DIGITS" by (simp add: strlen_show_u)
  moreover have "length p \<noteq> 0 \<Longrightarrow> p ! 0 \<noteq> 0"
    using nat_bytes_hd [of "mag (limbs v)"] by (cases "mag (limbs v) = 0") (auto simp: p_def hd_conv_nth)
  ultimately show "read_nat (\<lambda>_. True) r = (Some v, after r (write_nat v))"
    using r has len ok(3) w
    by (auto simp: read_nat_def rbind_def write_nat_def u16.run take_run rret_def simp flip: p_def)
qed

subsection \<open>Packed decimal digits\<close>

lemma and_15: "(x::nat) AND 15 = x mod 16"
  using take_bit_eq_mask [of 4 x] by (simp add: take_bit_eq_mod mask_eq_exp_minus_1)

lemma nibble_shift [simp]: "nibble (a # p) (Suc (Suc i)) = nibble p i"
  by (simp add: nibble_def)

lemma nibble_0 [simp]: "nibble (a # p) 0 = unat a div 16" and nibble_1 [simp]: "nibble (a # p) (Suc 0) = unat a mod 16"
  by (simp_all add: nibble_def drop_bit_eq_div and_15)

lemma bcd_loop_shift [simp]: "bcd_loop (a # p) (Suc (Suc i)) n = bcd_loop p i n"
  by (induction n arbitrary: i) (simp_all split: option.splits)

lemma bcd_loop_length: "bcd_loop p i n = Some cs \<Longrightarrow> length cs = n"
  by (induction n arbitrary: i cs) (auto split: if_splits option.splits)

lemma pack_byte: "c < 10 \<Longrightarrow> d < 16 \<Longrightarrow> unat (word_of_nat (16 * c + d) :: byte) = 16 * c + d"
  by (rule unat_byte) simp

lemma split16: "d < 16 \<Longrightarrow> (16 * c + d) div 16 = (c::nat)" "d < 16 \<Longrightarrow> (16 * c + d) mod 16 = d"
  by simp_all

lemma pack_run:
  "\<forall>c \<in> set cs. is_digit_char c \<Longrightarrow>
     bcd_loop (pack cs) 0 (length cs) = Some cs \<and> length (pack cs) = (length cs + 1) div 2 \<and>
     (odd (length cs) \<longrightarrow> unat (pack cs ! (length (pack cs) - 1)) AND 15 = 15)"
proof (induction cs rule: pack.induct)
  case (2 c)
  then have "digit_value c < 10" by (simp add: digit_value_less)
  with 2 show ?case by (simp add: pack_byte and_15 split16 digit_roundtrip del: of_nat_add of_nat_mult)
next
  case (3 c d cs)
  then have "digit_value c < 10" "digit_value d < 10" by (simp_all add: digit_value_less)
  with 3 show ?case
    by (auto simp: pack_byte split16 digit_roundtrip nth_Cons' simp del: of_nat_add of_nat_mult)
qed simp

lemma byte_split:
  "word_of_nat (16 * (unat a div 16) + unat a mod 16) = (a::byte)"
  "unat a mod 16 = 15 \<Longrightarrow> word_of_nat (16 * (unat a div 16) + 15) = (a::byte)"
proof -
  have s: "16 * (unat a div 16) + unat a mod 16 = unat a" by simp
  show "word_of_nat (16 * (unat a div 16) + unat a mod 16) = a" unfolding s by simp
  then show "unat a mod 16 = 15 \<Longrightarrow> word_of_nat (16 * (unat a div 16) + 15) = a" by (simp only:)
qed

lemma pack_step:
  "bcd_loop p 0 n = Some cs \<Longrightarrow> length p = (n + 1) div 2 \<Longrightarrow>
     (odd n \<longrightarrow> unat (p ! (length p - 1)) AND 15 = 15) \<Longrightarrow>
     pack cs = p \<and> (\<forall>c \<in> set cs. is_digit_char c)"
proof (induction cs arbitrary: p n rule: pack.induct)
  case 1
  then show ?case by (cases n) (auto split: if_splits option.splits)
next
  case (2 c)
  then have n: "n = 1" using bcd_loop_length by fastforce
  with 2 obtain a where p: "p = [a]" by (cases p) auto
  with 2 n have "unat a mod 16 = 15" "unat a div 16 \<le> 9" "c = digit_char (unat a div 16)"
    by (auto simp: and_15 split: if_splits)
  then have "word_of_nat (16 * digit_value c + 15) = a" "is_digit_char c"
    using byte_split(2) [of a] by (simp_all del: of_nat_add of_nat_mult)
  with p show ?case by simp
next
  case (3 c d cs)
  then obtain m where n: "n = Suc (Suc m)" using bcd_loop_length [OF 3(2)] by fastforce
  with 3 obtain a q where p: "p = a # q" "length q = (m + 1) div 2" by (cases p) auto
  with 3 n have a: "unat a mod 16 \<le> 9" "unat a div 16 \<le> 9" "c = digit_char (unat a div 16)"
    "d = digit_char (unat a mod 16)" and q: "bcd_loop q 0 m = Some cs"
    by (auto split: if_splits option.splits)
  have "odd m \<longrightarrow> unat (q ! (length q - 1)) AND 15 = 15"
    using 3(4) n p by (cases q) auto
  from 3(1) [OF q p(2) this] have "pack cs = q" "\<forall>c \<in> set cs. is_digit_char c" by simp_all
  moreover have "word_of_nat (16 * digit_value c + digit_value d) = a"
    using a byte_split(1) [of a] by (simp del: of_nat_add of_nat_mult mult_div_mod_eq)
  ultimately show ?case using p a by simp
qed

subsection \<open>Decimal constants\<close>

lemma exponent_step: "x < 65536 \<Longrightarrow> write_exponent (int16 x) = be16 x"
proof -
  assume x: "x < 65536"
  have "int16 x mod 65536 = int x mod 65536" by (simp add: int16_def)
  with x have "nat (int16 x mod 65536) = x" by simp
  then show ?thesis by (simp only: write_exponent_def)
qed

lemma exponent_run:
  assumes "\<bar>e\<bar> \<le> 4096"
  shows "nat (e mod 65536) < 65536 \<and> int16 (nat (e mod 65536)) = e"
proof (cases "0 \<le> e")
  case True
  with assms have "e mod 65536 = e" by simp
  with True assms show ?thesis by (simp add: int16_def)
next
  case False
  with assms have "e mod 65536 = e + 65536"
    using mod_pos_pos_trivial [of "e + 65536" 65536] by simp
  moreover from False assms have "65536 - 4096 \<le> e + 65536" "e + 65536 < 65536" by linarith+
  ultimately show ?thesis by (auto simp: int16_def nat_less_iff)
qed

lemma signed_mag:
  assumes "big_ok v" and "big_val v = (if s then -1 else 1) * int m"
  shows "mag (limbs v) = m" and "sign v \<noteq> 0 \<longrightarrow> sign v = (if s then -1 else 1)"
proof -
  from assms have c: "sign v \<in> {-1, 0, 1}" "sign v = 0 \<Longrightarrow> mag (limbs v) = 0"
    by (auto simp: big_ok_def)
  note p = big_ok_mag_pos [OF assms(1)]
  show "mag (limbs v) = m"
    using assms(2) c by (auto simp: big_val_def split: if_splits)
  show "sign v \<noteq> 0 \<longrightarrow> sign v = (if s then -1 else 1)"
    using assms(2) c p by (auto simp: big_val_def split: if_splits)
qed

lemma signed_val:
  assumes "big_ok v" and "sign v \<noteq> 0 \<longrightarrow> sign v = (if s then -1 else 1)"
  shows "big_val v = (if s then -1 else 1) * int (mag (limbs v))"
  using assms by (cases "sign v = 0") (auto simp: big_val_def big_ok_def)

lemma decimal_step:
  assumes a: "read_decimal_constant h r = (Some c, r')" and r: "ready r"
  shows "\<exists>s v e. c = K_DEC s v e \<and> constant_valid c \<and> has r (write_decimal s v e) \<and>
    r' = after r (write_decimal s v e)"
proof -
  from a [unfolded read_decimal_constant_def reader_guards Let_def rret_def prod.inject option.inject]
  obtain sgn ex n r1 r2 r3 p cs v where
    1: "rd_u8 r = (Some sgn, r1)" "rd_u16 r1 = (Some ex, r2)" "rd_u16 r2 = (Some n, r3)" and
    lim: "\<not> (1 < sgn \<or> n = 0 \<or> 4096 < int16 ex \<or> int16 ex < -4096 \<or> MAX_DIGITS < n)" and
    3: "rd_take ((n + 1) div 2) r3 = (Some p, r')" "bcd_loop p 0 n = Some cs"
      "odd n \<Longrightarrow> unat (p ! ((n + 1) div 2 - 1)) AND 15 = 15" "n > 1 \<Longrightarrow> cs ! 0 \<noteq> CHR ''0''"
      "pn_big_from_digits h cs (if sgn \<noteq> 0 then -1 else 1) = Some v" and
    c: "c = K_DEC (sgn \<noteq> 0) v (int16 ex)"
    by blast
  from lim have 2: "sgn \<le> 1" "n \<noteq> 0" "int16 ex \<le> 4096" "-4096 \<le> int16 ex" "n \<le> MAX_DIGITS" by auto
  note reads = u8.step [OF 1(1) r]
  then have r1: "ready r1" using r by simp
  note reads = reads u16.step [OF 1(2) r1]
  then have r2: "ready r2" using r1 by simp
  note reads = reads u16.step [OF 1(3) r2]
  then have r3: "ready r3" using r2 by simp
  note reads = reads take_step [OF 3(1) r3]
  have p: "pack cs = p" "\<forall>c \<in> set cs. is_digit_char c"
    using pack_step [OF 3(2)] 3(3) reads by auto
  have cs: "length cs = n" by (rule bcd_loop_length [OF 3(2)])
  have digits: "show_u (digits_mag 0 cs) = cs"
    using 2(2) cs p(2) 3(4) by (intro show_u_digits_mag) (auto simp: hd_conv_nth)
  from from_digits_correct [OF 3(5)] have v: "big_ok v"
    "big_val v = (if sgn \<noteq> 0 then -1 else 1) * int (digits_mag 0 cs)" by (simp_all split: if_splits)
  note m = signed_mag [OF v]
  have "of_bool (sgn \<noteq> 0) = sgn" using 2(1) by (cases "sgn = 0") simp_all
  then have "write_decimal (sgn \<noteq> 0) v (int16 ex) = write_u8 sgn @ be16 ex @ be16 n @ p"
    using reads by (simp add: write_decimal_def m(1) digits cs p(1) exponent_step Let_def)
  with c v m reads digits cs 2 show ?thesis by (auto simp: abs_le_iff)
qed

lemma decimal_run:
  assumes v: "constant_valid (K_DEC s v e)" and r: "ready r" and h: "has r (write_decimal s v e)"
  shows "read_decimal_constant (\<lambda>_. True) r = (Some (K_DEC s v e), after r (write_decimal s v e))"
proof -
  define cs where "cs = show_u (mag (limbs v))"
  have ok: "big_ok v" "length cs \<le> 4096" "\<bar>e\<bar> \<le> 4096" "big_val v = (if s then -1 else 1) * int (mag (limbs v))"
    using v signed_val [of v s] by (auto simp: cs_def MAX_DIGITS_def)
  have cs: "\<forall>c \<in> set cs. is_digit_char c" "digits_mag 0 cs = mag (limbs v)"
    using show_u_digits by (auto simp: cs_def)
  have "cs \<noteq> []" by (simp add: cs_def show_u.simps)
  have lead: "length cs > 1 \<Longrightarrow> cs ! 0 \<noteq> CHR ''0''"
    using show_u_hd [of "mag (limbs v)"] by (cases "mag (limbs v) = 0") (auto simp: cs_def hd_conv_nth show_u.simps)
  note p = pack_run [OF cs(1)]
  obtain w where w: "pn_big_from_digits (\<lambda>_. True) cs (if s then -1 else 1) = Some w"
    using from_digits_total [of "\<lambda>_. True" cs] cs(1) ok(2) by (auto simp: c_types)
  from from_digits_correct [OF this] cs(2) ok(1,4) have "w = v" by (intro big_val_inj) (auto split: if_splits)
  with w have w: "pn_big_from_digits (\<lambda>_. True) cs (if s then -1 else 1) = Some v" by simp
  define x where "x = nat (e mod 65536)"
  have x: "x < 65536" "int16 x = e" using exponent_run [OF ok(3)] by (simp_all add: x_def)
  have enc: "write_decimal s v e = write_u8 (of_bool s) @ be16 x @ be16 (length cs) @ pack cs"
    by (simp add: write_decimal_def write_exponent_def x_def cs_def Let_def)
  define r1 r2 r3 where "r1 = after r (write_u8 (of_bool s))" and "r2 = after r1 (be16 x)"
    and "r3 = after r2 (be16 (length cs))"
  from h have at: "has r (write_u8 (of_bool s))" "has r1 (be16 x)" "has r2 (be16 (length cs))" "has r3 (pack cs)"
    by (simp_all add: enc r1_def r2_def r3_def)
  with r have rd: "ready r1" "ready r2" by (simp_all add: r1_def r2_def)
  have "rd_u8 r = (Some (of_bool s), r1)" using u8.run [OF at(1) r] by (simp add: r1_def)
  moreover have "rd_u16 r1 = (Some x, r2)" using u16.run [OF at(2) rd(1) x(1)] by (simp add: r2_def)
  moreover have "rd_u16 r2 = (Some (length cs), r3)" using u16.run [OF at(3) rd(2)] ok(2) by (simp add: r3_def)
  moreover have "rd_take ((length cs + 1) div 2) r3 = (Some (pack cs), after r3 (pack cs))"
    using take_run [OF at(4)] p by simp
  ultimately show ?thesis
    using w p lead ok(2,3) x(2) \<open>cs \<noteq> []\<close>
    by (cases "even (length cs)"; auto simp: read_decimal_constant_def rbind_def Let_def MAX_DIGITS_def abs_le_iff rret_def
        enc r1_def r2_def r3_def split: if_splits)
qed

subsection \<open>Constants\<close>

lemma rd_flag_operator: "rd_flag = rd_operator 1"
  by (intro ext) (simp only: rd_flag_def rd_operator_def)

lemma reports_operator [simp]: "reports (rd_operator n m)"
  by (auto simp: reports_def rd_operator_def rd_fail_def rfail_def split: prod.splits option.splits if_splits)

interpretation operator: exact_reader "rd_operator n m" write_u8 "\<lambda>c. c \<le> n \<and> c < 256" for n m
proof (rule exact_readerI [OF sound_readerI])
  fix r c r' assume "rd_operator n m r = (Some c, r')" "ready r"
  then show "(c \<le> n \<and> c < 256) \<and> has r (write_u8 c) \<and> r' = after r (write_u8 c)"
    by (auto simp: rd_operator_def split: prod.splits option.splits if_splits dest!: u8.step)
qed (auto simp: rd_operator_def u8.run)

lemma reports_decimal [simp]: "reports (read_decimal_constant h)"
  unfolding read_decimal_constant_def Let_def by auto

lemma reports_constant [simp]: "reports (read_constant h)"
  unfolding read_constant_def rd_flag_operator by auto

lemma write_nat_sign [simp]: "write_nat (v\<lparr>sign := s\<rparr>) = write_nat v"
  by (simp add: write_nat_def)

lemma magnitude_write: "write_nat (magnitude v) = write_nat v"
  by (simp add: magnitude_def write_nat_def)

lemma negative_valid:
  assumes "nat_valid n" and "\<not> pn_big_is_zero n"
  shows "constant_valid (K_INT (n\<lparr>sign := -1\<rparr>)) \<and> write_nat (n\<lparr>sign := -1\<rparr>) = write_nat n"
  using assms by (auto simp: nat_valid_def big_ok_def magnitude_def pn_big_is_zero_def write_nat_def)

lemma nonnegative_valid:
  assumes "nat_valid n"
  shows "constant_valid (K_INT n)" and "\<not> sign n < 0"
proof -
  from assms have "magnitude n = n" "big_ok n" "0 \<le> sign n" by (auto simp: nat_valid_def big_ok_def magnitude_def)
  with assms show "constant_valid (K_INT n)" "\<not> sign n < 0" by simp_all
qed

lemma integer_step:
  assumes "rd_flag m r = (Some s, r1)" and "read_nat h r1 = (Some n, r')" and "\<not> (s \<noteq> 0 \<and> pn_big_is_zero n)"
    and "ready r" and "v = (if s \<noteq> 0 then n\<lparr>sign := -1\<rparr> else n)"
  shows "constant_valid (K_INT v) \<and> has r (write_u8 (of_bool (sign v < 0)) @ write_nat v) \<and>
    r' = after r (write_u8 (of_bool (sign v < 0)) @ write_nat v)"
proof -
  from operator.step [OF assms(1) [unfolded rd_flag_operator] assms(4)]
  have s: "s \<le> 1" "has r (write_u8 s)" "r1 = after r (write_u8 s)" by simp_all
  with assms(4) have "ready r1" by simp
  with nat.step [OF assms(2)] have n: "nat_valid n" "has r1 (write_nat n)" "r' = after r1 (write_nat n)" by simp_all
  from s(1) consider "s = 0" | "s = 1" by linarith
  then show ?thesis
    using s n assms(3,5) negative_valid [OF n(1)] nonnegative_valid [OF n(1)] by cases auto
qed

lemma constant_step:
  assumes a: "read_constant h r = (Some c, r')" and r: "ready r"
  shows "constant_valid c \<and> has r (write_constant c) \<and> r' = after r (write_constant c)"
proof -
  from a obtain tag r1 where t: "rd_u8 r = (Some tag, r1)" by (auto simp: read_constant_def reader_flow)
  from u8.step [OF t r] have r1: "ready r1" "has r (write_u8 tag)" "r1 = after r (write_u8 tag)"
    using r by simp_all
  note body = a [unfolded read_constant_def rbind_Some t prod.inject option.inject]
  consider "tag = 0" | "tag = 1" | "tag = 2" | "tag = 3" | "tag = 4" | "tag = 5" | "5 < tag" by linarith
  then show ?thesis
  proof cases
    case 1
    with body obtain n where "read_nat h r1 = (Some n, r')" "c = K_NAT n" by (auto simp: reader_flow)
    with nat.step [OF _ r1(1)] r1 1 show ?thesis by auto
  next
    case 2
    with body obtain s r2 n where "rd_flag ''invalid integer sign'' r1 = (Some s, r2)"
      "read_nat h r2 = (Some n, r')" "\<not> (s \<noteq> 0 \<and> pn_big_is_zero n)"
      "c = K_INT (if s \<noteq> 0 then n\<lparr>sign := -1\<rparr> else n)" by (auto simp: reader_guards)
    with integer_step [OF this(1-3) r1(1) refl] r1 2 show ?thesis by simp
  next
    case 3
    with body decimal_step [OF _ r1(1)] r1 show ?thesis by fastforce
  next
    case 4
    with body obtain s where "rd_text h False r1 = (Some s, r')" "c = K_STR s" by (auto simp: reader_flow)
    with long.step [OF _ r1(1)] r1 4 show ?thesis by auto
  next
    case 5
    with body obtain b where b: "rd_operator 1 ''invalid Bool constant'' r1 = (Some b, r')" "c = K_BOOL (b \<noteq> 0)"
      by (auto simp: reader_flow rd_flag_operator)
    with operator.step [OF b(1) r1(1)] r1 5 show ?thesis by (cases "b = 0"; cases "b = 1") auto
  qed (use body r1 in \<open>auto simp: reader_flow\<close>)
qed

interpretation consts_any: sound_reader "read_constant h" write_constant constant_valid for h
  by (rule sound_readerI [OF constant_step reports_constant])

interpretation consts_all: exact_reader "read_constant (\<lambda>_. True)" write_constant constant_valid
proof (rule exact_readerI [OF consts_any.sound_reader_axioms])
  fix c r assume v: "constant_valid c" "ready r" "has r (write_constant c)"
  note runs = read_constant_def rd_flag_operator rbind_def u8.run operator.run nat_all.run long_all.run
  show "read_constant (\<lambda>_. True) r = (Some c, after r (write_constant c))"
  proof (cases c)
    case (K_INT n)
    from v K_INT have n: "big_ok n" "nat_valid (magnitude n)" by simp_all
    define r2 where "r2 = after (after r (write_u8 1)) (write_u8 (of_bool (sign n < 0)))"
    from v K_INT have "has r2 (write_nat (magnitude n))" "ready r2" by (simp_all add: magnitude_write r2_def)
    then have rn: "read_nat (\<lambda>_. True) r2 = (Some (magnitude n), after r2 (write_nat n))"
      using nat_all.run [of r2 "magnitude n"] n(2) by (simp add: magnitude_write)
    with n(1) v K_INT show ?thesis
      by (cases "sign n < 0")
        (auto simp: runs r2_def pn_big_is_zero_def magnitude_def big_ok_def rret_def)
  qed (use v in \<open>auto simp: runs rret_def intro!: decimal_run\<close>)
qed

subsection \<open>Instructions\<close>

lemma strings_step:
  assumes "sound_reader (rd_text h names) enc P" and "rd_strings h n names r = (Some ss, r')" and "ready r"
  shows "length ss = n \<and> list_all P ss \<and> has r (concat (map enc ss)) \<and> r' = after r (concat (map enc ss))"
  using assms(2,3) sound_reader.list_step [OF assms(1), of n r ss r']
  by (auto simp: rd_strings_def split: if_splits prod.splits)

lemma strings_run:
  assumes "exact_reader (rd_text (\<lambda>_. True) names) enc P" and "has r (concat (map enc ss))" and "ready r"
    and "list_all P ss"
  shows "rd_strings (\<lambda>_. True) (length ss) names r = (Some ss, after r (concat (map enc ss)))"
  using assms(3) exact_reader.list_run [OF assms] ready_after [OF assms(3,2)] by (simp add: rd_strings_def)

lemma read_list_reports: "reports f \<Longrightarrow> reports (read_list f n)"
proof (induction n)
  case (Suc n)
  then have "reports (rbind f (\<lambda>x. rbind (read_list f n) (\<lambda>xs. rret (x # xs))))" by auto
  then show ?case by (auto simp: reports_def)
qed (simp add: reports_def)

lemma reports_strings [simp]: "reports (rd_strings h n names)"
  unfolding reports_def
proof (intro allI impI)
  fix r r' assume a: "rd_strings h n names r = (None, r')"
  obtain ss r1 where l: "read_list (rd_text h names) n r = (ss, r1)" by fastforce
  have "ss = None \<Longrightarrow> rerror r1 \<noteq> None"
    using l reportsD [OF read_list_reports [OF reports_primitives(5)]] by blast
  with a l show "rerror r' \<noteq> None" by (auto simp: rd_strings_def rd_fail_def split: if_splits)
qed

lemma two_names_step:
  "rd_two_names h r = (Some (a, b), r') \<Longrightarrow> ready r \<Longrightarrow>
     name_valid a \<and> name_valid b \<and> has r (write_name a @ write_name b) \<and> r' = after r (write_name a @ write_name b)"
  by (auto simp: rd_two_names_def split: prod.splits option.splits dest!: name.step)

lemma two_names_run:
  "has r (write_name a @ write_name b) \<Longrightarrow> ready r \<Longrightarrow> name_valid a \<Longrightarrow> name_valid b \<Longrightarrow>
     rd_two_names (\<lambda>_. True) r = (Some (a, b), after r (write_name a @ write_name b))"
  by (auto simp: rd_two_names_def name_all.run)

text \<open>The first diagnostic stays.\<close>

definition keeps :: "'a reader \<Rightarrow> bool" where
  "keeps f \<longleftrightarrow> (\<forall>r x r' e. f r = (x, r') \<longrightarrow> rerror r = Some e \<longrightarrow> rerror r' = Some e)"

lemma keepsD: "keeps f \<Longrightarrow> f r = (x, r') \<Longrightarrow> rerror r = Some e \<Longrightarrow> rerror r' = Some e"
  by (auto simp: keeps_def)

lemma keeps_rules [intro!]:
  "keeps (rfail m)"
  "keeps (rret x)"
  "keeps m' \<Longrightarrow> (\<And>x. keeps (f x)) \<Longrightarrow> keeps (rbind m' f)"
  "(b \<Longrightarrow> keeps g) \<Longrightarrow> (\<not> b \<Longrightarrow> keeps g') \<Longrightarrow> keeps (if b then g else g')"
  "(z = None \<Longrightarrow> keeps g) \<Longrightarrow> (\<And>v. z = Some v \<Longrightarrow> keeps (k v)) \<Longrightarrow>
     keeps (case z of None \<Rightarrow> g | Some v \<Rightarrow> k v)"
  by (fastforce simp: keeps_def rfail_def rret_def rd_fail_def rbind_def split: option.splits prod.splits)+

lemma keeps_take [simp]: "keeps (rd_take n)"
  by (auto simp: keeps_def rd_take_def rfail_def rd_fail_def)

lemma keeps_read_list: "keeps f \<Longrightarrow> keeps (read_list f n)"
proof (induction n)
  case (Suc n)
  then have "keeps (rbind f (\<lambda>x. rbind (read_list f n) (\<lambda>xs. rret (x # xs))))" by auto
  then show ?case by (auto simp: keeps_def)
qed (simp add: keeps_def)

lemma keeps_primitives [simp]:
  "keeps rd_u8" "keeps rd_u16" "keeps rd_u32" "keeps (rd_bytes h n)" "keeps (rd_text h name)"
proof -
  show u: "keeps rd_u8" "keeps rd_u16" "keeps rd_u32" "keeps (rd_bytes h n)" for n
    by (auto simp: rd_u8_def rd_u16_def rd_u32_def rd_bytes_def)
  show "keeps (rd_text h name)" using u by (auto simp: rd_text_def)
qed

lemma keeps_operator [simp]: "keeps (rd_operator n m)"
  using keeps_primitives(1)
  by (fastforce simp: keeps_def rd_operator_def rfail_def rd_fail_def split: prod.splits option.splits if_splits)

lemma keeps_strings [simp]: "keeps (rd_strings h n names)"
  unfolding keeps_def rd_strings_def
  by (auto simp: rfail_def rd_fail_def split: prod.splits if_split_asm
      dest: keepsD [OF keeps_read_list [OF keeps_primitives(5)]])

lemma keeps_two_names [simp]: "keeps (rd_two_names h)"
  by (auto simp: keeps_def rd_two_names_def split: prod.splits option.splits
      dest!: keepsD [OF keeps_primitives(5)])

lemma keeps_constants [simp]: "keeps (read_nat h)" "keeps (read_decimal_constant h)" "keeps (read_constant h)"
proof -
  show k: "keeps (read_nat h)" "keeps (read_decimal_constant h)"
    unfolding read_nat_def read_decimal_constant_def Let_def by auto
  then show "keeps (read_constant h)" unfolding read_constant_def rd_flag_operator by auto
qed

lemma keeps_instruction [simp]: "keeps (instruction h)"
  unfolding instruction_def by (auto split: prod.split)

lemma two_names_reports [simp]: "reports (rd_two_names h)"
  unfolding reports_def rd_two_names_def
  by (auto split: prod.splits option.splits dest: name.fails
      dest!: keepsD [OF keeps_primitives(5)] reportsD [OF reports_primitives(5)])

lemma reports_instruction [simp]: "reports (instruction h)"
  unfolding instruction_def by (auto split: prod.split)

context sound_reader
begin

lemma result: "ready r \<Longrightarrow> read r = (Some x, r') \<longleftrightarrow>
    valid x \<and> has r (enc x) \<and> r' = after r (enc x) \<and> fst (read r) = Some x"
  using step [of r x r'] step [of r x "snd (read r)"] by (cases "read r") auto

end

lemma strings_result:
  assumes "sound_reader (rd_text h names) enc P" and "ready r"
  shows "rd_strings h n names r = (Some ss, r') \<longleftrightarrow> length ss = n \<and> list_all P ss \<and>
    has r (concat (map enc ss)) \<and> r' = after r (concat (map enc ss)) \<and> fst (rd_strings h n names r) = Some ss"
  using strings_step [OF assms(1) _ assms(2), of n ss r'] strings_step [OF assms(1) _ assms(2), of n ss "snd (rd_strings h n names r)"]
  by (cases "rd_strings h n names r") auto

lemma two_names_result:
  assumes "ready r"
  shows "rd_two_names h r = (Some (a, b), r') \<longleftrightarrow> name_valid a \<and> name_valid b \<and>
    has r (write_name a @ write_name b) \<and> r' = after r (write_name a @ write_name b) \<and> fst (rd_two_names h r) = Some (a, b)"
  using two_names_step [OF _ assms, of h a b r'] two_names_step [OF _ assms, of h a b "snd (rd_two_names h r)"]
  by (cases "rd_two_names h r") auto

lemmas results = u8.result u16.result u32.result name.result long.result operator.result consts_any.result
  two_names_result strings_result [OF name.sound_reader_axioms] strings_result [OF long.sound_reader_axioms]

lemma instruction_step:
  assumes a: "instruction h r = (Some i, r')" and r: "ready r"
  shows "instruction_valid i \<and> has r (write_instruction i) \<and> r' = after r (write_instruction i)"
proof -
  from a obtain op r1 where t: "rd_u8 r = (Some op, r1)" by (auto simp: instruction_def reader_flow)
  from u8.step [OF t r] have r1: "ready r1" "has r (write_u8 op)" "r1 = after r (write_u8 op)"
    using r by simp_all
  note body = a [unfolded instruction_def rbind_Some t prod.inject option.inject]
  from body r1 show ?thesis
    by (auto simp: reader_flow results split: if_split_asm)
qed

interpretation instr: sound_reader "instruction h" write_instruction instruction_valid for h
  by (rule sound_readerI [OF instruction_step reports_instruction])

lemmas runs = u8.run u16.run u32.run name_all.run long_all.run operator.run consts_all.run two_names_run
  strings_run [OF name_all.exact_reader_axioms] strings_run [OF long_all.exact_reader_axioms]

interpretation instr_all: exact_reader "instruction (\<lambda>_. True)" write_instruction instruction_valid
proof (rule exact_readerI [OF instr.sound_reader_axioms])
  fix i r assume "instruction_valid i" "ready r" "has r (write_instruction i)"
  then show "instruction (\<lambda>_. True) r = (Some i, after r (write_instruction i))"
    by (cases i) (auto simp: instruction_def rbind_def rret_def runs)
qed

section \<open>Functions and programs\<close>

lemma code_step:
  assumes "rd_code h sofar r = (Some (n, is), r')" and r: "ready r"
  shows "length is \<le> 1000000 \<and> n = sofar + length is \<and> n \<le> MAX_INSTRUCTIONS \<and> list_all instruction_valid is \<and>
    has r (be32 (length is) @ concat (map write_instruction is)) \<and>
    r' = after r (be32 (length is) @ concat (map write_instruction is))"
proof -
  from assms obtain k r1 where 1: "rd_u32 r = (Some k, r1)" "k \<le> 1000000" "sofar + k \<le> MAX_INSTRUCTIONS"
    "read_list (instruction h) k r1 = (Some is, r')" "n = sofar + k"
    by (auto simp: rd_code_def reader_guards)
  from u32.step [OF 1(1) r] r have u: "has r (be32 k)" "r1 = after r (be32 k)" "ready r1" by simp_all
  from instr.list_step [OF 1(4) u(3)] u 1 show ?thesis by auto
qed

lemma body_step:
  assumes "rd_body h sofar n r = (Some (ps, m, is), r')" and r: "ready r"
  shows "length ps = n \<and> list_all name_valid ps \<and> length is \<le> 1000000 \<and> m = sofar + length is \<and>
    m \<le> MAX_INSTRUCTIONS \<and> list_all instruction_valid is \<and>
    has r (concat (map write_name ps) @ be32 (length is) @ concat (map write_instruction is)) \<and>
    r' = after r (concat (map write_name ps) @ be32 (length is) @ concat (map write_instruction is))"
proof -
  from assms obtain r1 where 1: "read_list (rd_text h True) n r = (Some ps, r1)"
    "rd_code h sofar r1 = (Some (m, is), r')"
    by (auto simp: rd_body_def split: if_splits prod.splits option.splits)
  from name.list_step [OF 1(1) r] r have p: "ready r1" "r1 = after r (concat (map write_name ps))"
    "length ps = n" "list_all name_valid ps" "has r (concat (map write_name ps))" by simp_all
  from code_step [OF 1(2) p(1)] p show ?thesis by simp
qed

lemma body_run:
  assumes "has r (concat (map write_name ps) @ be32 (length is) @ concat (map write_instruction is))"
    and "ready r" and "list_all name_valid ps" and "list_all instruction_valid is"
    and "length is \<le> 1000000" and "sofar + length is \<le> MAX_INSTRUCTIONS"
  shows "rd_body (\<lambda>_. True) sofar (length ps) r = (Some (ps, sofar + length is, is),
    after r (concat (map write_name ps) @ be32 (length is) @ concat (map write_instruction is)))"
  using assms by (auto simp: rd_body_def rd_code_def rbind_def rret_def name_all.list_run u32.run instr_all.list_run)

lemma functions_step:
  "rd_functions h n sofar r = (Some fs, r') \<Longrightarrow> ready r \<Longrightarrow> sofar \<le> MAX_INSTRUCTIONS \<Longrightarrow>
     length fs = n \<and> list_all function_valid fs \<and>
     sofar + sum_list (map (\<lambda>f. length (ins f)) fs) \<le> MAX_INSTRUCTIONS \<and>
     has r (concat (map write_function fs)) \<and> r' = after r (concat (map write_function fs))"
proof (induction n arbitrary: sofar r fs)
  case (Suc n)
  from Suc.prems obtain name r1 fl r2 np r3 ps m ic r4 gs where
    1: "rd_text h True r = (Some name, r1)" "rd_flags r1 = (Some fl, r2)" "rd_u8 r2 = (Some np, r3)"
      "rd_body h sofar np r3 = (Some (ps, m, ic), r4)" "rd_functions h n m r4 = (Some gs, r')" and
    fs: "fs = \<lparr>fname = name, pure = (fl = 1), is_async = (fl = 2), local_effect = False,
                    params = ps, ins = ic\<rparr> # gs"
    by (auto simp: reader_flow)
  from name.step [OF 1(1) Suc.prems(2)] Suc.prems(2)
  have n: "name_valid name" "has r (write_name name)" "r1 = after r (write_name name)" "ready r1" by simp_all
  from 1(2) have f: "rd_u8 r1 = (Some fl, r2)" "fl \<le> 2" by (auto simp: rd_flags_def reader_guards)
  from u8.step [OF f(1) n(4)] n have f': "has r1 (write_u8 fl)" "r2 = after r1 (write_u8 fl)" "ready r2" by simp_all
  from u8.step [OF 1(3) f'(3)] f' have np: "np < 256" "has r2 (write_u8 np)" "r3 = after r2 (write_u8 np)" "ready r3"
    by simp_all
  note b = body_step [OF 1(4) np(4)]
  then have r4: "ready r4" "m \<le> MAX_INSTRUCTIONS" using np(4) by auto
  have flag: "(if fl = 1 then 1 else if fl = 2 then 2 else 0) = fl" using f(2) by auto
  from Suc.IH [OF 1(5) r4] b n f' np fs flag show ?case
    by (auto simp: function_valid_def write_function_def)
qed simp

lemma functions_run:
  "has r (concat (map write_function fs)) \<Longrightarrow> ready r \<Longrightarrow> list_all function_valid fs \<Longrightarrow>
     sofar + sum_list (map (\<lambda>f. length (ins f)) fs) \<le> MAX_INSTRUCTIONS \<Longrightarrow>
     rd_functions (\<lambda>_. True) (length fs) sofar r = (Some fs, after r (concat (map write_function fs)))"
proof (induction fs arbitrary: sofar r)
  case (Cons f fs)
  let ?fl = "if pure f then 1 else if is_async f then 2 else 0 :: nat"
  define r1 r2 r3 where "r1 = after r (write_name (fname f))" and "r2 = after r1 (write_u8 ?fl)"
    and "r3 = after r2 (write_u8 (length (params f)))"
  note r_defs = r1_def r2_def r3_def
  define code where
    "code = concat (map write_name (params f)) @ be32 (length (ins f)) @ concat (map write_instruction (ins f))"
  have enc: "write_function f = write_name (fname f) @ write_u8 ?fl @ write_u8 (length (params f)) @ code"
    by (simp add: write_function_def code_def)
  from Cons.prems(3) have v: "function_valid f" "list_all function_valid fs" by simp_all
  from Cons.prems(1,2) have at: "has r (write_name (fname f))" "has r1 (write_u8 ?fl)"
    "has r2 (write_u8 (length (params f)))" "has r3 code"
    "has (after r3 code) (concat (map write_function fs))"
    by (simp_all add: enc r_defs)
  with Cons.prems(2) have rd: "ready r1" "ready r2" "ready r3" "ready (after r3 code)"
    by (simp_all add: r_defs)
  have "rd_text (\<lambda>_. True) True r = (Some (fname f), r1)"
    using name_all.run [OF at(1) Cons.prems(2)] v(1) by (simp add: r1_def function_valid_def)
  moreover have "rd_flags r1 = (Some ?fl, r2)"
    using u8.run [OF at(2) rd(1)] by (simp add: r2_def rd_flags_def rbind_def rret_def)
  moreover have "rd_u8 r2 = (Some (length (params f)), r3)"
    using u8.run [OF at(3) rd(2)] v(1) by (simp add: r3_def function_valid_def)
  moreover have "rd_body (\<lambda>_. True) sofar (length (params f)) r3 =
      (Some (params f, sofar + length (ins f), ins f), after r3 code)"
    using body_run [OF at(4) [unfolded code_def] rd(3)] v(1) Cons.prems(4)
    by (simp add: function_valid_def code_def)
  moreover have "rd_functions (\<lambda>_. True) (length fs) (sofar + length (ins f)) (after r3 code) =
      (Some fs, after (after r3 code) (concat (map write_function fs)))"
    using Cons.IH [OF at(5) rd(4) v(2)] Cons.prems(4) by simp
  moreover have "\<lparr>fname = fname f, pure = (?fl = 1), is_async = (?fl = 2), local_effect = False,
      params = params f, ins = ins f\<rparr> = f" using v(1) by (auto simp: function_valid_def)
  ultimately show ?case
    using Cons.prems(2) by (simp add: rbind_def rret_def enc r_defs del: One_nat_def)
qed simp

lemma length_magic [simp]: "length magic = 9"
  by (simp add: magic_def)

lemma decode_parts:
  assumes "decode h bytes = Inr p"
  defines "r0 \<equiv> \<lparr>rdata = bytes, pos = 0, rerror = None\<rparr>"
  obtains r1 r2 r3 r4 fs n where "length bytes \<le> MAX_ARTIFACT" "rd_take 9 r0 = (Some magic, r1)"
    "rd_u16 r1 = (Some 9, r2)" "rd_u16 r2 = (Some n, r3)" "n \<le> MAX_FUNCTIONS"
    "rd_functions h n 0 r3 = (Some fs, r4)" "pos r4 = length (rdata r4)"
    "p = \<lparr>functions = fs, verified_function_order = False\<rparr>"
proof -
  note d = assms(1) [unfolded decode_def Let_def, folded r0_def]
  from d have len: "length bytes \<le> MAX_ARTIFACT" by (rule contrapos_pp) (simp add: not_le)
  obtain m r1 where 1: "rd_take 9 r0 = (m, r1)" by fastforce
  with d len have m: "m = Some magic" by (cases m) (simp_all split: if_split_asm)
  obtain v r2 where 2: "rd_u16 r1 = (v, r2)" by fastforce
  with d len 1 m have v: "v = Some 9" by (cases v) (simp_all split: if_split_asm)
  obtain n' r3 where 3: "rd_u16 r2 = (n', r3)" by fastforce
  with d len 1 m 2 v obtain n where n: "n' = Some n" "n \<le> MAX_FUNCTIONS"
    by (cases n') (simp_all split: if_split_asm)
  obtain fs' r4 where 4: "rd_functions h n 0 r3 = (fs', r4)" by fastforce
  with d len 1 m 2 v 3 n obtain fs where fs: "fs' = Some fs" "rerror r4 = None" "pos r4 = length (rdata r4)"
    "p = \<lparr>functions = fs, verified_function_order = False\<rparr>"
    by (cases "rerror r4"; cases fs') (simp_all add: rd_fail_def split: if_split_asm)
  show thesis by (rule that [OF len 1 [unfolded m] 2 [unfolded v] 3 [unfolded n(1)] n(2) 4 [unfolded fs(1)] fs(3,4)])
qed

lemma decode_sound_encode:
  assumes "decode h bytes = Inr p"
  shows "program_valid p \<and> encode p = bytes"
proof -
  let ?r = "\<lparr>rdata = bytes, pos = 0, rerror = None\<rparr>"
  from assms obtain r1 r2 r3 r4 fs n where 1: "length bytes \<le> MAX_ARTIFACT" "rd_take 9 ?r = (Some magic, r1)"
    "rd_u16 r1 = (Some 9, r2)" "rd_u16 r2 = (Some n, r3)" "n \<le> MAX_FUNCTIONS"
    "rd_functions h n 0 r3 = (Some fs, r4)" "pos r4 = length (rdata r4)"
    and p: "p = \<lparr>functions = fs, verified_function_order = False\<rparr>"
    by (rule decode_parts)
  have r: "ready ?r" by (simp add: ready_def)
  from take_step [OF 1(2) r] r have r1: "has ?r magic" "r1 = after ?r magic" "ready r1" by simp_all
  from u16.step [OF 1(3) r1(3)] r1 have r2: "has r1 (be16 9)" "r2 = after r1 (be16 9)" "ready r2" by simp_all
  from u16.step [OF 1(4) r2(3)] r2 have r3: "has r2 (be16 n)" "r3 = after r2 (be16 n)" "ready r3" by simp_all
  from functions_step [OF 1(6) r3(3)]
  have fs: "length fs = n" "list_all function_valid fs" "sum_list (map (\<lambda>f. length (ins f)) fs) \<le> MAX_INSTRUCTIONS"
    "has r3 (concat (map write_function fs))" "r4 = after r3 (concat (map write_function fs))" by simp_all
  have enc: "encode p = magic @ be16 9 @ be16 n @ concat (map write_function fs)"
    by (simp only: encode_def p Program.simps fs(1))
  have has: "has ?r (encode p)" unfolding enc has_append using r1 r2 r3 fs by blast
  have r4: "r4 = after ?r (encode p)" unfolding enc after_append using r1 r2 r3 fs by blast
  have "encode p = bytes" using has 1(7) unfolding r4 by (simp add: has_def after_def)
  moreover have "length (functions p) = n" "functions p = fs" "\<not> verified_function_order p" by (simp_all add: p fs(1))
  ultimately show ?thesis using fs(2,3) 1(1,5) by (simp add: program_valid_def)
qed

lemma decode_encode:
  assumes v: "program_valid p"
  shows "decode (\<lambda>_. True) (encode p) = Inr p"
proof -
  define bytes where "bytes = encode p"
  define r0 where "r0 = \<lparr>rdata = bytes, pos = 0, rerror = None\<rparr>"
  define r1 r2 r3 where "r1 = after r0 magic" and "r2 = after r1 (be16 9)"
    and "r3 = after r2 (be16 (length (functions p)))"
  note r_defs = r1_def r2_def r3_def
  have "has r0 (encode p)" "ready r0" by (simp_all add: has_def ready_def r0_def bytes_def)
  then have at: "has r0 magic" "has r1 (be16 9)" "has r2 (be16 (length (functions p)))"
    "has r3 (concat (map write_function (functions p)))" and rd: "ready r1" "ready r2" "ready r3"
    by (simp_all add: encode_def r_defs)
  have len: "length (functions p) < 65536" using v by (simp add: program_valid_def MAX_FUNCTIONS_def)
  have "rd_take 9 r0 = (Some magic, r1)" using take_run [OF at(1)] by (simp add: r1_def)
  moreover have "rd_u16 r1 = (Some 9, r2)" using u16.run [OF at(2) rd(1)] by (simp add: r2_def)
  moreover have "rd_u16 r2 = (Some (length (functions p)), r3)"
    using u16.run [OF at(3) rd(2)] len by (simp add: r3_def)
  moreover have "rd_functions (\<lambda>_. True) (length (functions p)) 0 r3 = (Some (functions p), after r0 (encode p))"
    using functions_run [OF at(4) rd(3)] v by (simp add: program_valid_def encode_def r_defs)
  moreover have "pos (after r0 (encode p)) = length (rdata (after r0 (encode p)))" "rerror (after r0 (encode p)) = None"
    by (simp_all add: after_def r0_def bytes_def)
  moreover have "\<lparr>functions = functions p, verified_function_order = False\<rparr> = p" "length bytes \<le> MAX_ARTIFACT"
    "length (functions p) \<le> MAX_FUNCTIONS"
    using v by (simp_all add: program_valid_def bytes_def)
  ultimately show ?thesis
    unfolding decode_def Let_def bytes_def [symmetric] r0_def [symmetric] by simp
qed

text \<open>
  C18. Whatever the memory, an artifact that decodes is the specified encoding of the program it decodes
  to, to the last byte, and the program is within every limit of the format: so no two artifacts decode
  to one program and nothing in the file is skipped or read twice.
\<close>

theorem decode_canonical:
  assumes "decode h bytes = Inr p"
  shows "program_valid p \<and> encode p = bytes"
  using assms by (rule decode_sound_encode)

text \<open>
  C1. With memory available, the decoder accepts exactly the encodings of valid programs, and returns
  that program.
\<close>

theorem decode_exact:
  "decode (\<lambda>_. True) bytes = Inr p \<longleftrightarrow> program_valid p \<and> bytes = encode p"
  using decode_sound_encode [of "\<lambda>_. True" bytes p] decode_encode [of p] by auto

text \<open>A one-function program that returns the empty value.\<close>

definition sample_program :: Program where
  "sample_program = \<lparr>functions = [\<lparr>fname = ''main'', pure = True, is_async = False, local_effect = False,
     params = [''x''], ins = [OP_CONST (K_INT (pn_big_init\<lparr>sign := -1, limbs := [7]\<rparr>)), OP_RETURN]\<rparr>],
     verified_function_order = False\<rparr>"


lemmas write_defs = encode_def magic_def write_function_def write_name_def write_text_def write_u8_def be16_def be32_def
  write_nat_def nat_bytes.simps

lemma sample_bytes:
  "encode sample_program = bytes_of ''PANACKBC'' @ [0, 0, 9, 0, 1, 0, 4] @ bytes_of ''main'' @
     [1, 1, 0, 1] @ bytes_of ''x'' @ [0, 0, 0, 2, 0, 1, 1, 0, 1, 7, 20]"
  by (simp add: sample_program_def write_defs char_byte_def)

lemma sample_valid: "program_valid sample_program"
proof -
  have "utf8 (bytes_of ''main'')" "utf8 (bytes_of ''x'')" by (simp_all add: utf8.simps utf8_lead_def char_byte_def)
  moreover have "big_ok \<lparr>sign = -1, limbs = [7]\<rparr>" by (simp add: big_ok_def canonical_def small_limbs_def)
  moreover have "length (show_u 7) \<le> 4096" "length (nat_bytes 7) \<le> 1" by (simp_all add: show_u.simps nat_bytes.simps)
  ultimately show ?thesis
    unfolding program_valid_def sample_bytes
    by (simp add: sample_program_def function_valid_def name_valid_def nat_valid_def magnitude_def big_ok_def pn_big_init_def
       MAX_FUNCTIONS_def MAX_INSTRUCTIONS_def MAX_ARTIFACT_def MAX_NAME_def MAX_DIGITS_def max_nat_bytes_def)
qed

theorem decode_canonical_witness:
  "program_valid sample_program \<and> encode sample_program = bytes_of ''PANACKBC'' @ [0, 0, 9, 0, 1, 0, 4] @
     bytes_of ''main'' @ [1, 1, 0, 1] @ bytes_of ''x'' @ [0, 0, 0, 2, 0, 1, 1, 0, 1, 7, 20]"
  using decode_canonical [OF decode_encode [OF sample_valid, unfolded sample_bytes]] by simp

end
