(* ===== verification/Render.thy ===== *)
theory Render
  imports Values
begin

text \<open>
  The growable byte buffer, \<open>src/vm/buffer.c\<close>, and the rendering of values, \<open>src/vm/render.c\<close>.

  A \<open>Buffer\<close> holds the bytes written so far and the capacity of its allocation. A writing function
  returns the buffer it leaves behind, or \<open>None\<close> where the C function returns false; the callers drop
  a buffer after a failed write. \<open>show_value\<close> is the text a value is specified to render as.
\<close>

section \<open>The buffer\<close>

record Buffer =
  bdata :: string
  bcapacity :: nat

definition empty_buffer :: Buffer where
  "empty_buffer = \<lparr>bdata = [], bcapacity = 0\<rparr>"

text \<open>The doubling loop. Its start is at least 1, so the guard against 0 never applies.\<close>

function grow_capacity :: "nat \<Rightarrow> nat \<Rightarrow> nat option" where
  "grow_capacity cap need =
     (if cap = 0 \<or> need \<le> cap then Some cap
      else if cap > SIZE_MAX div 2 then None
      else grow_capacity (cap * 2) need)"
  by pat_completeness auto

termination by (relation "measure (\<lambda>(cap, need). need - cap)") auto

definition buffer_add :: "heap \<Rightarrow> string \<Rightarrow> Buffer \<Rightarrow> Buffer option" where
  "buffer_add h s b =
     (let n = length s in
      if n > SIZE_MAX - length (bdata b) - 1 then None
      else
        let need = length (bdata b) + n + 1 in
        if need > bcapacity b then
          case grow_capacity (if bcapacity b \<noteq> 0 then bcapacity b else 64) need of
            None \<Rightarrow> None
          | Some cap \<Rightarrow>
              if h (Chars cap) then Some \<lparr>bdata = bdata b @ s, bcapacity = cap\<rparr> else None
        else Some (b\<lparr>bdata := bdata b @ s\<rparr>))"

definition buffer_text :: "heap \<Rightarrow> string \<Rightarrow> Buffer \<Rightarrow> Buffer option" where
  "buffer_text h s = buffer_add h (cstr s)"

text \<open>Writing one thing and then another, as the operator \<open>&&\<close> chains the calls.\<close>

definition bthen :: "(Buffer \<Rightarrow> Buffer option) \<Rightarrow> (Buffer \<Rightarrow> Buffer option) \<Rightarrow> Buffer \<Rightarrow> Buffer option" where
  "bthen f g b = (case f b of None \<Rightarrow> None | Some b' \<Rightarrow> g b')"

definition bdone :: "Buffer \<Rightarrow> Buffer option" where
  "bdone b = Some b"

section \<open>Rendering\<close>

primrec write_zeros :: "heap \<Rightarrow> nat \<Rightarrow> Buffer \<Rightarrow> Buffer option" where
  "write_zeros h 0 = bdone"
| "write_zeros h (Suc n) = bthen (buffer_text h ''0'') (write_zeros h n)"

definition render_decimal :: "heap \<Rightarrow> Decimal \<Rightarrow> Buffer \<Rightarrow> Buffer option" where
  "render_decimal h d b =
     (case pn_big_string h (coefficient d) of
        None \<Rightarrow> None
      | Some raw \<Rightarrow>
          let minus = (hd raw = CHR ''-'');
              digits = cstr (if minus then tl raw else raw);
              negative = minus \<or> negative_zero d;
              n = length digits
          in bthen (if negative then buffer_text h ''-'' else bdone)
               (if exponent d \<ge> 0 then
                  bthen (buffer_text h digits) (write_zeros h (nat (exponent d)))
                else
                  let places = size_of_int (int32 (- exponent d)) in
                  if places < n then
                    bthen (buffer_add h (take (n - places) digits))
                      (bthen (buffer_text h ''.'') (buffer_add h (drop (n - places) digits)))
                  else
                    bthen (buffer_text h ''0.'')
                      (bthen (write_zeros h (places - n)) (buffer_text h digits))) b)"

definition number_writer :: "heap \<Rightarrow> PnBigInt \<Rightarrow> Buffer \<Rightarrow> Buffer option" where
  "number_writer h v b =
     (case pn_big_string h v of None \<Rightarrow> None | Some number \<Rightarrow> buffer_text h number b)"

definition hex_digit :: "nat \<Rightarrow> char" where
  "hex_digit n = char_of (if n < 10 then n + 48 else n + 87)"

text \<open>\<open>%02x\<close> of one byte.\<close>

definition hex_byte :: "byte \<Rightarrow> string" where
  "hex_byte b = [hex_digit (unat b div 16), hex_digit (unat b mod 16)]"

fun write_hex :: "heap \<Rightarrow> byte list \<Rightarrow> Buffer \<Rightarrow> Buffer option" where
  "write_hex h [] = bdone"
| "write_hex h (x # xs) = bthen (buffer_text h (hex_byte x)) (write_hex h xs)"

text \<open>
  The element loops. \<open>i\<close> is true from the second element on, where the C loops test the index. The
  slots of a map come in pairs; an odd one would make the C loop read behind the array.
\<close>

fun render :: "heap \<Rightarrow> Value \<Rightarrow> bool \<Rightarrow> Buffer \<Rightarrow> Buffer option"
  and render_items :: "heap \<Rightarrow> bool \<Rightarrow> Value list \<Rightarrow> Buffer \<Rightarrow> Buffer option"
  and render_pairs :: "heap \<Rightarrow> bool \<Rightarrow> Value list \<Rightarrow> Buffer \<Rightarrow> Buffer option"
  and render_fields :: "heap \<Rightarrow> bool \<Rightarrow> string list \<Rightarrow> Value list \<Rightarrow> Buffer \<Rightarrow> Buffer option" where
  "render h (VHttpConnection _) display b = buffer_text h ''<HttpConnectionState>'' b"
| "render h (VHttpState _) display b = buffer_text h ''<HttpServerState>'' b"
| "render h (VHttpWriter _) display b = buffer_text h ''<HttpResponseState>'' b"
| "render h (VPath _) display b = buffer_text h ''<Path>'' b"
| "render h (VInstant _) display b = buffer_text h ''<Instant>'' b"
| "render h (VDuration n) display b = bthen (number_writer h n) (buffer_text h ''ns'') b"
| "render h (VNat n) display b = number_writer h n b"
| "render h (VInt n) display b = number_writer h n b"
| "render h VUnit display b = buffer_text h ''()'' b"
| "render h (VRat n d) display b =
     (case (pn_big_string h n, pn_big_string h d) of
        (Some n, Some d) \<Rightarrow> bthen (buffer_text h n) (bthen (buffer_text h ''/'') (buffer_text h d)) b
      | _ \<Rightarrow> None)"
| "render h (VDec d) display b = render_decimal h d b"
| "render h (VStr s) display b =
     bthen (if display then buffer_text h [CHR 0x22] else bdone)
       (bthen (buffer_add h (chars (data s))) (if display then buffer_text h [CHR 0x22] else bdone)) b"
| "render h (VBool x) display b = buffer_text h (if x then ''true'' else ''false'') b"
| "render h VVoid display b = buffer_text h ''void'' b"
| "render h (VBytes xs) display b =
     bthen (buffer_text h ''bytes('') (bthen (write_hex h xs) (buffer_text h '')'')) b"
| "render h (VArray vs) display b =
     bthen (buffer_text h ''['') (bthen (render_items h False vs) (buffer_text h '']'')) b"
| "render h (VSet vs) display b =
     bthen (buffer_text h ''set{'') (bthen (render_items h False vs) (buffer_text h ''}'')) b"
| "render h (VMap vs) display b =
     bthen (buffer_text h ''{'') (bthen (render_pairs h False vs) (buffer_text h ''}'')) b"
| "render h (VVariant name vs) display b =
     bthen (buffer_text h name) (bthen (buffer_text h ''('')
       (bthen (render_items h False vs) (buffer_text h '')''))) b"
| "render h (VRecord name names vs) display b =
     bthen (buffer_text h name) (bthen (buffer_text h ''('')
       (bthen (render_fields h False names vs) (buffer_text h '')''))) b"
| "render h (VRange _ _ _) display b = buffer_text h ''<value>'' b"
| "render h (VIter _) display b = buffer_text h ''<value>'' b"
| "render_items h i [] b = bdone b"
| "render_items h i (v # vs) b =
     bthen (if i then buffer_text h '', '' else bdone) (bthen (render h v True) (render_items h True vs)) b"
| "render_pairs h i [] b = bdone b"
| "render_pairs h i [v] b = None"
| "render_pairs h i (k # v # vs) b =
     bthen (if i then buffer_text h '', '' else bdone)
       (bthen (render h k True) (bthen (buffer_text h '': '')
         (bthen (render h v True) (render_pairs h True vs)))) b"
| "render_fields h i [] [] b = bdone b"
| "render_fields h i (n # ns) (v # vs) b =
     bthen (if i then buffer_text h '', '' else bdone)
       (bthen (buffer_text h n) (bthen (buffer_text h '': '')
         (bthen (render h v True) (render_fields h True ns vs)))) b"
| "render_fields h i _ _ b = None"

section \<open>The specified text\<close>

fun commas :: "bool \<Rightarrow> string list \<Rightarrow> string" where
  "commas i [] = []"
| "commas i (t # ts) = (if i then '', '' else []) @ t @ commas True ts"

fun pair_texts :: "string list \<Rightarrow> string list" where
  "pair_texts (k # v # ts) = (k @ '': '' @ v) # pair_texts ts"
| "pair_texts _ = []"

text \<open>Positional notation of a digit string scaled by a power of ten.\<close>

definition positional :: "string \<Rightarrow> int \<Rightarrow> string" where
  "positional ds e =
     (let n = length ds; places = nat (- e) in
      if e \<ge> 0 then ds @ replicate (nat e) CHR ''0''
      else if places < n then take (n - places) ds @ ''.'' @ drop (n - places) ds
      else ''0.'' @ replicate (places - n) CHR ''0'' @ ds)"

definition decimal_text :: "Decimal \<Rightarrow> string" where
  "decimal_text d =
     (if sign (coefficient d) < 0 \<or> negative_zero d then ''-'' else []) @
     positional (show_u (mag (limbs (coefficient d)))) (exponent d)"

definition quoted :: "bool \<Rightarrow> string \<Rightarrow> string" where
  "quoted display s = (if display then [CHR 0x22] @ s @ [CHR 0x22] else s)"

fun show_value :: "bool \<Rightarrow> Value \<Rightarrow> string" where
  "show_value display (VNat n) = number_text n"
| "show_value display (VInt n) = number_text n"
| "show_value display (VRat n d) = number_text n @ ''/'' @ number_text d"
| "show_value display (VDec d) = decimal_text d"
| "show_value display (VStr s) = quoted display (chars (data s))"
| "show_value display (VBool x) = (if x then ''true'' else ''false'')"
| "show_value display VVoid = ''void''"
| "show_value display VUnit = ''()''"
| "show_value display (VBytes xs) = ''bytes('' @ concat (map hex_byte xs) @ '')''"
| "show_value display (VArray vs) = ''['' @ commas False (map (show_value True) vs) @ '']''"
| "show_value display (VSet vs) = ''set{'' @ commas False (map (show_value True) vs) @ ''}''"
| "show_value display (VMap vs) = ''{'' @ commas False (pair_texts (map (show_value True) vs)) @ ''}''"
| "show_value display (VVariant name vs) = cstr name @ ''('' @ commas False (map (show_value True) vs) @ '')''"
| "show_value display (VRecord name names vs) = cstr name @ ''('' @
     commas False (map2 (\<lambda>n t. cstr n @ '': '' @ t) names (map (show_value True) vs)) @ '')''"
| "show_value display (VDuration n) = number_text n @ ''ns''"
| "show_value display (VInstant _) = ''<Instant>''"
| "show_value display (VPath _) = ''<Path>''"
| "show_value display (VHttpState _) = ''<HttpServerState>''"
| "show_value display (VHttpWriter _) = ''<HttpResponseState>''"
| "show_value display (VHttpConnection _) = ''<HttpConnectionState>''"
| "show_value display (VRange _ _ _) = ''<value>''"
| "show_value display (VIter _) = ''<value>''"

section \<open>Writers\<close>

declare grow_capacity.simps [simp del]

text \<open>
  A writer emits a text when it appends exactly that text wherever it succeeds, and succeeds whenever
  memory is available and the result stays below \<open>2 ^ 62\<close> bytes.
\<close>

definition emits :: "heap \<Rightarrow> (Buffer \<Rightarrow> Buffer option) \<Rightarrow> string \<Rightarrow> bool" where
  "emits h w t \<longleftrightarrow>
     (\<forall>b b'. w b = Some b' \<longrightarrow> bdata b' = bdata b @ t) \<and>
     (plentiful h \<longrightarrow> (\<forall>b. length (bdata b) + length t < 2 ^ 62 \<longrightarrow> (\<exists>b'. w b = Some b')))"

lemma grow_capacity_total: "need \<le> 2 ^ 62 \<Longrightarrow> \<exists>c. grow_capacity cap need = Some c"
  by (induction cap need rule: grow_capacity.induct)
    (subst grow_capacity.simps, auto simp: c_types)

lemma emits_add: "emits h (buffer_add h s) s"
proof -
  have "\<exists>b'. buffer_add h s b = Some b'" if "plentiful h" "length (bdata b) + length s < 2 ^ 62" for b
    using that grow_capacity_total [of "length (bdata b) + length s + 1" "if bcapacity b \<noteq> 0 then bcapacity b else 64"]
    by (auto simp: buffer_add_def Let_def c_types)
  then show ?thesis
    by (auto simp: emits_def buffer_add_def Let_def split: if_splits option.splits)
qed

lemma emits_text: "emits h (buffer_text h s) (cstr s)"
  unfolding buffer_text_def by (rule emits_add)

lemma emits_done: "emits h bdone []"
  by (simp add: emits_def bdone_def)

lemma emits_then:
  assumes "emits h f s" and "emits h g t"
  shows "emits h (bthen f g) (s @ t)"
  unfolding emits_def
proof (intro conjI allI impI)
  fix b b' assume "bthen f g b = Some b'"
  then obtain b1 where "f b = Some b1" "g b1 = Some b'" by (auto simp: bthen_def split: option.splits)
  with assms show "bdata b' = bdata b @ s @ t" by (fastforce simp: emits_def)
next
  fix b :: Buffer assume h: "plentiful h" and l: "length (bdata b) + length (s @ t) < 2 ^ 62"
  then obtain b1 where b1: "f b = Some b1" using assms(1) by (fastforce simp: emits_def)
  with assms(1) have "bdata b1 = bdata b @ s" by (simp add: emits_def)
  with l have "length (bdata b1) + length t < 2 ^ 62" by simp
  with assms(2) h obtain b' where "g b1 = Some b'" unfolding emits_def by blast
  with b1 show "\<exists>b'. bthen f g b = Some b'" by (simp add: bthen_def)
qed

lemma emits_cong: "(\<And>b. w b = w' b) \<Longrightarrow> t = t' \<Longrightarrow> emits h w' t' \<Longrightarrow> emits h w t"
  by (simp add: emits_def)

lemma emits_by: "(\<And>b. w b = w' b) \<Longrightarrow> emits h w' t' \<Longrightarrow> t = t' \<Longrightarrow> emits h w t"
  by (simp add: emits_def)

lemma emits_literal: "cstr s = t \<Longrightarrow> emits h (buffer_text h s) t"
  using emits_text [of h s] by simp

lemma emits_if: "(c \<Longrightarrow> emits h w t) \<Longrightarrow> (\<not> c \<Longrightarrow> emits h w' t') \<Longrightarrow>
    emits h (if c then w else w') (if c then t else t')"
  by simp

lemma string_total: "plentiful h \<Longrightarrow> \<exists>s. pn_big_string h v = Some s"
  by (simp add: pn_big_string_def)

lemma emits_number: "big_ok v \<Longrightarrow> emits h (number_writer h v) (number_text v)"
proof -
  assume v: "big_ok v"
  have "emits h (buffer_text h (number_text v)) (number_text v)" by (rule emits_literal) simp
  moreover have "pn_big_string h v = Some s \<Longrightarrow> s = number_text v" for s
    using v by (rule pn_big_string_text)
  ultimately show ?thesis
    using string_total [of h v] by (auto simp: emits_def number_writer_def split: option.splits)
qed

lemma emits_zeros: "emits h (write_zeros h n) (replicate n CHR ''0'')"
proof (induction n)
  case (Suc n)
  from emits_then [OF emits_literal Suc, of "''0''" "''0''"] show ?case by simp
qed (simp add: emits_done)

lemma cstr_hex_byte [simp]: "cstr (hex_byte x) = hex_byte x"
proof -
  have "hex_digit n \<noteq> CHR 0x00" if "n < 16" for n
  proof
    assume "hex_digit n = CHR 0x00"
    then have "(of_char (hex_digit n) :: nat) = 0" by simp
    with that show False by (simp add: hex_digit_def split: if_splits)
  qed
  moreover have "unat x div 16 < 16" using byte_less [of x] by (intro less_mult_imp_div_less) simp
  ultimately show ?thesis by (simp add: hex_byte_def)
qed

lemma emits_hex: "emits h (write_hex h xs) (concat (map hex_byte xs))"
proof (induction xs)
  case (Cons x xs)
  from emits_then [OF emits_literal Cons, of "hex_byte x" "hex_byte x"] show ?case by simp
qed (simp add: emits_done)

lemma number_text_minus: "hd (number_text v) = CHR ''-'' \<longleftrightarrow> sign v < 0"
proof -
  have "show_u n \<noteq> [] \<and> hd (show_u n) \<noteq> CHR ''-''" for n
  proof -
    have "show_u n \<noteq> []" by (simp add: show_u.simps)
    then have "is_digit_char (hd (show_u n))" using show_u_digits [of n] by simp
    then show ?thesis using \<open>show_u n \<noteq> []\<close> by (auto simp: is_digit_char_def)
  qed
  then show ?thesis by (simp add: number_text_def)
qed

lemma emits_decimal:
  assumes "big_ok (coefficient d)" and "int32_range (exponent d)" and "exponent d \<noteq> - (2 ^ 31)"
  shows "emits h (render_decimal h d) (decimal_text d)"
proof -
  let ?v = "coefficient d" and ?e = "exponent d"
  define ds where "ds = show_u (mag (limbs ?v))"
  define neg where "neg \<longleftrightarrow> sign ?v < 0 \<or> negative_zero d"
  define body where "body = (if 0 \<le> ?e then bthen (buffer_text h ds) (write_zeros h (nat ?e))
    else if nat (- ?e) < length ds then
      bthen (buffer_add h (take (length ds - nat (- ?e)) ds))
        (bthen (buffer_text h ''.'') (buffer_add h (drop (length ds - nat (- ?e)) ds)))
    else bthen (buffer_text h ''0.'') (bthen (write_zeros h (nat (- ?e) - length ds)) (buffer_text h ds)))"
  define all where "all = bthen (if neg then buffer_text h ''-'' else bdone) body"
  have ds: "cstr ds = ds" by (simp add: ds_def)
  have "emits h body (positional ds ?e)"
    unfolding body_def positional_def Let_def
    by (intro emits_if emits_then emits_add emits_literal emits_zeros) (simp_all add: ds)
  then have all: "emits h all (decimal_text d)"
    unfolding all_def decimal_text_def ds_def neg_def
    by (intro emits_then emits_if emits_literal emits_done) simp_all
  have places: "size_of_int (int32 (- ?e)) = nat (- ?e)" if "\<not> 0 \<le> ?e"
  proof -
    have "int32 (- ?e) = - ?e" using assms(2,3) that by (intro int32_id) (simp add: int32_range_def)
    with that assms(2) show ?thesis by (simp add: int32_range_def)
  qed
  have "render_decimal h d = (\<lambda>b. case pn_big_string h ?v of None \<Rightarrow> None | Some _ \<Rightarrow> all b)"
  proof (intro ext)
    fix b show "render_decimal h d b = (case pn_big_string h ?v of None \<Rightarrow> None | Some _ \<Rightarrow> all b)"
    proof (cases "pn_big_string h ?v")
      case (Some s)
      with pn_big_string_text [OF assms(1) Some] number_text_minus [of ?v]
      have "(hd s = CHR ''-'') = (sign ?v < 0)" "cstr (if hd s = CHR ''-'' then tl s else s) = ds"
        by (auto simp: number_text_def ds_def)
      with Some places show ?thesis
        by (simp add: render_decimal_def all_def body_def neg_def Let_def)
    qed (simp add: render_decimal_def)
  qed
  with all string_total [of h ?v] show ?thesis by (auto simp: emits_def split: option.splits)
qed

lemmas emits_writers = emits_then emits_if emits_text emits_done emits_add emits_hex

section \<open>Rendering writes the specified text\<close>

lemma emits_items:
  "\<forall>v \<in> set vs. emits h (render h v True) (show_value True v) \<Longrightarrow>
     emits h (render_items h i vs) (commas i (map (show_value True) vs))"
proof (induction vs arbitrary: i)
  case (Cons v vs)
  have "emits h (bthen (if i then buffer_text h '', '' else bdone) (bthen (render h v True) (render_items h True vs)))
    ((if i then '', '' else []) @ show_value True v @ commas True (map (show_value True) vs))"
    using Cons by (intro emits_then emits_if emits_literal emits_done) simp_all
  then show ?case by (rule emits_cong [rotated 2]) simp_all
qed (rule emits_cong [OF _ _ emits_done], simp_all)

lemma emits_pairs:
  "\<forall>v \<in> set vs. emits h (render h v True) (show_value True v) \<Longrightarrow> even (length vs) \<Longrightarrow>
     emits h (render_pairs h i vs) (commas i (pair_texts (map (show_value True) vs)))"
proof (induction vs arbitrary: i rule: induct_list012)
  case (3 k v vs)
  have "emits h (bthen (if i then buffer_text h '', '' else bdone) (bthen (render h k True) (bthen (buffer_text h '': '')
      (bthen (render h v True) (render_pairs h True vs)))))
    ((if i then '', '' else []) @ show_value True k @ '': '' @ show_value True v @
      commas True (pair_texts (map (show_value True) vs)))"
    using 3 by (intro emits_then emits_if emits_literal emits_done) simp_all
  then show ?case by (rule emits_cong [rotated 2]) simp_all
qed (rule emits_cong [OF _ _ emits_done], simp_all)

lemma emits_fields:
  "\<forall>v \<in> set vs. emits h (render h v True) (show_value True v) \<Longrightarrow> length ns = length vs \<Longrightarrow>
     emits h (render_fields h i ns vs) (commas i (map2 (\<lambda>n t. cstr n @ '': '' @ t) ns (map (show_value True) vs)))"
proof (induction ns vs arbitrary: i rule: list_induct2')
  case (4 n ns v vs)
  have "emits h (bthen (if i then buffer_text h '', '' else bdone) (bthen (buffer_text h n) (bthen (buffer_text h '': '')
      (bthen (render h v True) (render_fields h True ns vs)))))
    ((if i then '', '' else []) @ cstr n @ '': '' @ show_value True v @
      commas True (map2 (\<lambda>n t. cstr n @ '': '' @ t) ns (map (show_value True) vs)))"
    using 4 by (intro emits_then emits_if emits_literal emits_done) simp_all
  then show ?case by (rule emits_cong [rotated 2]) simp_all
qed (rule emits_cong [OF _ _ emits_done], simp_all)

lemma emits_rational:
  assumes "big_ok n" and "big_ok d"
  shows "emits h (render h (VRat n d) display) (show_value display (VRat n d))"
proof -
  have "emits h (bthen (buffer_text h (number_text n)) (bthen (buffer_text h ''/'') (buffer_text h (number_text d))))
      (number_text n @ ''/'' @ number_text d)"
    by (intro emits_then emits_literal) simp_all
  moreover have "pn_big_string h n = Some s \<Longrightarrow> s = number_text n" "pn_big_string h d = Some s \<Longrightarrow> s = number_text d" for s
    using assms by (auto dest: pn_big_string_text)
  ultimately show ?thesis
    using string_total [of h n] string_total [of h d] by (auto simp: emits_def split: option.splits)
qed

text \<open>The values with a decimal exponent that can be negated.\<close>

definition renderable :: "Value \<Rightarrow> bool" where
  "renderable v \<longleftrightarrow> value_ok v \<and> (\<forall>d \<in> set (decimals v). exponent d \<noteq> - (2 ^ 31))"

lemma render_emits: "renderable v \<Longrightarrow> emits h (render h v display) (show_value display v)"
proof (induction v arbitrary: display)
  case (VRat n d)
  then show ?case by (intro emits_rational) (auto simp: renderable_def rat_ok_def)
next
  case (VDec d)
  then show ?case using emits_decimal [of d h] by (auto simp: renderable_def emits_def)
next
  case (VStr s)
  show ?case
    by (rule emits_by, rule render.simps, (rule emits_writers)+) (simp add: quoted_def)
next
  case (VBool x)
  show ?case by (rule emits_by [OF render.simps(13) emits_text]) simp
next
  case (VArray vs)
  then show ?case
    by (intro emits_by [OF render.simps(16) emits_then [OF emits_text emits_then [OF emits_items emits_text]]])
      (auto simp: renderable_def list_all_iff)
next
  case (VSet vs)
  then show ?case
    by (intro emits_by [OF render.simps(17) emits_then [OF emits_text emits_then [OF emits_items emits_text]]])
      (auto simp: renderable_def list_all_iff)
next
  case (VVariant name vs)
  then show ?case
    by (intro emits_by [OF render.simps(19) emits_then [OF emits_text emits_then [OF emits_text
          emits_then [OF emits_items emits_text]]]])
      (auto simp: renderable_def list_all_iff)
next
  case (VMap vs)
  then show ?case
    by (intro emits_by [OF render.simps(18) emits_then [OF emits_text emits_then [OF emits_pairs emits_text]]])
      (auto simp: renderable_def list_all_iff)
next
  case (VRecord name ns vs)
  then show ?case
    by (intro emits_by [OF render.simps(20) emits_then [OF emits_text emits_then [OF emits_text
          emits_then [OF emits_fields emits_text]]]])
      (auto simp: renderable_def list_all_iff)
qed (rule emits_by, rule render.simps, (rule emits_writers emits_number | (simp add: renderable_def; fail))+)+

lemma emits_run:
  assumes "emits h w t" and "plentiful h" and "length t < 2 ^ 62"
  shows "\<exists>b. w empty_buffer = Some b \<and> bdata b = t"
proof -
  have "length (bdata empty_buffer) + length t < 2 ^ 62" using assms(3) by (simp add: empty_buffer_def)
  with assms(1,2) obtain b where "w empty_buffer = Some b" unfolding emits_def by blast
  with assms(1) have "bdata b = bdata empty_buffer @ t" unfolding emits_def by blast
  with \<open>w empty_buffer = Some b\<close> show ?thesis by (simp add: empty_buffer_def)
qed

section \<open>Decimal text denotes the decimal\<close>

text \<open>The rational a positional decimal text denotes.\<close>

definition text_val :: "string \<Rightarrow> rat" where
  "text_val s =
     (let neg = (s \<noteq> [] \<and> hd s = CHR ''-''); t = (if neg then tl s else s);
          whole = takeWhile (\<lambda>c. c \<noteq> CHR ''.'') t; frac = drop (Suc (length whole)) t
      in (if neg then -1 else 1) * (of_nat (digits_mag 0 (whole @ frac)) / 10 ^ length frac))"

lemma digits_mag_zeros: "digits_mag 0 (replicate n CHR ''0'' @ cs) = digits_mag 0 cs"
    "digits_mag 0 (cs @ replicate n CHR ''0'') = digits_mag 0 cs * 10 ^ n"
proof -
  have z: "digits_mag m (replicate n CHR ''0'') = m * 10 ^ n" for m
    by (induction n arbitrary: m) (simp_all add: digits_mag_def digit_value_def)
  show "digits_mag 0 (replicate n CHR ''0'' @ cs) = digits_mag 0 cs"
    using z [of 0] by (simp add: digits_mag_append)
  show "digits_mag 0 (cs @ replicate n CHR ''0'') = digits_mag 0 cs * 10 ^ n"
    using z by (simp add: digits_mag_append)
qed

lemma digit_not_mark: "is_digit_char c \<Longrightarrow> c \<noteq> CHR ''.'' \<and> c \<noteq> CHR ''-''"
  by (auto simp: is_digit_char_def)

lemma takeWhile_digits:
  assumes "\<forall>c \<in> set ds. is_digit_char c"
  shows "takeWhile (\<lambda>c. c \<noteq> CHR ''.'') ds = ds"
    and "takeWhile (\<lambda>c. c \<noteq> CHR ''.'') (ds @ CHR ''.'' # t) = ds"
  using assms digit_not_mark by (auto simp: takeWhile_eq_all_conv takeWhile_append2)

lemma text_val_point:
  assumes "\<forall>c \<in> set w. is_digit_char c"
  shows "w \<noteq> [] \<Longrightarrow> text_val (w @ CHR ''.'' # f) = of_nat (digits_mag 0 (w @ f)) / 10 ^ length f"
    and "text_val (CHR ''-'' # w @ CHR ''.'' # f) = - (of_nat (digits_mag 0 (w @ f)) / 10 ^ length f)"
    and "text_val (CHR ''-'' # w) = - of_nat (digits_mag 0 w)"
    and "w \<noteq> [] \<Longrightarrow> text_val w = of_nat (digits_mag 0 w)"
proof -
  have hd: "hd w \<noteq> CHR ''-''" if "w \<noteq> []" using assms that digit_not_mark [of "hd w"] by simp
  note tw = takeWhile_digits(1) [OF assms] takeWhile_digits(2) [OF assms, of f]
  show "w \<noteq> [] \<Longrightarrow> text_val (w @ CHR ''.'' # f) = of_nat (digits_mag 0 (w @ f)) / 10 ^ length f"
    using hd by (simp add: text_val_def Let_def hd_append tw)
  show "w \<noteq> [] \<Longrightarrow> text_val w = of_nat (digits_mag 0 w)"
    using hd by (simp add: text_val_def Let_def tw)
qed (simp_all add: text_val_def Let_def takeWhile_digits [OF assms])

lemma powi_neg: "e < 0 \<Longrightarrow> x / 10 ^ nat (- e) = x * (10 powi e :: rat)"
  by (simp add: power_int_def field_simps)

lemma positional_val:
  assumes ds: "ds \<noteq> []" "\<forall>c \<in> set ds. is_digit_char c"
  shows "text_val (positional ds e) = of_nat (digits_mag 0 ds) * 10 powi e"
    and "text_val (CHR ''-'' # positional ds e) = - (of_nat (digits_mag 0 ds) * 10 powi e)"
proof -
  let ?n = "length ds" and ?p = "nat (- e)"
  have zero: "is_digit_char CHR ''0''" by (simp add: is_digit_char_def)
  consider "0 \<le> e" | "e < 0" "?p < ?n" | "e < 0" "?n \<le> ?p" by linarith
  then have "text_val (positional ds e) = of_nat (digits_mag 0 ds) * 10 powi e \<and>
    text_val (CHR ''-'' # positional ds e) = - (of_nat (digits_mag 0 ds) * 10 powi e)"
  proof cases
    case 1
    then have "positional ds e = ds @ replicate (nat e) CHR ''0''" by (simp add: positional_def)
    moreover have "\<forall>c \<in> set (ds @ replicate (nat e) CHR ''0''). is_digit_char c" using ds(2) zero by auto
    ultimately show ?thesis
      using text_val_point(3,4) [of "ds @ replicate (nat e) CHR ''0''"] ds(1) 1
      by (simp add: digits_mag_zeros power_int_def)
  next
    case 2
    define w f where "w = take (?n - ?p) ds" and "f = drop (?n - ?p) ds"
    have "\<forall>c \<in> set w. is_digit_char c" "w \<noteq> []" "length f = ?p" "w @ f = ds"
      using ds 2 by (auto simp: w_def f_def dest: in_set_takeD)
    moreover have "positional ds e = w @ CHR ''.'' # f" using 2 by (simp add: positional_def w_def f_def Let_def)
    ultimately show ?thesis
      using text_val_point(1,2) [of w f] 2 by (simp add: powi_neg del: append_eq_conv_conj)
  next
    case 3
    define f where "f = replicate (?p - ?n) CHR ''0'' @ ds"
    have "positional ds e = ''0'' @ CHR ''.'' # f" using 3 by (simp add: positional_def f_def Let_def)
    moreover have "length f = ?p" "digits_mag 0 (''0'' @ f) = digits_mag 0 ds"
      using 3 digits_mag_zeros(1) [of "?p - ?n" ds]
      by (simp_all add: f_def) (simp add: digits_mag_def digit_value_def)
    ultimately show ?thesis
      using text_val_point(1,2) [of "''0''" f] zero 3 by (simp add: powi_neg)
  qed
  then show "text_val (positional ds e) = of_nat (digits_mag 0 ds) * 10 powi e"
    and "text_val (CHR ''-'' # positional ds e) = - (of_nat (digits_mag 0 ds) * 10 powi e)" by simp_all
qed

lemma decimal_text_val:
  assumes "big_ok (coefficient d)" and "negative_zero d \<longrightarrow> sign (coefficient d) = 0"
  shows "text_val (decimal_text d) = dec_val d"
proof -
  let ?v = "coefficient d"
  define ds where "ds = show_u (mag (limbs ?v))"
  have ds: "ds \<noteq> []" "\<forall>c \<in> set ds. is_digit_char c" "digits_mag 0 ds = mag (limbs ?v)"
    using show_u_digits [of "mag (limbs ?v)"] by (auto simp: ds_def show_u.simps)
  have "sign ?v \<in> {-1, 0, 1}" "sign ?v = 0 \<Longrightarrow> mag (limbs ?v) = 0"
    using assms(1) by (auto simp: big_ok_def)
  with positional_val [OF ds(1,2)] ds(3) assms(2) show ?thesis
    by (auto simp: decimal_text_def dec_val_def big_val_def simp flip: ds_def)
qed

text \<open>
  C35. Rendering only appends: wherever it succeeds it has written exactly the specified text of the value
  behind what the buffer held, and with memory available it succeeds for every result below \<open>2 ^ 62\<close> bytes.
\<close>

theorem render_writes_text:
  assumes "renderable v"
  shows "(\<forall>b'. render h v display b = Some b' \<longrightarrow> bdata b' = bdata b @ show_value display v) \<and>
    (plentiful h \<and> length (bdata b) + length (show_value display v) < 2 ^ 62 \<longrightarrow>
      (\<exists>b'. render h v display b = Some b'))"
  using render_emits [OF assms, of h display] by (auto simp: emits_def)

text \<open>
  C36. The text a decimal renders as denotes, read as a positional numeral, exactly the rational value of
  the decimal, for every exponent that can be negated.
\<close>

theorem rendered_decimal_denotes:
  assumes "big_ok (coefficient d)" and "int32_range (exponent d)" and "exponent d \<noteq> - (2 ^ 31)"
    and "negative_zero d \<longrightarrow> sign (coefficient d) = 0"
    and "render_decimal h d empty_buffer = Some b"
  shows "text_val (bdata b) = dec_val d"
proof -
  from emits_decimal [OF assms(1-3), of h] assms(5) have "bdata b = bdata empty_buffer @ decimal_text d"
    unfolding emits_def by blast
  then show ?thesis using decimal_text_val [OF assms(1,4)] by (simp add: empty_buffer_def)
qed

definition sample_decimal :: Decimal where
  "sample_decimal = \<lparr>coefficient = \<lparr>sign = -1, limbs = [1205]\<rparr>, exponent = -3, negative_zero = False\<rparr>"

lemma sample_string: "pn_big_string (\<lambda>_. True) \<lparr>sign = -1, limbs = [1205]\<rparr> = Some ''-1205''"
  by (simp add: pn_big_string_def show_u.simps digit_char_def char_of_def bit_0)

theorem rendered_decimal_denotes_witness:
  "render_decimal (\<lambda>_. True) sample_decimal empty_buffer = Some \<lparr>bdata = ''-1.205'', bcapacity = 64\<rparr> \<and>
   text_val ''-1.205'' = dec_val sample_decimal"
proof -
  have r: "render_decimal (\<lambda>_. True) sample_decimal empty_buffer = Some \<lparr>bdata = ''-1.205'', bcapacity = 64\<rparr>"
    by (simp add: sample_decimal_def render_decimal_def sample_string empty_buffer_def buffer_text_def buffer_add_def
        bthen_def bdone_def grow_capacity.simps int32_def size_of_int_def c_types Let_def)
  then have "text_val (bdata \<lparr>bdata = ''-1.205'', bcapacity = 64\<rparr>) = dec_val sample_decimal"
    by (intro rendered_decimal_denotes [OF _ _ _ _ r])
      (simp_all add: sample_decimal_def big_ok_def canonical_def small_limbs_def int32_range_def)
  with r show ?thesis by simp
qed

theorem render_writes_text_witness:
  "renderable (VArray [VBool True, VVoid]) \<and>
   (\<exists>b'. render (\<lambda>_. True) (VArray [VBool True, VVoid]) True empty_buffer = Some b' \<and> bdata b' = ''[true, void]'')"
  using render_writes_text [of "VArray [VBool True, VVoid]" "\<lambda>_. True" True empty_buffer]
  by (auto simp: renderable_def empty_buffer_def)

text \<open>The bytes of texts put behind one another with what an array writes between two of them.\<close>

definition between :: "byte list" where
  "between = bytes_of ([CHR 0x22] @ '', '' @ [CHR 0x22])"

fun glued :: "byte list list \<Rightarrow> byte list" where
  "glued [] = []"
| "glued [s] = s"
| "glued (s # ss) = s @ between @ glued ss"

lemma utf8_between: "utf8 between"
  by (simp add: between_def utf8.simps char_byte_def)

lemma utf8_glued: "\<forall>s \<in> set ss. utf8 s \<Longrightarrow> utf8 (glued ss)"
  by (induction ss rule: glued.induct) (simp_all add: utf8_append utf8_between utf8.simps)

lemma commas_glued:
  "ss \<noteq> [] \<Longrightarrow> commas i (map (\<lambda>s. quoted True (chars s)) ss) = (if i then '', '' else []) @ quoted True (chars (glued ss))"
  by (induction ss arbitrary: i rule: glued.induct) (simp_all add: quoted_def comp_def between_def)

text \<open>
  C37. Strings in an array are written raw between quotes, whatever they contain. For every list of at least two
  strings the array of them and the array of one single string, which is not equal to it, are rendered as the same
  text, so what is rendered does not tell the values apart.
\<close>

theorem quoted_text_ambiguous:
  assumes "\<forall>s \<in> set ss. text_ok s" and "2 \<le> length ss" and "plentiful h" and "length (glued (map data ss)) < 2 ^ 61"
  shows "text_ok (text_data (glued (map data ss))) \<and>
    \<not> value_equal (VArray (map VStr ss)) (VArray [VStr (text_data (glued (map data ss)))]) \<and>
    (\<exists>b b'. render h (VArray (map VStr ss)) display empty_buffer = Some b \<and>
      render h (VArray [VStr (text_data (glued (map data ss)))]) display empty_buffer = Some b' \<and>
      bdata b = ''['' @ [CHR 0x22] @ chars (glued (map data ss)) @ [CHR 0x22] @ '']'' \<and> bdata b' = bdata b)"
proof -
  let ?u = "text_data (glued (map data ss))" and ?t = "''['' @ [CHR 0x22] @ chars (glued (map data ss)) @ [CHR 0x22] @ '']''"
  have u: "text_ok ?u" using assms(1) utf8_glued [of "map data ss"] by (simp add: text_ok_def text_data_eq)
  have ne: "ss \<noteq> []" using assms(2) by auto
  have s: "show_value display (VArray (map VStr ss)) = ?t"
    using commas_glued [of "map data ss" False] ne by (simp add: quoted_def comp_def)
  have s': "show_value display (VArray [VStr ?u]) = ?t" by (simp add: quoted_def text_data_eq)
  have r: "renderable (VArray (map VStr ss))" "renderable (VArray [VStr ?u])"
    using assms(1) u by (auto simp: renderable_def list_all_iff)
  have l: "length ?t < 2 ^ 62" using assms(4) by simp
  obtain b where b: "render h (VArray (map VStr ss)) display empty_buffer = Some b" "bdata b = ?t"
    using emits_run [OF render_emits [OF r(1), of h display] assms(3)] l unfolding s by blast
  obtain b' where b': "render h (VArray [VStr ?u]) display empty_buffer = Some b'" "bdata b' = ?t"
    using emits_run [OF render_emits [OF r(2), of h display] assms(3)] l unfolding s' by blast
  have "\<not> value_equal (VArray (map VStr ss)) (VArray [VStr ?u])"
    using assms(2) by (cases ss; cases "tl ss") auto
  with u b b' show ?thesis by auto
qed

theorem quoted_text_ambiguous_witness:
  "\<not> value_equal (VArray [VStr (text_data (bytes_of ''a'')), VStr (text_data (bytes_of ''b''))])
      (VArray [VStr (text_data (bytes_of (''a'' @ [CHR 0x22] @ '', '' @ [CHR 0x22] @ ''b'')))]) \<and>
   (\<exists>b b'. render (\<lambda>_. True) (VArray [VStr (text_data (bytes_of ''a'')), VStr (text_data (bytes_of ''b''))]) False empty_buffer = Some b \<and>
      render (\<lambda>_. True) (VArray [VStr (text_data (bytes_of (''a'' @ [CHR 0x22] @ '', '' @ [CHR 0x22] @ ''b'')))]) False empty_buffer = Some b' \<and>
      bdata b' = bdata b)"
proof -
  let ?ss = "[text_data (bytes_of ''a''), text_data (bytes_of ''b'')]"
  have ok: "\<forall>s \<in> set ?ss. text_ok s" by (simp add: text_ok_def text_data_eq utf8.simps char_byte_def)
  have g: "glued (map data ?ss) = bytes_of (''a'' @ [CHR 0x22] @ '', '' @ [CHR 0x22] @ ''b'')" by (simp add: text_data_eq between_def)
  have "length (glued (map data ?ss)) < 2 ^ 61" unfolding g by simp
  from quoted_text_ambiguous [OF ok _ plentiful_all this, of False, unfolded g] show ?thesis by auto
qed

end
