(* ===== verification/Numeric.thy ===== *)
theory Numeric
  imports Values
begin

text \<open>
  Exact arithmetic on values, \<open>src/vm/numeric.c\<close>: greatest common divisors, decimals, reduced
  rationals and the classified binary operators. A result is \<open>Ret v\<close>, a \<open>Trap\<close> with the diagnostic
  and fault kind the source records, or \<open>NoMemory\<close> where the source returns NULL without a diagnostic.

  The binary operators are numbered as in the bytecode: 0 to 4 are plus, minus, times, divide and
  remainder, 5 and 6 equality and inequality, 7 to 10 the order tests, 11 and 12 conjunction and
  disjunction. Decimal exponents are C \<open>int\<close>s, so every exponent computation is reduced by \<open>int32\<close>.
\<close>

section \<open>Greatest common divisor\<close>

definition big_abs_copy :: "heap \<Rightarrow> PnBigInt \<Rightarrow> PnBigInt option" where
  "big_abs_copy h v =
     (case pn_big_copy h v of
        None \<Rightarrow> None
      | Some out \<Rightarrow> Some (if limbs out \<noteq> [] then out\<lparr>sign := 1\<rparr> else out))"

text \<open>The outer \<open>None\<close> is a loop that never ends, the inner one a failed division.\<close>

partial_function (option) gcd_loop :: "heap \<Rightarrow> PnBigInt \<Rightarrow> PnBigInt \<Rightarrow> PnBigInt option option" where
  "gcd_loop h a b =
     (if pn_big_is_zero b then Some (Some a)
      else case pn_big_divmod h a b of
        None \<Rightarrow> Some None
      | Some (q, r) \<Rightarrow> gcd_loop h b (if limbs r \<noteq> [] then r\<lparr>sign := 1\<rparr> else r))"

definition big_gcd :: "heap \<Rightarrow> PnBigInt \<Rightarrow> PnBigInt \<Rightarrow> PnBigInt option" where
  "big_gcd h left right =
     (case big_abs_copy h left of
        None \<Rightarrow> None
      | Some a \<Rightarrow>
          (case big_abs_copy h right of
             None \<Rightarrow> None
           | Some b \<Rightarrow> Option.bind (gcd_loop h a b) id))"

section \<open>Decimal arithmetic\<close>

definition decimal_align ::
  "heap \<Rightarrow> Decimal \<Rightarrow> Decimal \<Rightarrow> (PnBigInt \<times> PnBigInt \<times> int) option" where
  "decimal_align h a b =
     (let e = (if exponent a < exponent b then exponent a else exponent b) in
      case pn_big_copy h (coefficient a) of
        None \<Rightarrow> None
      | Some left \<Rightarrow>
     (case pn_big_copy h (coefficient b) of
        None \<Rightarrow> None
      | Some right \<Rightarrow>
     (case pn_big_pow10 h left (size_of_int (int32 (exponent a - e))) of
        None \<Rightarrow> None
      | Some left \<Rightarrow>
     (case pn_big_pow10 h right (size_of_int (int32 (exponent b - e))) of
        None \<Rightarrow> None
      | Some right \<Rightarrow> Some (left, right, e)))))"

definition value_decimal :: "heap \<Rightarrow> PnBigInt \<Rightarrow> int \<Rightarrow> Value option" where
  "value_decimal h c e = value_new h (VDec \<lparr>coefficient = c, exponent = e, negative_zero = False\<rparr>)"

definition div_zero :: "'a outcome" where
  "div_zero = Trap ''VM trap: division by zero'' VM_FAULT_REQUEST"

text \<open>Counting the factors two and five of the reduced denominator.\<close>

partial_function (option) strip_loop ::
  "heap \<Rightarrow> PnBigInt \<Rightarrow> nat \<Rightarrow> nat \<Rightarrow> (nat \<times> nat) outcome option" where
  "strip_loop h den twos fives =
     (if pn_big_is_one den then Some (Ret (twos, fives))
      else case pn_big_copy h den of
        None \<Rightarrow> Some NoMemory
      | Some probe \<Rightarrow>
          (case pn_big_div_small probe 2 of (half, rem2) \<Rightarrow>
             if rem2 = 0 then strip_loop h half (twos + 1) fives
             else case pn_big_copy h den of
               None \<Rightarrow> Some NoMemory
             | Some probe \<Rightarrow>
                 (case pn_big_div_small probe 5 of (fifth, rem5) \<Rightarrow>
                    if rem5 = 0 then strip_loop h fifth twos (fives + 1)
                    else Some (Trap ''VM trap: non-terminating decimal division requires explicit rounding''
                                 VM_FAULT_REQUEST))))"

fun scale_loop :: "heap \<Rightarrow> nat \<Rightarrow> nat \<Rightarrow> PnBigInt \<Rightarrow> PnBigInt option" where
  "scale_loop h 0 factor num = Some num"
| "scale_loop h (Suc n) factor num =
     (case pn_big_mul_small h num factor of None \<Rightarrow> None | Some v \<Rightarrow> scale_loop h n factor v)"

function shorten :: "PnBigInt \<Rightarrow> int \<Rightarrow> PnBigInt \<times> int" where
  "shorten num e =
     (if e < 0 \<and> hd0 (limbs num) mod 10 = 0
      then shorten (fst (pn_big_div_small num 10)) (e + 1)
      else (num, e))"
  by pat_completeness auto
termination
  by (relation "measure (\<lambda>(num, e). nat (- e))") auto

definition decimal_divide :: "heap \<Rightarrow> Decimal \<Rightarrow> Decimal \<Rightarrow> Value outcome" where
  "decimal_divide h a b =
     (if pn_big_is_zero (coefficient b) then div_zero
      else case big_gcd h (coefficient a) (coefficient b) of
        None \<Rightarrow> NoMemory
      | Some g \<Rightarrow>
     (case pn_big_divmod h (coefficient a) g of
        None \<Rightarrow> NoMemory
      | Some (num, _) \<Rightarrow>
     (case pn_big_divmod h (coefficient b) g of
        None \<Rightarrow> NoMemory
      | Some (den, _) \<Rightarrow>
     let num = (if sign den < 0 then num\<lparr>sign := - sign num\<rparr> else num);
         den = (if sign den < 0 then den\<lparr>sign := - sign den\<rparr> else den) in
     case strip_loop h den 0 0 of
        None \<Rightarrow> NoMemory
      | Some NoMemory \<Rightarrow> NoMemory
      | Some (Trap m k) \<Rightarrow> Trap m k
      | Some (Ret (twos, fives)) \<Rightarrow>
     let places = max twos fives in
     (case scale_loop h (places - twos) 2 num of
        None \<Rightarrow> NoMemory
      | Some num \<Rightarrow>
     (case scale_loop h (places - fives) 5 num of
        None \<Rightarrow> NoMemory
      | Some num \<Rightarrow>
     let e = int32 (int32 (exponent a - exponent b) - int32 (int places)) in
     if pn_big_is_zero num then ret_opt (value_decimal h num 0)
     else case shorten num e of (num, e) \<Rightarrow> ret_opt (value_decimal h num e))))))"

definition decimal_binary_classified :: "heap \<Rightarrow> nat \<Rightarrow> Decimal \<Rightarrow> Decimal \<Rightarrow> Value outcome" where
  "decimal_binary_classified h op a b =
     (if op = 0 \<or> op = 1 \<or> op = 4 then
        case decimal_align h a b of
          None \<Rightarrow> NoMemory
        | Some (left, right, e) \<Rightarrow>
            if op = 0 then
              (case pn_big_add h left right of
                 None \<Rightarrow> NoMemory | Some r \<Rightarrow> ret_opt (value_decimal h r e))
            else if op = 1 then
              (case pn_big_sub h left right of
                 None \<Rightarrow> NoMemory | Some r \<Rightarrow> ret_opt (value_decimal h r e))
            else if pn_big_is_zero right then div_zero
            else (case pn_big_divmod h left right of
                 None \<Rightarrow> NoMemory | Some (q, r) \<Rightarrow> ret_opt (value_decimal h r e))
      else if op = 2 then
        (case pn_big_mul h (coefficient a) (coefficient b) of
           None \<Rightarrow> NoMemory
         | Some r \<Rightarrow> ret_opt (value_decimal h r (int32 (exponent a + exponent b))))
      else if op = 3 then decimal_divide h a b
      else NoMemory)"

section \<open>Rational arithmetic\<close>

definition value_rat_classified :: "heap \<Rightarrow> PnBigInt \<Rightarrow> PnBigInt \<Rightarrow> Value outcome" where
  "value_rat_classified h n d =
     (if pn_big_is_zero d then div_zero
      else case big_gcd h n d of
        None \<Rightarrow> NoMemory
      | Some g \<Rightarrow>
     (case pn_big_divmod h n g of
        None \<Rightarrow> NoMemory
      | Some (nn, _) \<Rightarrow>
     (case pn_big_divmod h d g of
        None \<Rightarrow> NoMemory
      | Some (dd, _) \<Rightarrow>
     let nn = (if sign dd < 0 then nn\<lparr>sign := - sign nn\<rparr> else nn);
         dd = (if sign dd < 0 then dd\<lparr>sign := 1\<rparr> else dd)
     in ret_opt (value_new h (VRat nn dd)))))"

fun rational_operand :: "Value \<Rightarrow> bool" where
  "rational_operand (VRat _ _) = True"
| "rational_operand (VNat _) = True"
| "rational_operand (VInt _) = True"
| "rational_operand _ = False"

text \<open>Numerator and denominator of an operand; the denominator of an integer is \<open>one\<close>.\<close>

fun numerator :: "Value \<Rightarrow> PnBigInt" where
  "numerator (VRat n d) = n"
| "numerator (VNat n) = n"
| "numerator (VInt n) = n"
| "numerator _ = pn_big_init"

fun denominator :: "PnBigInt \<Rightarrow> Value \<Rightarrow> PnBigInt" where
  "denominator one (VRat n d) = d"
| "denominator one _ = one"

definition order_test :: "nat \<Rightarrow> int \<Rightarrow> bool" where
  "order_test op c =
     (if op = 5 then c = 0 else if op = 6 then c \<noteq> 0 else if op = 7 then c < 0
      else if op = 8 then c \<le> 0 else if op = 9 then c > 0 else c \<ge> 0)"

definition rational_binary :: "heap \<Rightarrow> nat \<Rightarrow> Value \<Rightarrow> Value \<Rightarrow> Value outcome" where
  "rational_binary h op a b =
     (case pn_big_from_u64 h 1 of
        None \<Rightarrow> NoMemory
      | Some one \<Rightarrow>
     let an = numerator a; ad = denominator one a; bn = numerator b; bd = denominator one b in
     if op \<ge> 5 \<or> op = 0 \<or> op = 1 then
       (case pn_big_mul h an bd of
          None \<Rightarrow> NoMemory
        | Some left \<Rightarrow>
       (case pn_big_mul h bn ad of
          None \<Rightarrow> NoMemory
        | Some right \<Rightarrow>
            if op \<ge> 5 then ret_opt (value_bool h (order_test op (pn_big_compare left right)))
            else (case (if op = 0 then pn_big_add h left right else pn_big_sub h left right) of
                None \<Rightarrow> NoMemory
              | Some n \<Rightarrow>
                  (case pn_big_mul h ad bd of
                     None \<Rightarrow> NoMemory
                   | Some d \<Rightarrow> value_rat_classified h n d))))
     else if op = 2 \<or> op = 3 then
       (case pn_big_mul h an (if op = 2 then bn else bd) of
          None \<Rightarrow> NoMemory
        | Some n \<Rightarrow>
            (case pn_big_mul h ad (if op = 2 then bd else bn) of
               None \<Rightarrow> NoMemory
             | Some d \<Rightarrow> value_rat_classified h n d))
     else Trap ''VM trap: Rat does not support remainder'' VM_FAULT_FATAL)"

section \<open>The binary operators\<close>

text \<open>\<open>memcmp\<close> of the common prefix, then the lengths.\<close>

fun compare_bytes :: "byte list \<Rightarrow> byte list \<Rightarrow> int" where
  "compare_bytes (x # xs) (y # ys) =
     (if x \<noteq> y then (if x < y then -1 else 1) else compare_bytes xs ys)"
| "compare_bytes xs ys = of_bool (xs \<noteq> []) - of_bool (ys \<noteq> [])"

definition comparable :: "Value \<Rightarrow> Value \<Rightarrow> bool" where
  "comparable a b \<longleftrightarrow>
     kind a = V_DEC \<and> kind b = V_DEC \<or>
     (kind a = V_NAT \<or> kind a = V_INT) \<and> (kind b = V_NAT \<or> kind b = V_INT) \<or>
     kind a = V_STR \<and> kind b = V_STR"

definition integer_kind :: "Value \<Rightarrow> bool" where
  "integer_kind v \<longleftrightarrow> kind v = V_NAT \<or> kind v = V_INT"

definition compare_values :: "Value \<Rightarrow> Value \<Rightarrow> int" where
  "compare_values a b =
     (if kind a = V_DEC \<and> kind b = V_DEC then decimal_compare (as_decimal a) (as_decimal b)
      else if integer_kind a \<and> integer_kind b then pn_big_compare (as_integer a) (as_integer b)
      else if kind a = V_STR \<and> kind b = V_STR then compare_bytes (as_bytes a) (as_bytes b)
      else 0)"

definition string_concat :: "heap \<Rightarrow> byte list \<Rightarrow> byte list \<Rightarrow> Value outcome" where
  "string_concat h s t =
     (if length s > SIZE_MAX - length t then NoMemory
      else if \<not> h (Chars (length s + length t)) then NoMemory
      else ret_opt (value_data h V_STR (s @ t)))"

text \<open>Remainder with the sign of the divisor.\<close>

definition integer_remainder :: "heap \<Rightarrow> PnBigInt \<Rightarrow> PnBigInt \<Rightarrow> PnBigInt option" where
  "integer_remainder h a b =
     (case pn_big_divmod h a b of
        None \<Rightarrow> None
      | Some (q, r) \<Rightarrow>
          if \<not> pn_big_is_zero r \<and> sign a \<noteq> sign b then pn_big_add h r b else Some r)"

definition integer_binary :: "heap \<Rightarrow> nat \<Rightarrow> Value \<Rightarrow> Value \<Rightarrow> PnBigInt \<Rightarrow> PnBigInt \<Rightarrow> Value outcome" where
  "integer_binary h op a b x y =
     (if op \<notin> {0, 1, 2} \<and> pn_big_is_zero y then div_zero
      else case (if op = 0 then pn_big_add h x y
                 else if op = 1 then pn_big_sub h x y
                 else if op = 2 then pn_big_mul h x y
                 else integer_remainder h x y) of
        None \<Rightarrow> NoMemory
      | Some r \<Rightarrow>
          if kind a = V_INT \<or> kind b = V_INT then ret_opt (value_big h VInt r)
          else if sign r < 0 then Trap ''VM trap: Nat underflow'' VM_FAULT_REQUEST
          else ret_opt (value_big h VNat r))"

definition binary_value_classified :: "heap \<Rightarrow> nat \<Rightarrow> Value \<Rightarrow> Value \<Rightarrow> Value outcome" where
  "binary_value_classified h op a b =
     (if op \<le> 10 \<and> rational_operand a \<and> rational_operand b \<and>
         (kind a = V_RAT \<or> kind b = V_RAT \<or> op = 3)
      then rational_binary h op a b
      else if op = 11 \<or> op = 12 then
        (if kind a \<noteq> V_BOOL \<or> kind b \<noteq> V_BOOL
         then Trap ''VM trap: Boolean operator requires Bool'' VM_FAULT_FATAL
         else ret_opt (value_bool h (if op = 11 then as_boolean a \<and> as_boolean b
                                     else as_boolean a \<or> as_boolean b)))
      else if op \<ge> 5 then
        (if op = 5 \<or> op = 6 then ret_opt (value_bool h (value_equal a b \<noteq> (op = 6)))
         else if \<not> comparable a b then Trap ''VM trap: incompatible comparison operands'' VM_FAULT_FATAL
         else ret_opt (value_bool h (order_test op (compare_values a b))))
      else if op = 0 \<and> kind a = V_STR \<and> kind b = V_STR then string_concat h (as_bytes a) (as_bytes b)
      else if kind a = V_DEC \<and> kind b = V_DEC then
        decimal_binary_classified h op (as_decimal a) (as_decimal b)
      else if integer_kind a \<and> integer_kind b then
        integer_binary h op a b (as_integer a) (as_integer b)
      else Trap ''VM trap: incompatible binary operands'' VM_FAULT_FATAL)"

declare shorten.simps [simp del]

section \<open>Greatest common divisors\<close>

definition room_upto :: "heap \<Rightarrow> nat \<Rightarrow> bool" where
  "room_upto h n \<longleftrightarrow> (\<forall>k \<le> n. room h k)"

lemma room_upto_mono: "room_upto h n \<Longrightarrow> m \<le> n \<Longrightarrow> room_upto h m"
  by (simp add: room_upto_def)

lemma room_upto_plentiful: "plentiful h \<Longrightarrow> n \<le> SIZE_MAX div 4 \<Longrightarrow> room_upto h n"
  by (simp add: room_upto_def room_def)

lemma divmod_room:
  "big_ok a \<Longrightarrow> big_ok b \<Longrightarrow> sign b \<noteq> 0 \<Longrightarrow>
     room_upto h (max (length (limbs a)) (length (limbs b) + 1)) \<Longrightarrow>
     \<exists>q r. pn_big_divmod h a b = Some (q, r)"
  using divmod_total [of a b h] by (simp add: room_upto_def)

lemma length_less_abs:
  assumes "big_ok a" and "big_ok b" and "\<bar>big_val a\<bar> \<le> \<bar>big_val b\<bar>"
  shows "length (limbs a) \<le> length (limbs b)"
proof (rule canonical_le_length)
  show "mag (limbs a) \<le> mag (limbs b)" using assms by (simp add: big_val_abs)
qed (use assms in \<open>simp_all add: big_ok_def\<close>)

text \<open>The loop ends on every canonical input: the remainder shrinks.\<close>

lemma gcd_loop_correct:
  assumes "big_ok a" and "big_ok b" and "0 \<le> sign b" and "0 \<le> sign a"
  shows "\<exists>r. gcd_loop h a b = Some r \<and>
    (case r of
       None \<Rightarrow> \<not> room_upto h (max (length (limbs a)) (length (limbs b) + 1))
     | Some g \<Rightarrow> big_ok g \<and> big_val g = gcd (big_val a) (big_val b))"
  using assms
proof (induction "nat (big_val b)" arbitrary: a b rule: less_induct)
  case (less b a)
  note b = less.prems
  show ?case
  proof (cases "sign b = 0")
    case True
    with b have "big_val b = 0" "0 \<le> big_val a" by (simp_all add: big_val_def)
    with True b(1) show ?thesis by (subst gcd_loop.simps) (simp add: pn_big_is_zero_def)
  next
    case nz: False
    show ?thesis
    proof (cases "pn_big_divmod h a b")
      case None
      with divmod_room [OF b(1,2) nz, of h]
      have "\<not> room_upto h (max (length (limbs a)) (length (limbs b) + 1))" by auto
      with None nz show ?thesis by (subst gcd_loop.simps) (simp add: pn_big_is_zero_def)
    next
      case (Some qr)
      obtain q r where qr: "qr = (q, r)" by (cases qr)
      from divmod_correct [OF b(1,2) Some [unfolded qr]]
      have r: "big_ok q" "big_ok r" "big_val a = big_val q * big_val b + big_val r" "\<bar>big_val r\<bar> < \<bar>big_val b\<bar>"
        by simp_all
      define s where "s = (if limbs r \<noteq> [] then r\<lparr>sign := 1\<rparr> else r)"
      have s: "big_ok s" "0 \<le> sign s" "big_val s = \<bar>big_val r\<bar>" "length (limbs s) = length (limbs r)"
        using r(2) by (auto simp: s_def big_ok_def big_val_def abs_mult)
      have bpos: "0 \<le> big_val b" using b(2,3) by (simp add: sign_ge_0_iff)
      with r(4) s(3) have "nat (big_val s) < nat (big_val b)" by simp
      from less.hyps [OF this b(2) s(1,2) b(3)] obtain out where
        out: "gcd_loop h b s = Some out"
        "case out of
           None \<Rightarrow> \<not> room_upto h (max (length (limbs b)) (length (limbs s) + 1))
         | Some g \<Rightarrow> big_ok g \<and> big_val g = gcd (big_val b) (big_val s)" by blast
      have loop: "gcd_loop h a b = Some out"
        using nz out(1) by (subst gcd_loop.simps) (simp add: pn_big_is_zero_def Some qr s_def)
      have "gcd (big_val b) (big_val s) = gcd (big_val a) (big_val b)"
        using gcd_add_mult [of "big_val b" "big_val q" "big_val r"] by (simp add: s(3) r(3) gcd.commute)
      moreover have "length (limbs r) \<le> length (limbs b)" using r(2,4) b(2) by (intro length_less_abs) simp_all
      then have "\<not> room_upto h (max (length (limbs a)) (length (limbs b) + 1))"
        if "\<not> room_upto h (max (length (limbs b)) (length (limbs s) + 1))"
        using that s(4) by (metis (no_types) add_le_mono1 le_add1 le_max_iff_disj max.bounded_iff order.trans order_refl room_upto_mono)
      ultimately show ?thesis using loop out(2) by (auto split: option.splits)
    qed
  qed
qed

lemma big_abs_copy_eq:
  "big_ok v \<Longrightarrow> big_abs_copy h v = (if room h (length (limbs v)) then Some (magnitude v) else None)"
  by (auto simp: big_abs_copy_def pn_big_copy_eq magnitude_def big_ok_def)

lemma magnitude_val: "big_ok v \<Longrightarrow> big_val (magnitude v) = \<bar>big_val v\<bar> \<and> 0 \<le> sign (magnitude v)"
  by (auto simp: magnitude_def big_val_def big_ok_def abs_mult)

lemma big_gcd_correct:
  assumes "big_ok a" and "big_ok b"
  shows "case big_gcd h a b of
      None \<Rightarrow> \<not> room_upto h (max (length (limbs a)) (length (limbs b) + 1))
    | Some g \<Rightarrow> big_ok g \<and> big_val g = gcd (big_val a) (big_val b)"
proof -
  have "room h (length (limbs a)) \<and> room h (length (limbs b))"
    if "room_upto h (max (length (limbs a)) (length (limbs b) + 1))"
    using that by (simp add: room_upto_def)
  moreover have m: "big_ok (magnitude a)" "big_ok (magnitude b)"
    "0 \<le> sign (magnitude b)" "0 \<le> sign (magnitude a)"
    using assms magnitude_val by simp_all
  ultimately show ?thesis
    using gcd_loop_correct [OF m, of h] magnitude_val [OF assms(1)] magnitude_val [OF assms(2)] assms
    by (auto simp: big_gcd_def big_abs_copy_eq split: option.splits)
qed

text \<open>Dividing by a common divisor is exact.\<close>

lemma divmod_exact:
  assumes "big_ok a" and "big_ok g" and "big_val g dvd big_val a" and "pn_big_divmod h a g = Some (q, r)"
  shows "big_ok q \<and> big_val q = big_val a div big_val g \<and> big_val a = big_val q * big_val g"
proof -
  from divmod_correct [OF assms(1,2,4)]
  have q: "big_ok q" "big_val a = big_val q * big_val g + big_val r" "\<bar>big_val r\<bar> < \<bar>big_val g\<bar>"
    by simp_all
  from assms(3) q(2) have "big_val g dvd big_val r" by (simp add: dvd_add_right_iff)
  with q(3) have "big_val r = 0" by (metis dvd_imp_le_int linorder_not_less)
  with q show ?thesis by auto
qed

section \<open>Rationals\<close>

lemma sign_pos_iff: "big_ok v \<Longrightarrow> 0 < sign v \<longleftrightarrow> 0 < big_val v"
  by (metis big_val_sgn sgn_greater)

lemma reduced_quotients:
  assumes n: "big_ok n" and d: "big_ok d" "big_val d \<noteq> 0"
    and g: "big_ok g" "big_val g = gcd (big_val n) (big_val d)"
    and q: "pn_big_divmod h n g = Some (nn, r)" "pn_big_divmod h d g = Some (dd, r')"
  shows "big_ok nn \<and> big_ok dd \<and> big_val dd \<noteq> 0 \<and> coprime (big_val nn) (big_val dd) \<and>
    (of_int (big_val nn) / of_int (big_val dd) :: rat) = of_int (big_val n) / of_int (big_val d)"
proof -
  have g0: "big_val g \<noteq> 0" using g(2) d(2) by simp
  have n': "big_ok nn" "big_val nn = big_val n div big_val g" "big_val n = big_val nn * big_val g"
    using divmod_exact [OF n g(1) _ q(1)] by (simp_all add: g(2))
  have d': "big_ok dd" "big_val dd = big_val d div big_val g" "big_val d = big_val dd * big_val g"
    using divmod_exact [OF d(1) g(1) _ q(2)] by (simp_all add: g(2))
  have "coprime (big_val nn) (big_val dd)"
    unfolding n'(2) d'(2) g(2) using d(2) by (intro div_gcd_coprime) simp
  moreover have "big_val dd \<noteq> 0" using d'(3) d(2) by auto
  moreover have "(of_int (big_val nn) / of_int (big_val dd) :: rat) = of_int (big_val n) / of_int (big_val d)"
    unfolding n'(3) d'(3) using g0 by simp
  ultimately show ?thesis using n'(1) d'(1) by simp
qed

text \<open>The value of a numeric operand as a rational number.\<close>

fun rat_val :: "Value \<Rightarrow> rat" where
  "rat_val (VRat n d) = of_int (big_val n) / of_int (big_val d)"
| "rat_val (VNat n) = of_int (big_val n)"
| "rat_val (VInt n) = of_int (big_val n)"
| "rat_val (VDec d) = dec_val d"
| "rat_val _ = 0"

lemma value_rat_correct:
  assumes "big_ok n" and "big_ok d"
  shows "case value_rat_classified h n d of
      Ret v \<Rightarrow> big_val d \<noteq> 0 \<and> value_ok v \<and> kind v = V_RAT \<and> rat_val v = of_int (big_val n) / of_int (big_val d)
    | Trap m k \<Rightarrow> big_val d = 0 \<and> k = VM_FAULT_REQUEST
    | NoMemory \<Rightarrow> \<not> (h Cell \<and> room_upto h (length (limbs n) + length (limbs d) + 1))"
proof (cases "big_val d = 0")
  case True
  with assms show ?thesis by (simp add: value_rat_classified_def pn_big_is_zero_def div_zero_def big_val_0_iff)
next
  case nz: False
  then have sd: "\<not> pn_big_is_zero d" using assms(2) by (simp add: pn_big_is_zero_def big_val_0_iff)
  let ?L = "length (limbs n) + length (limbs d) + 1"
  show ?thesis
  proof (cases "big_gcd h n d")
    case None
    with big_gcd_correct [OF assms, of h] have "\<not> room_upto h ?L"
      using room_upto_mono [of h ?L "max (length (limbs n)) (length (limbs d) + 1)"] by auto
    with None sd show ?thesis by (simp add: value_rat_classified_def)
  next
    case (Some g)
    with big_gcd_correct [OF assms, of h] have g: "big_ok g" "big_val g = gcd (big_val n) (big_val d)" by simp_all
    have gs: "sign g \<noteq> 0" using g nz by (auto simp: big_val_0_iff [OF g(1), symmetric])
    have lg: "length (limbs g) \<le> length (limbs d)"
      using g nz assms(2) dvd_imp_le_int [of "big_val d" "gcd (big_val n) (big_val d)"]
      by (intro length_less_abs) simp_all
    show ?thesis
    proof (cases "\<exists>nn r dd r'. pn_big_divmod h n g = Some (nn, r) \<and> pn_big_divmod h d g = Some (dd, r')")
      case False
      then have "\<not> room_upto h ?L"
        using divmod_room [OF assms(1) g(1) gs, of h] divmod_room [OF assms(2) g(1) gs, of h] lg
          room_upto_mono [of h ?L "max (length (limbs n)) (length (limbs g) + 1)"]
          room_upto_mono [of h ?L "max (length (limbs d)) (length (limbs g) + 1)"] by auto
      moreover have "value_rat_classified h n d = NoMemory"
        using False sd Some by (auto simp: value_rat_classified_def split: option.splits)
      ultimately show ?thesis by simp
    next
      case True
      then obtain nn r dd r' where q: "pn_big_divmod h n g = Some (nn, r)" "pn_big_divmod h d g = Some (dd, r')"
        by blast
      from reduced_quotients [OF assms nz g q]
      have r: "big_ok nn" "big_ok dd" "big_val dd \<noteq> 0" "coprime (big_val nn) (big_val dd)"
        "(of_int (big_val nn) / of_int (big_val dd) :: rat) = of_int (big_val n) / of_int (big_val d)"
        by simp_all
      define x where "x = (if sign dd < 0 then nn\<lparr>sign := - sign nn\<rparr> else nn)"
      define y where "y = (if sign dd < 0 then dd\<lparr>sign := 1\<rparr> else dd)"
      have sdd: "sign dd \<in> {-1, 1}" using r(2,3) by (auto simp: big_ok_def big_val_def)
      then have y': "sign y = 1" by (auto simp: y_def)
      have xy: "big_ok x" "big_ok y" "big_val x = sign dd * big_val nn" "big_val y = sign dd * big_val dd"
        using r(1,2) sdd by (auto simp: x_def y_def big_ok_def big_val_def)
      have "rat_ok x y" using xy sdd r(4) y' by (auto simp: rat_ok_def)
      moreover have "rat_val (VRat x y) = of_int (big_val n) / of_int (big_val d)"
        using xy sdd r(5) by auto
      moreover have "value_rat_classified h n d = ret_opt (value_new h (VRat x y))"
        using sd Some q by (simp add: value_rat_classified_def Let_def x_def y_def)
      ultimately show ?thesis using nz by (simp add: value_new_def)
    qed
  qed
qed

subsection \<open>Sizes of results\<close>

lemma length_le_power:
  assumes "big_ok v" and "\<bar>big_val v\<bar> < int (BASE ^ k)"
  shows "length (limbs v) \<le> k"
proof (rule ccontr)
  assume "\<not> length (limbs v) \<le> k"
  then have len: "k \<le> length (limbs v) - 1" "limbs v \<noteq> []" by auto
  with assms(1) have "BASE ^ (length (limbs v) - 1) \<le> mag (limbs v)"
    by (intro mag_snoc_ge) (auto simp: big_ok_def canonical_def)
  moreover have "BASE ^ k \<le> BASE ^ (length (limbs v) - 1)" using len(1) by (intro power_increasing) simp_all
  moreover have "mag (limbs v) < BASE ^ k" using assms by (simp add: big_val_abs)
  ultimately show False by linarith
qed

lemma abs_less_power: "big_ok v \<Longrightarrow> length (limbs v) \<le> k \<Longrightarrow> \<bar>big_val v\<bar> < int (BASE ^ k)"
proof -
  assume v: "big_ok v" "length (limbs v) \<le> k"
  have "mag (limbs v) < BASE ^ length (limbs v)" using v(1) by (intro mag_less big_ok_small)
  also have "\<dots> \<le> BASE ^ k" using v(2) by (intro power_increasing) simp_all
  finally show ?thesis using v(1) by (simp only: big_val_abs of_nat_less_iff)
qed

lemma mul_length:
  assumes "big_ok a" "big_ok b" "pn_big_mul h a b = Some c"
  shows "length (limbs c) \<le> length (limbs a) + length (limbs b)"
proof (rule length_le_power)
  have "\<bar>big_val a\<bar> * \<bar>big_val b\<bar> < int (BASE ^ length (limbs a)) * int (BASE ^ length (limbs b))"
    using assms by (intro mult_strict_mono abs_less_power) simp_all
  then show "\<bar>big_val c\<bar> < int (BASE ^ (length (limbs a) + length (limbs b)))"
    using mul_correct [OF assms] by (simp add: abs_mult power_add)
qed (use mul_correct [OF assms] in simp)

lemma add_abs_length:
  assumes "big_ok a" "big_ok b" "big_ok c" "\<bar>big_val c\<bar> \<le> \<bar>big_val a\<bar> + \<bar>big_val b\<bar>"
  shows "length (limbs c) \<le> max (length (limbs a)) (length (limbs b)) + 1"
proof (rule length_le_power [OF assms(3)])
  let ?m = "max (length (limbs a)) (length (limbs b))"
  have "\<bar>big_val a\<bar> + \<bar>big_val b\<bar> < int (BASE ^ ?m) + int (BASE ^ ?m)"
    using assms by (intro add_strict_mono abs_less_power) simp_all
  also have "\<dots> \<le> int (BASE ^ (?m + 1))" by simp
  finally show "\<bar>big_val c\<bar> < int (BASE ^ (?m + 1))" using assms(4) by simp
qed

section \<open>Integer operators\<close>

lemma integer_remainder_correct:
  assumes "big_ok a" "big_ok b" "big_val b \<noteq> 0"
  shows "case integer_remainder h a b of
      None \<Rightarrow> \<not> room_upto h (length (limbs a) + 2 * length (limbs b) + 2)
    | Some r \<Rightarrow> big_ok r \<and> big_val r = big_val a mod big_val b"
proof -
  let ?L = "length (limbs a) + 2 * length (limbs b) + 2"
  from assms have sb: "sign b \<noteq> 0" by (simp add: big_val_0_iff)
  show ?thesis
  proof (cases "pn_big_divmod h a b")
    case None
    with divmod_room [OF assms(1,2) sb, of h] show ?thesis
      using room_upto_mono [of h ?L "max (length (limbs a)) (length (limbs b) + 1)"]
      by (auto simp: integer_remainder_def)
  next
    case (Some qr)
    obtain q r where qr: "qr = (q, r)" by (cases qr)
    from divmod_correct [OF assms(1,2) Some [unfolded qr]]
    have r: "big_ok r" "big_val a = big_val b * big_val q + big_val r" "\<bar>big_val r\<bar> < \<bar>big_val b\<bar>"
      "sign r = 0 \<or> sign r = sign a" by (simp_all add: mult.commute)
    note sgns = big_val_sgn [OF assms(1)] big_val_sgn [OF assms(2)] big_val_sgn [OF r(1)]
    show ?thesis
    proof (cases "sign r \<noteq> 0 \<and> sign a \<noteq> sign b")
      case True
      have opp: "big_val r < 0 \<and> 0 < big_val b \<or> 0 < big_val r \<and> big_val b < 0"
        using True r(4) sgns assms(3) by (auto simp: sgn_if split: if_splits)
      have eq: "big_val a = big_val b * (big_val q - 1) + (big_val r + big_val b)"
        using r(2) by (simp add: algebra_simps)
      have m: "big_val a mod big_val b = big_val r + big_val b"
        using opp r(3) int_mod_pos_eq [OF eq] int_mod_neg_eq [OF eq] by linarith
      have "length (limbs r) \<le> length (limbs b)" using r(1,3) assms(2) by (intro length_less_abs) simp_all
      then have "room_upto h ?L \<Longrightarrow> \<exists>c. pn_big_add h r b = Some c"
        by (intro add_total) (simp add: room_upto_def)
      with True m add_correct [OF r(1) assms(2), of h] show ?thesis
        by (auto simp: integer_remainder_def Some qr pn_big_is_zero_def split: option.splits)
    next
      case False
      then have "big_val r = 0 \<or> 0 < big_val r \<and> 0 < big_val b \<or> big_val r < 0 \<and> big_val b < 0"
        using r(4) sgns assms(3) by (auto simp: sgn_if split: if_splits)
      then have "big_val a mod big_val b = big_val r"
        using r(3) int_mod_pos_eq [OF r(2)] int_mod_neg_eq [OF r(2)] assms(3) by linarith
      with False r(1) show ?thesis by (auto simp: integer_remainder_def Some qr pn_big_is_zero_def)
    qed
  qed
qed

text \<open>The mathematical function of an arithmetic operator on integers.\<close>

definition int_arith :: "nat \<Rightarrow> int \<Rightarrow> int \<Rightarrow> int" where
  "int_arith op x y = (if op = 0 then x + y else if op = 1 then x - y else if op = 2 then x * y else x mod y)"

text \<open>The raw result, before the kind of the value is chosen.\<close>

lemma integer_result:
  assumes ok: "big_ok x" "big_ok y" and "op \<in> {0, 1, 2, 4}" and nz: "op = 4 \<longrightarrow> big_val y \<noteq> 0"
  shows "case (if op = 0 then pn_big_add h x y else if op = 1 then pn_big_sub h x y
               else if op = 2 then pn_big_mul h x y else integer_remainder h x y) of
      None \<Rightarrow> \<not> room_upto h (2 * (length (limbs x) + length (limbs y)) + 2)
    | Some r \<Rightarrow> big_ok r \<and> big_val r = int_arith op (big_val x) (big_val y) \<and>
        length (limbs r) \<le> 2 * (length (limbs x) + length (limbs y)) + 2"
proof -
  let ?L = "2 * (length (limbs x) + length (limbs y)) + 2"
  have up: "room_upto h ?L \<Longrightarrow> n \<le> max (length (limbs x)) (length (limbs y)) + 1 \<Longrightarrow> room h n" for n
    by (simp add: room_upto_def)
  consider (add) "op = 0" | (sub) "op = 1" | (mul) "op = 2" | (rem) "op = 4" using assms(3) by blast
  then show ?thesis
  proof cases
    case add
    have "length (limbs r) \<le> ?L" if "pn_big_add h x y = Some r" for r
      using add_abs_length [OF ok, of r] add_correct [OF ok that] abs_triangle_ineq [of "big_val x" "big_val y"] by simp
    with add add_correct [OF ok, of h] add_total [of x y h] up show ?thesis
      by (fastforce simp: int_arith_def split: option.splits)
  next
    case sub
    have "length (limbs r) \<le> ?L" if "pn_big_sub h x y = Some r" for r
      using add_abs_length [OF ok, of r] sub_correct [OF ok that] abs_triangle_ineq4 [of "big_val x" "big_val y"] by simp
    with sub sub_correct [OF ok, of h] sub_total [of x y h] up show ?thesis
      by (fastforce simp: int_arith_def split: option.splits)
  next
    case mul
    have "room_upto h ?L \<Longrightarrow> room h (length (limbs x) + length (limbs y))" by (simp add: room_upto_def)
    with mul mul_correct [OF ok, of h] mul_total [OF ok, of h] mul_length [OF ok, of h] show ?thesis
      by (fastforce simp: int_arith_def split: option.splits)
  next
    case rem
    have len: "length (limbs r) \<le> ?L" if "big_ok r" "big_val r = big_val x mod big_val y" for r
      using that ok(2) nz rem abs_mod_less [of "big_val y" "big_val x"] length_less_abs [of r y] by simp
    have "room_upto h ?L \<Longrightarrow> room_upto h (length (limbs x) + 2 * length (limbs y) + 2)"
      by (erule room_upto_mono) simp
    with rem len integer_remainder_correct [OF ok, of h] nz show ?thesis
      by (auto simp: int_arith_def split: option.splits)
  qed
qed

lemma integer_binary_correct:
  assumes "big_ok x" "big_ok y" and "op \<in> {0, 1, 2, 4}"
  shows "case integer_binary h op a b x y of
      Ret v \<Rightarrow> \<exists>r. v = (if kind a = V_INT \<or> kind b = V_INT then VInt r else VNat r) \<and> value_ok v \<and>
                 big_val r = int_arith op (big_val x) (big_val y) \<and> \<not> (op = 4 \<and> big_val y = 0)
    | Trap m k \<Rightarrow> k = VM_FAULT_REQUEST \<and>
        (op = 4 \<and> big_val y = 0 \<and> m = ''VM trap: division by zero'' \<or>
         kind a \<noteq> V_INT \<and> kind b \<noteq> V_INT \<and> int_arith op (big_val x) (big_val y) < 0 \<and>
         m = ''VM trap: Nat underflow'')
    | NoMemory \<Rightarrow> \<not> (h Cell \<and> room_upto h (2 * (length (limbs x) + length (limbs y)) + 2))"
proof (cases "op = 4 \<and> big_val y = 0")
  case True
  with assms show ?thesis by (simp add: integer_binary_def pn_big_is_zero_def big_val_0_iff div_zero_def)
next
  case nz: False
  let ?L = "2 * (length (limbs x) + length (limbs y)) + 2"
  let ?res = "if op = 0 then pn_big_add h x y else if op = 1 then pn_big_sub h x y
     else if op = 2 then pn_big_mul h x y else integer_remainder h x y"
  from nz assms have guard: "\<not> (op \<notin> {0, 1, 2} \<and> pn_big_is_zero y)"
    by (auto simp: pn_big_is_zero_def big_val_0_iff)
  from nz have "op = 4 \<longrightarrow> big_val y \<noteq> 0" by simp
  note res = integer_result [OF assms this, of h]
  show ?thesis
  proof (cases ?res)
    case None
    with res guard show ?thesis by (simp only: integer_binary_def if_False option.case outcome.case) simp
  next
    case (Some r)
    with res have r: "big_ok r" "big_val r = int_arith op (big_val x) (big_val y)" "length (limbs r) \<le> ?L"
      by (simp_all only: option.case)
    then have "room_upto h ?L \<Longrightarrow> room h (length (limbs r))" by (simp add: room_upto_def)
    moreover have "integer_binary h op a b x y =
        (if kind a = V_INT \<or> kind b = V_INT then ret_opt (value_big h VInt r)
         else if sign r < 0 then Trap ''VM trap: Nat underflow'' VM_FAULT_REQUEST
         else ret_opt (value_big h VNat r))"
      using guard Some by (simp only: integer_binary_def if_False option.case)
    ultimately show ?thesis
      using r nz sign_ge_0_iff [OF r(1)] by (auto simp: value_big_def pn_big_copy_eq)
  qed
qed

section \<open>Rational operators\<close>

definition one_big :: PnBigInt where
  "one_big = \<lparr>sign = 1, limbs = [1]\<rparr>"

lemma one_big: "big_ok one_big" "big_val one_big = 1" "length (limbs one_big) = 1"
  by (simp_all add: one_big_def big_ok_def canonical_def big_val_def)

lemma from_u64_one: "pn_big_from_u64 h 1 = (if room h 1 then Some one_big else None)"
  by (simp add: pn_big_from_u64_def resize_eq count_limbs_small pn_big_init_def one_big_def)

definition operand_size :: "Value \<Rightarrow> nat" where
  "operand_size v = length (limbs (numerator v)) + length (limbs (denominator one_big v))"

lemma operand_facts:
  assumes "rational_operand v" and "value_ok v"
  shows "big_ok (numerator v) \<and> big_ok (denominator one_big v) \<and> big_val (denominator one_big v) > 0 \<and>
    rat_val v = of_int (big_val (numerator v)) / of_int (big_val (denominator one_big v))"
  using assms by (cases v) (auto simp: one_big rat_ok_def big_val_def [of one_big] sign_pos_iff [symmetric])

definition rat_arith :: "nat \<Rightarrow> rat \<Rightarrow> rat \<Rightarrow> rat" where
  "rat_arith op x y = (if op = 0 then x + y else if op = 1 then x - y else if op = 2 then x * y else x / y)"

text \<open>
  What a rational operator may answer: an exact reduced result, a truth value, the division trap or
  the refusal of remainder, and exhausted memory only when memory of the stated size was refused.
\<close>

definition rational_answer :: "heap \<Rightarrow> nat \<Rightarrow> Value \<Rightarrow> Value \<Rightarrow> Value outcome \<Rightarrow> bool" where
  "rational_answer h op a b out =
     (case out of
        Ret v \<Rightarrow>
          (if op \<ge> 5 then v = VBool (order_test op (three_way (rat_val a) (rat_val b)))
           else op \<noteq> 4 \<and> kind v = V_RAT \<and> value_ok v \<and> rat_val v = rat_arith op (rat_val a) (rat_val b) \<and>
                (op = 3 \<longrightarrow> rat_val b \<noteq> 0))
      | Trap m k \<Rightarrow>
          op = 3 \<and> rat_val b = 0 \<and> k = VM_FAULT_REQUEST \<and> m = ''VM trap: division by zero'' \<or>
          op = 4 \<and> k = VM_FAULT_FATAL
      | NoMemory \<Rightarrow> \<not> (h Cell \<and> room_upto h (2 * (operand_size a + operand_size b) + 3)))"

lemma value_rat_answer:
  assumes ok: "big_ok n" "big_ok d"
    and size: "length (limbs n) + length (limbs d) + 1 \<le> 2 * (operand_size a + operand_size b) + 3"
    and op: "op < 4" and val: "big_val d \<noteq> 0 \<Longrightarrow>
        (of_int (big_val n) / of_int (big_val d) :: rat) = rat_arith op (rat_val a) (rat_val b)"
    and zero: "big_val d = 0 \<longleftrightarrow> op = 3 \<and> rat_val b = 0"
  shows "rational_answer h op a b (value_rat_classified h n d)"
proof (cases "value_rat_classified h n d")
  case (Ret v)
  with value_rat_correct [OF ok, of h] val zero op show ?thesis by (auto simp: rational_answer_def)
next
  case (Trap m k)
  then have "m = ''VM trap: division by zero''"
    by (auto simp: value_rat_classified_def div_zero_def Let_def ret_opt_def split: if_splits option.splits)
  with Trap value_rat_correct [OF ok, of h] zero show ?thesis by (simp add: rational_answer_def)
next
  case NoMemory
  with value_rat_correct [OF ok, of h] room_upto_mono [OF _ size] show ?thesis
    by (auto simp: rational_answer_def)
qed

lemma mul_room:
  "big_ok a \<Longrightarrow> big_ok b \<Longrightarrow> room_upto h n \<Longrightarrow> length (limbs a) + length (limbs b) \<le> n \<Longrightarrow>
     \<exists>c. pn_big_mul h a b = Some c"
  using mul_total [of a b h] by (simp add: room_upto_def)

lemma no_room: "\<not> room_upto h (2 * (operand_size a + operand_size b) + 3) \<Longrightarrow> rational_answer h op a b NoMemory"
  by (simp add: rational_answer_def)

lemma rational_sum:
  assumes a: "rational_operand a" "value_ok a" and b: "rational_operand b" "value_ok b"
    and op: "op = 0 \<or> op = 1"
    and l: "pn_big_mul h (numerator a) (denominator one_big b) = Some l"
    and r: "pn_big_mul h (numerator b) (denominator one_big a) = Some r"
  shows "rational_answer h op a b
    (case (if op = 0 then pn_big_add h l r else pn_big_sub h l r) of
       None \<Rightarrow> NoMemory
     | Some n \<Rightarrow>
         (case pn_big_mul h (denominator one_big a) (denominator one_big b) of
            None \<Rightarrow> NoMemory
          | Some d \<Rightarrow> value_rat_classified h n d))"
proof -
  note fa = operand_facts [OF a] and fb = operand_facts [OF b]
  from fa fb have nz: "big_val (denominator one_big a) \<noteq> 0" "big_val (denominator one_big b) \<noteq> 0" by auto
  have lok: "big_ok l" "length (limbs l) \<le> operand_size a + operand_size b"
    using mul_correct [OF _ _ l] mul_length [OF _ _ l] fa fb by (simp_all add: operand_size_def)
  have rok: "big_ok r" "length (limbs r) \<le> operand_size a + operand_size b"
    using mul_correct [OF _ _ r] mul_length [OF _ _ r] fa fb by (simp_all add: operand_size_def)
  let ?L = "2 * (operand_size a + operand_size b) + 3"
  let ?sum = "if op = 0 then pn_big_add h l r else pn_big_sub h l r"
  show ?thesis
  proof (cases ?sum)
    case None
    have "\<exists>n. ?sum = Some n" if "room_upto h ?L"
      using that lok rok add_total [of l r h] sub_total [of l r h] by (simp add: room_upto_def)
    with None have "\<not> room_upto h ?L" by auto
    with None show ?thesis by (simp add: no_room)
  next
    case (Some n)
    have n: "big_ok n" "length (limbs n) \<le> operand_size a + operand_size b + 1"
      using Some op lok rok add_correct [OF lok(1) rok(1), of h n] sub_correct [OF lok(1) rok(1), of h n]
        add_abs_length [OF lok(1) rok(1), of n] abs_triangle_ineq [of "big_val l" "big_val r"]
        abs_triangle_ineq4 [of "big_val l" "big_val r"]
      by (auto split: if_splits)
    show ?thesis
    proof (cases "pn_big_mul h (denominator one_big a) (denominator one_big b)")
      case None
      with mul_room [of "denominator one_big a" "denominator one_big b" h ?L] fa fb
      have "\<not> room_upto h ?L" by (auto simp: operand_size_def)
      with None Some show ?thesis by (simp add: no_room)
    next
      case d: (Some d)
      have "big_val d \<noteq> 0 \<and> (of_int (big_val n) / of_int (big_val d) :: rat) = rat_arith op (rat_val a) (rat_val b)"
        using Some op fa fb
          big.frac_add [OF _ _ _ _ nz l r _ d, of n] big.frac_sub [OF _ _ _ _ nz l r _ d, of n]
        by (auto simp: rat_arith_def split: if_splits)
      moreover have "big_ok d" "length (limbs d) \<le> operand_size a + operand_size b"
        using mul_correct [OF _ _ d] mul_length [OF _ _ d] fa fb by (simp_all add: operand_size_def)
      ultimately have "rational_answer h op a b (value_rat_classified h n d)"
        using n op by (intro value_rat_answer) auto
      with Some d show ?thesis by simp
    qed
  qed
qed

lemma rational_product:
  assumes a: "rational_operand a" "value_ok a" and b: "rational_operand b" "value_ok b"
    and op: "op = 2 \<or> op = 3"
  shows "rational_answer h op a b
    (case pn_big_mul h (numerator a) (if op = 2 then numerator b else denominator one_big b) of
       None \<Rightarrow> NoMemory
     | Some n \<Rightarrow>
         (case pn_big_mul h (denominator one_big a) (if op = 2 then denominator one_big b else numerator b) of
            None \<Rightarrow> NoMemory
          | Some d \<Rightarrow> value_rat_classified h n d))"
proof -
  note fa = operand_facts [OF a] and fb = operand_facts [OF b]
  define x where "x = (if op = 2 then numerator b else denominator one_big b)"
  define y where "y = (if op = 2 then denominator one_big b else numerator b)"
  have xy: "big_ok x" "big_ok y" using fb by (simp_all add: x_def y_def)
  have size: "length (limbs x) + length (limbs y) = operand_size b"
    by (simp add: x_def y_def operand_size_def)
  let ?L = "2 * (operand_size a + operand_size b) + 3"
  show ?thesis
  proof (cases "\<exists>n d. pn_big_mul h (numerator a) x = Some n \<and> pn_big_mul h (denominator one_big a) y = Some d")
    case False
    then have "\<not> room_upto h ?L"
      using mul_room [of "numerator a" x h ?L] mul_room [of "denominator one_big a" y h ?L] fa xy size
      by (auto simp: operand_size_def [of a])
    with False show ?thesis
      unfolding x_def [symmetric] y_def [symmetric] by (auto simp: no_room split: option.splits)
  next
    case True
    then obtain n d where n: "pn_big_mul h (numerator a) x = Some n"
      and d: "pn_big_mul h (denominator one_big a) y = Some d" by blast
    from big.frac_mul [OF _ _ xy n d] fa
    have nd: "big_ok n" "big_ok d" "big_val d = 0 \<longleftrightarrow> big_val y = 0"
      "(of_int (big_val n) / of_int (big_val d) :: rat) = rat_val a * (of_int (big_val x) / of_int (big_val y))"
      by auto
    have "length (limbs n) + length (limbs d) + 1 \<le> ?L"
      using mul_length [OF _ xy(1) n] mul_length [OF _ xy(2) d] fa size by (simp add: operand_size_def [of a])
    then have "rational_answer h op a b (value_rat_classified h n d)"
      using nd op fb by (intro value_rat_answer) (auto simp: x_def y_def rat_arith_def)
    with n d show ?thesis unfolding x_def [symmetric] y_def [symmetric] by simp
  qed
qed

lemma rational_binary_correct:
  assumes a: "rational_operand a" "value_ok a" and b: "rational_operand b" "value_ok b"
    and op: "op \<le> 10"
  shows "rational_answer h op a b (rational_binary h op a b)"
proof (cases "room h 1")
  case False
  then have "\<not> room_upto h (2 * (operand_size a + operand_size b) + 3)"
    by (metis le_add2 le_trans one_le_numeral room_upto_def)
  with False show ?thesis by (simp add: rational_binary_def from_u64_one [simplified] no_room)
next
  case one: True
  note fa = operand_facts [OF a] and fb = operand_facts [OF b]
  let ?L = "2 * (operand_size a + operand_size b) + 3"
  consider "op = 4" | "op = 2 \<or> op = 3" | (cross) "op \<ge> 5 \<or> op = 0 \<or> op = 1" by linarith
  then show ?thesis
  proof cases
    case 1
    with one show ?thesis by (simp add: rational_binary_def from_u64_one [simplified] rational_answer_def)
  next
    case 2
    with rational_product [OF a b 2, of h] one show ?thesis
      by (auto simp: rational_binary_def from_u64_one [simplified] Let_def)
  next
    case cross
    show ?thesis
    proof (cases "\<exists>l r. pn_big_mul h (numerator a) (denominator one_big b) = Some l \<and>
        pn_big_mul h (numerator b) (denominator one_big a) = Some r")
      case False
      then have "\<not> room_upto h ?L"
        using mul_room [of "numerator a" "denominator one_big b" h ?L] fa fb
          mul_room [of "numerator b" "denominator one_big a" h ?L] by (auto simp: operand_size_def)
      moreover have "rational_binary h op a b = NoMemory"
        using False one cross
        by (auto simp: rational_binary_def from_u64_one [simplified] Let_def split: option.splits)
      ultimately show ?thesis by (simp add: no_room)
    next
      case True
      then obtain l r where lr: "pn_big_mul h (numerator a) (denominator one_big b) = Some l"
        "pn_big_mul h (numerator b) (denominator one_big a) = Some r" by blast
      show ?thesis
      proof (cases "op \<ge> 5")
        case False
        with cross rational_sum [OF a b _ lr, of op] one lr show ?thesis
          by (auto simp: rational_binary_def from_u64_one [simplified] Let_def)
      next
        case cmp: True
        from big.frac_compare [OF _ _ _ _ _ _ lr] fa fb
        have "big_ok l" "big_ok r" "sgn (big_val l - big_val r) = three_way (rat_val a) (rat_val b)" by auto
        then have "pn_big_compare l r = three_way (rat_val a) (rat_val b)" by (simp add: compare_sgn)
        with cmp one lr show ?thesis
          by (simp add: rational_binary_def from_u64_one [simplified] Let_def value_bool_def value_new_def
              rational_answer_def)
      qed
    qed
  qed
qed

section \<open>Decimal operators\<close>

subsection \<open>Scaling\<close>

lemma mul_small_length:
  "pn_big_mul_small h v f = Some u \<Longrightarrow> length (limbs u) \<le> length (limbs v) + 1"
  by (auto simp: pn_big_mul_small_def length_mul_small_loop split: if_splits dest: append_carry_length)

lemma scale_loop_correct:
  "big_ok v \<Longrightarrow> f \<le> BASE \<Longrightarrow> scale_loop h n f v = Some w \<Longrightarrow>
     big_ok w \<and> big_val w = big_val v * int f ^ n \<and> length (limbs w) \<le> length (limbs v) + n"
proof (induction n arbitrary: v)
  case (Suc n)
  then obtain u where u: "pn_big_mul_small h v f = Some u" and w: "scale_loop h n f u = Some w"
    by (auto split: option.splits)
  from mul_small_correct [OF Suc.prems(1,2) u] mul_small_length [OF u] Suc.IH [OF _ Suc.prems(2) w]
  show ?case by simp
qed simp

lemma scale_loop_total:
  "room_upto h (length (limbs v) + n) \<Longrightarrow> \<exists>w. scale_loop h n f v = Some w"
proof (induction n arbitrary: v)
  case (Suc n)
  from Suc.prems have "room h (length (limbs v) + 1)" by (simp add: room_upto_def)
  then obtain u where u: "pn_big_mul_small h v f = Some u" using mul_small_total by blast
  with mul_small_length have "room_upto h (length (limbs u) + n)"
    using Suc.prems room_upto_mono by fastforce
  with Suc.IH u show ?case by auto
qed simp

lemma pow10_scale: "pn_big_pow10 h v n = scale_loop h n 10 v"
  by (induction n arbitrary: v) (auto split: option.splits)

lemma pow10_total: "room_upto h (length (limbs v) + n) \<Longrightarrow> \<exists>w. pn_big_pow10 h v n = Some w"
  by (simp add: pow10_scale scale_loop_total)

lemma pow10_length:
  "big_ok v \<Longrightarrow> pn_big_pow10 h v n = Some w \<Longrightarrow> length (limbs w) \<le> length (limbs v) + n"
  using scale_loop_correct [of v 10 h n w] by (simp add: pow10_scale)

text \<open>Operands whose exponents and sizes are far from the limits of a C \<open>int\<close>.\<close>

definition moderate :: "Decimal \<Rightarrow> bool" where
  "moderate d \<longleftrightarrow> big_ok (coefficient d) \<and> \<bar>exponent d\<bar> \<le> 2 ^ 29 \<and> length (limbs (coefficient d)) \<le> 2 ^ 24"

lemma decimal_align_correct:
  assumes a: "moderate a" and b: "moderate b"
  shows "case decimal_align h a b of
      None \<Rightarrow> \<not> room_upto h (2 ^ 32)
    | Some (l, r, e) \<Rightarrow>
        big_ok l \<and> big_ok r \<and> e = min (exponent a) (exponent b) \<and>
        length (limbs l) \<le> 2 ^ 31 \<and> length (limbs r) \<le> 2 ^ 31 \<and>
        dec_val a = of_int (big_val l) * 10 powi e \<and> dec_val b = of_int (big_val r) * 10 powi e"
proof -
  define e where "e = min (exponent a) (exponent b)"
  have e': "(if exponent a < exponent b then exponent a else exponent b) = e" by (auto simp: e_def)
  have diff: "0 \<le> exponent d - e" "exponent d - e \<le> 2 ^ 30" if "d = a \<or> d = b" for d
    using that a b by (auto simp: moderate_def e_def)
  then have s: "size_of_int (int32 (exponent d - e)) = nat (exponent d - e)" if "d = a \<or> d = b" for d
    using that by (subst int32_id) (force simp: int32_range_def)+
  have step: "\<exists>w. pn_big_copy h (coefficient d) = Some (coefficient d) \<and>
      pn_big_pow10 h (coefficient d) (nat (exponent d - e)) = Some w"
    if "room_upto h (2 ^ 32)" "d = a \<or> d = b" for d
  proof -
    have "length (limbs (coefficient d)) + nat (exponent d - e) \<le> 2 ^ 32"
      using diff [OF that(2)] that(2) a b by (auto simp: moderate_def)
    from pow10_total [OF room_upto_mono [OF that(1) this]] show ?thesis
      using that(1) \<open>_ \<le> 2 ^ 32\<close> by (simp add: pn_big_copy_eq room_upto_def)
  qed
  have good: "big_ok w \<and> length (limbs w) \<le> 2 ^ 31 \<and> dec_val d = of_int (big_val w) * 10 powi e"
    if "pn_big_pow10 h (coefficient d) (nat (exponent d - e)) = Some w" "d = a \<or> d = b" for d w
  proof -
    from that(2) a b have ok: "big_ok (coefficient d)" by (auto simp: moderate_def)
    from pow10_correct [OF ok that(1)] have w: "big_ok w" "big_val w = big_val (coefficient d) * 10 ^ nat (exponent d - e)"
      by simp_all
    have "length (limbs w) \<le> 2 ^ 31"
      using pow10_length [OF ok that(1)] diff [OF that(2)] that(2) a b by (auto simp: moderate_def)
    moreover have "10 ^ nat (exponent d - e) * 10 powi e = (10 powi exponent d :: rat)"
      using diff(1) [OF that(2)] power_int_add [of "10::rat" "exponent d - e" e]
      by (simp add: power_int_def)
    then have "dec_val d = of_int (big_val w) * 10 powi e"
      by (simp add: dec_val_def w(2) mult.assoc)
    ultimately show ?thesis using w(1) by simp
  qed
  show ?thesis
    using step [of a] step [of b] good [of a] good [of b]
    by (auto simp: decimal_align_def Let_def e' s e_def [symmetric] split: option.splits dest: pn_big_copy_Some)
qed

subsection \<open>Finite decimal expansions\<close>

lemma div_small_val:
  assumes "big_ok v" and "0 < d" "d < 4294967296" and "pn_big_div_small v d = (q, 0)"
  shows "big_ok q \<and> big_val v = big_val q * int d \<and> sign q = (if big_val v = 0 then 0 else sign v)"
proof -
  from div_small_correct [OF assms] have
    q: "big_ok q" "mag (limbs v) = mag (limbs q) * d" "sign q = (if mag (limbs q) = 0 then 0 else sign v)"
    by simp_all
  from assms(1) have "sign v = 0 \<Longrightarrow> mag (limbs v) = 0" by (simp add: big_ok_def)
  with q assms(2) show ?thesis by (auto simp: big_val_def)
qed

lemma div_small_dvd:
  assumes "big_ok v" and "0 < d" "d < 4294967296" and "pn_big_div_small v d = (q, r)"
  shows "r = 0 \<longleftrightarrow> int d dvd big_val v"
proof -
  from div_small_correct [OF assms] have q: "r < d" "mag (limbs v) = mag (limbs q) * d + r" by simp_all
  have "int d dvd big_val v \<longleftrightarrow> d dvd mag (limbs v)"
    using big_val_abs [OF assms(1)] by (metis dvd_abs_iff int_dvd_int_iff)
  also have "\<dots> \<longleftrightarrow> r = 0" using q by (auto simp: dvd_add_right_iff dest: dvd_imp_le)
  finally show ?thesis by simp
qed

lemma divisor_of_five: "0 < d \<Longrightarrow> d dvd 5 \<Longrightarrow> d = 1 \<or> d = (5::int)"
proof -
  assume d: "0 < d" "d dvd 5"
  then have "d \<le> 5" by (simp add: zdvd_imp_le)
  with d(1) have "d \<in> {1, 2, 3, 4, 5}" by auto
  with d(2) show ?thesis by auto
qed

lemma coprime_ten_dvd:
  fixes x :: int
  assumes "x dvd 10 ^ n" and "\<not> 2 dvd x" and "\<not> 5 dvd x" and "0 < x"
  shows "x = 1"
proof -
  have "coprime x 2" using assms(2) by simp
  moreover have "gcd x 5 \<noteq> 5" using assms(3) by (metis gcd_dvd1)
  then have "gcd x 5 = 1" using divisor_of_five [of "gcd x 5"] by simp
  then have "coprime x 5" by (simp add: coprime_iff_gcd_eq_1)
  ultimately have "coprime x (2 * 5)" by (simp only: coprime_mult_right_iff)
  then have "coprime x (10 ^ n)" by (simp add: coprime_power_right_iff)
  with assms(1) have "is_unit x" by (metis coprime_absorb_left)
  with assms(4) show ?thesis by simp
qed

lemma is_one_iff: "big_ok v \<Longrightarrow> pn_big_is_one v \<longleftrightarrow> big_val v = 1"
proof
  assume "big_ok v" and "big_val v = 1"
  then have "v = one_big" by (intro big_val_inj) (simp_all add: one_big)
  then show "pn_big_is_one v" by (simp add: pn_big_is_one_def one_big_def)
qed (simp add: pn_big_is_one_def big_val_def)

definition strip_answer :: "heap \<Rightarrow> PnBigInt \<Rightarrow> nat \<Rightarrow> nat \<Rightarrow> (nat \<times> nat) outcome \<Rightarrow> bool" where
  "strip_answer h den t f out =
     (case out of
        Ret (t', f') \<Rightarrow> \<exists>i j. t' = t + i \<and> f' = f + j \<and> big_val den = 2 ^ i * 5 ^ j
      | Trap m k \<Rightarrow> k = VM_FAULT_REQUEST \<and> (\<forall>n. \<not> big_val den dvd 10 ^ n)
      | NoMemory \<Rightarrow> \<not> room_upto h (length (limbs den)))"

lemma strip_answer_two:
  assumes "strip_answer h v (Suc t) f out" and "big_val den = big_val v * 2"
    and "length (limbs v) \<le> length (limbs den)"
  shows "strip_answer h den t f out"
proof (cases out)
  case (Ret p)
  with assms(1) obtain i j where "p = (Suc t + i, f + j)" "big_val v = 2 ^ i * 5 ^ j"
    by (auto simp: strip_answer_def)
  with Ret assms(2) show ?thesis
    by (auto simp: strip_answer_def intro!: exI [of _ "Suc i"] exI [of _ j])
next
  case (Trap m k)
  with assms(1,2) show ?thesis by (auto simp: strip_answer_def dest: dvd_mult_left)
next
  case NoMemory
  with assms(1) room_upto_mono [OF _ assms(3)] show ?thesis by (auto simp: strip_answer_def)
qed

lemma strip_answer_five:
  assumes "strip_answer h v t (Suc f) out" and "big_val den = big_val v * 5"
    and "length (limbs v) \<le> length (limbs den)"
  shows "strip_answer h den t f out"
proof (cases out)
  case (Ret p)
  with assms(1) obtain i j where "p = (t + i, Suc f + j)" "big_val v = 2 ^ i * 5 ^ j"
    by (auto simp: strip_answer_def)
  with Ret assms(2) show ?thesis
    by (auto simp: strip_answer_def intro!: exI [of _ i] exI [of _ "Suc j"])
next
  case (Trap m k)
  with assms(1,2) show ?thesis by (auto simp: strip_answer_def dest: dvd_mult_left)
next
  case NoMemory
  with assms(1) room_upto_mono [OF _ assms(3)] show ?thesis by (auto simp: strip_answer_def)
qed

lemma quotient_smaller:
  assumes "big_ok v" "big_ok den" "0 < big_val den" "big_val den = big_val v * c" "1 < c"
  shows "0 < big_val v \<and> nat (big_val v) < nat (big_val den) \<and> length (limbs v) \<le> length (limbs den)"
proof -
  from assms(3-5) have pos: "0 < big_val v" by (simp add: zero_less_mult_iff)
  with assms(4,5) have less: "big_val v < big_val den" by simp
  with pos assms show ?thesis by (auto intro: length_less_abs)
qed

lemma strip_loop_correct:
  "big_ok den \<Longrightarrow> 0 < big_val den \<Longrightarrow> \<exists>out. strip_loop h den t f = Some out \<and> strip_answer h den t f out"
proof (induction "nat (big_val den)" arbitrary: den t f rule: less_induct)
  case (less den t f)
  note ok = less.prems
  obtain half r2 where half: "pn_big_div_small den 2 = (half, r2)" by fastforce
  obtain fifth r5 where fifth: "pn_big_div_small den 5 = (fifth, r5)" by fastforce
  note unfold = strip_loop.simps [of h den t f]
  consider (one) "big_val den = 1" | (mem) "big_val den \<noteq> 1" "\<not> room h (length (limbs den))"
    | (two) "big_val den \<noteq> 1" "room h (length (limbs den))" "r2 = 0"
    | (five) "big_val den \<noteq> 1" "room h (length (limbs den))" "r2 \<noteq> 0" "r5 = 0"
    | (stuck) "big_val den \<noteq> 1" "room h (length (limbs den))" "r2 \<noteq> 0" "r5 \<noteq> 0" by blast
  then show ?case
  proof cases
    case one
    with ok show ?thesis unfolding unfold
      by (simp add: is_one_iff strip_answer_def)
  next
    case mem
    with ok show ?thesis unfolding unfold
      by (auto simp: is_one_iff pn_big_copy_eq room_upto_def strip_answer_def)
  next
    case two
    with ok half have step: "strip_loop h den t f = strip_loop h half (Suc t) f"
      unfolding unfold by (simp add: is_one_iff pn_big_copy_eq)
    have v: "big_ok half" "big_val den = big_val half * 2"
      using div_small_val [OF ok(1) _ _ half [unfolded two(3)]] by simp_all
    with quotient_smaller [OF v(1) ok v(2)] less.hyps [of half "Suc t" f] step strip_answer_two
    show ?thesis by auto
  next
    case five
    with ok half fifth have step: "strip_loop h den t f = strip_loop h fifth t (Suc f)"
      unfolding unfold by (simp add: is_one_iff pn_big_copy_eq)
    have v: "big_ok fifth" "big_val den = big_val fifth * 5"
      using div_small_val [OF ok(1) _ _ fifth [unfolded five(4)]] by simp_all
    with quotient_smaller [OF v(1) ok v(2)] less.hyps [of fifth t "Suc f"] step strip_answer_five
    show ?thesis by auto
  next
    case stuck
    have "\<not> 2 dvd big_val den" "\<not> 5 dvd big_val den"
      using stuck div_small_dvd [OF ok(1) _ _ half] div_small_dvd [OF ok(1) _ _ fifth] by simp_all
    then have "\<not> big_val den dvd 10 ^ n" for n
      using coprime_ten_dvd [of "big_val den" n] ok(2) stuck(1) by blast
    with stuck ok half fifth show ?thesis
      unfolding unfold by (simp add: is_one_iff pn_big_copy_eq strip_answer_def)
  qed
qed

subsection \<open>Shortest scale\<close>

lemma last_digit: "hd0 (limbs v) mod 10 = 0 \<longleftrightarrow> 10 dvd big_val v" if "big_ok v"
proof -
  have "mag ls mod 10 = hd0 ls mod 10" for ls
    by (cases ls) (simp_all add: mod_add_eq [symmetric, of _ "BASE * _"] mod_mult_left_eq [symmetric] flip: mod_mult_left_eq)
  then have "hd0 (limbs v) mod 10 = 0 \<longleftrightarrow> 10 dvd mag (limbs v)" by (metis dvd_eq_mod_eq_0)
  also have "\<dots> \<longleftrightarrow> 10 dvd big_val v"
    using big_val_abs [OF that] by (metis dvd_abs_iff int_dvd_int_iff of_nat_numeral)
  finally show ?thesis .
qed

lemma shorten_correct:
  "big_ok n \<Longrightarrow> big_val n \<noteq> 0 \<Longrightarrow> shorten n e = (m, e') \<Longrightarrow>
     big_ok m \<and> (of_int (big_val m) * 10 powi e' :: rat) = of_int (big_val n) * 10 powi e \<and>
     e \<le> e' \<and> (e' = e \<or> e' \<le> 0) \<and> (e' < 0 \<longrightarrow> \<not> 10 dvd big_val m)"
proof (induction n e rule: shorten.induct)
  case (1 n e)
  show ?case
  proof (cases "e < 0 \<and> hd0 (limbs n) mod 10 = 0")
    case True
    obtain q r where q: "pn_big_div_small n 10 = (q, r)" by fastforce
    have "r = 0" using div_small_dvd [OF "1.prems"(1) _ _ q] last_digit [OF "1.prems"(1)] True by simp
    with div_small_val [OF "1.prems"(1) _ _ q [unfolded \<open>r = 0\<close>]]
    have v: "big_ok q" "big_val n = big_val q * 10" by simp_all
    with "1.prems" have nz: "big_val q \<noteq> 0" by auto
    have rest: "shorten (fst (pn_big_div_small n 10)) (e + 1) = (m, e')"
      using "1.prems"(3) True by (simp add: shorten.simps [of n e])
    have "(of_int (big_val n) * 10 powi e :: rat) = of_int (big_val q) * 10 powi (e + 1)"
      by (simp add: v(2) power_int_add_1)
    with "1.IH" [OF True _ _ rest] v(1) nz True q show ?thesis by auto
  next
    case False
    with "1.prems" have "m = n" "e' = e" by (auto simp: shorten.simps [of n e] split: if_splits)
    with False "1.prems" last_digit [of n] show ?thesis by auto
  qed
qed

subsection \<open>Division\<close>

definition finite_decimal :: "rat \<Rightarrow> bool" where
  "finite_decimal x \<longleftrightarrow> (\<exists>m n. x * 10 ^ n = of_int m)"

lemma finite_decimal_shift: "finite_decimal (x * 10 powi k) \<Longrightarrow> finite_decimal x"
proof -
  assume "finite_decimal (x * 10 powi k)"
  then obtain m n where m: "x * 10 powi k * 10 ^ n = of_int m" by (auto simp: finite_decimal_def)
  show ?thesis
  proof (cases "0 \<le> k")
    case True
    with m have "x * 10 ^ (nat k + n) = of_int m" by (simp add: power_int_def power_add)
    then show ?thesis unfolding finite_decimal_def by blast
  next
    case False
    then have "(10::rat) powi k * 10 ^ nat (- k) = 1" by (simp add: power_int_def power_one_over)
    with m have "x * 10 ^ n = of_int (m * 10 ^ nat (- k))"
      by (metis (no_types, opaque_lifting) mult.assoc mult.commute mult.right_neutral of_int_mult of_int_numeral of_int_power)
    then show ?thesis unfolding finite_decimal_def by blast
  qed
qed

lemma fraction_not_finite:
  assumes "coprime p q" and "0 < q" and "\<forall>n. \<not> q dvd 10 ^ n"
  shows "\<not> finite_decimal (of_int p / of_int q)"
proof
  assume "finite_decimal (of_int p / of_int q)"
  then obtain m n where "of_int p / of_int q * 10 ^ n = (of_int m :: rat)" by (auto simp: finite_decimal_def)
  with assms(2) have "of_int (p * 10 ^ n) = (of_int (m * q) :: rat)" by (simp add: field_simps)
  then have "p * 10 ^ n = m * q" by (simp only: of_int_eq_iff)
  then have "q dvd p * 10 ^ n" by simp
  with assms(1) have "q dvd 10 ^ n" by (simp add: coprime_commute coprime_dvd_mult_right_iff)
  with assms(3) show False by blast
qed

lemma power_bound:
  assumes "2 ^ i * 5 ^ j < int (BASE ^ len)"
  shows "i \<le> 30 * len" and "j \<le> 30 * len"
proof -
  have B: "int (BASE ^ len) \<le> 2 ^ (30 * len)"
    using power_mono [of "1000000000::int" "2 ^ 30" len] by (simp add: power_mult)
  have "(2::int) ^ i * 1 \<le> 2 ^ i * 5 ^ j" "1 * (5::int) ^ j \<le> 2 ^ i * 5 ^ j"
    by (intro mult_mono; simp)+
  moreover have "(2::int) ^ j \<le> 5 ^ j" by (intro power_mono) simp_all
  ultimately have "(2::int) ^ i < 2 ^ (30 * len)" "(2::int) ^ j < 2 ^ (30 * len)"
    using assms B by linarith+
  then show "i \<le> 30 * len" "j \<le> 30 * len" by (simp_all add: power_strict_increasing_iff)
qed

definition dec_result :: "Value \<Rightarrow> rat \<Rightarrow> bool" where
  "dec_result v x \<longleftrightarrow> (\<exists>d. v = VDec d \<and> value_ok v \<and> dec_val d = x)"

definition decimal_division_answer :: "heap \<Rightarrow> Decimal \<Rightarrow> Decimal \<Rightarrow> Value outcome \<Rightarrow> bool" where
  "decimal_division_answer h a b out =
     (case out of
        Ret v \<Rightarrow> dec_val b \<noteq> 0 \<and> dec_result v (dec_val a / dec_val b) \<and>
          (\<forall>d. v = VDec d \<longrightarrow> exponent d < 0 \<longrightarrow> \<not> 10 dvd big_val (coefficient d))
      | Trap m k \<Rightarrow> k = VM_FAULT_REQUEST \<and>
          (dec_val b = 0 \<or> \<not> finite_decimal (dec_val a / dec_val b))
      | NoMemory \<Rightarrow> \<not> (h Cell \<and> room_upto h (2 ^ 32)))"

lemma dec_val_0_iff: "big_ok (coefficient d) \<Longrightarrow> dec_val d = 0 \<longleftrightarrow> pn_big_is_zero (coefficient d)"
  by (simp add: dec_val_def pn_big_is_zero_def big_val_0_iff)

lemma dec_val_divide:
  "dec_val a / dec_val b =
     of_int (big_val (coefficient a)) / of_int (big_val (coefficient b)) * 10 powi (exponent a - exponent b)"
  by (simp add: dec_val_def power_int_diff)

text \<open>The part of the division after the fraction has been reduced to \<open>num / den\<close>.\<close>

lemma decimal_divide_tail:
  assumes num: "big_ok num" "length (limbs num) \<le> 2 ^ 24" and den: "big_val den = 2 ^ i * 5 ^ j"
    and small: "i \<le> 30 * 2 ^ 24" "j \<le> 30 * 2 ^ 24"
    and quot: "dec_val a / dec_val b = of_int (big_val num) / of_int (big_val den) * 10 powi (exponent a - exponent b)"
    and ab: "moderate a" "moderate b" "dec_val b \<noteq> 0"
  shows "decimal_division_answer h a b
    (case scale_loop h (max i j - i) 2 num of
       None \<Rightarrow> NoMemory
     | Some num \<Rightarrow>
    (case scale_loop h (max i j - j) 5 num of
       None \<Rightarrow> NoMemory
     | Some num \<Rightarrow>
         let e = int32 (int32 (exponent a - exponent b) - int32 (int (max i j))) in
         if pn_big_is_zero num then ret_opt (value_decimal h num 0)
         else case shorten num e of (num, e) \<Rightarrow> ret_opt (value_decimal h num e)))"
proof -
  let ?p = "max i j"
  have pb: "?p \<le> 30 * 2 ^ 24" using small by simp
  define e where "e = exponent a - exponent b - int ?p"
  have ranges: "int32_range (exponent a - exponent b)" "int32_range (int ?p)" "int32_range e" "e \<ge> - (2 ^ 31)"
    using ab(1,2) pb by (auto simp: moderate_def int32_range_def e_def)
  then have e: "int32 (int32 (exponent a - exponent b) - int32 (int ?p)) = e"
    by (simp add: e_def)
  show ?thesis
  proof (cases "scale_loop h (?p - i) 2 num")
    case None
    with scale_loop_total [of h num "?p - i" 2] have "\<not> room_upto h (length (limbs num) + (?p - i))" by auto
    then have "\<not> room_upto h (2 ^ 32)" using room_upto_mono [of h "2 ^ 32"] num(2) pb by fastforce
    with None show ?thesis by (simp add: decimal_division_answer_def)
  next
    case (Some x)
    from scale_loop_correct [OF num(1) _ Some]
    have x: "big_ok x" "big_val x = big_val num * 2 ^ (?p - i)" "length (limbs x) \<le> length (limbs num) + (?p - i)"
      by simp_all
    show ?thesis
    proof (cases "scale_loop h (?p - j) 5 x")
      case None
      with scale_loop_total [of h x "?p - j" 5] have "\<not> room_upto h (length (limbs x) + (?p - j))" by auto
      then have "\<not> room_upto h (2 ^ 32)" using room_upto_mono [of h "2 ^ 32"] num(2) x(3) pb by fastforce
      with None Some show ?thesis by (simp add: decimal_division_answer_def)
    next
      case y: (Some y)
      from scale_loop_correct [OF x(1) _ y]
      have y': "big_ok y" "big_val y = big_val num * 2 ^ (?p - i) * 5 ^ (?p - j)" by (simp_all add: x(2))
      have "(2::rat) ^ (?p - i) * 2 ^ i = 2 ^ ?p" "(5::rat) ^ (?p - j) * 5 ^ j = 5 ^ ?p"
        by (simp_all flip: power_add)
      moreover have "of_int (big_val y) * of_int (big_val den) =
          (of_int (big_val num) * ((2 ^ (?p - i) * 2 ^ i) * (5 ^ (?p - j) * 5 ^ j)) :: rat)"
        unfolding y'(2) den by (simp add: ac_simps)
      moreover have "(2::rat) ^ ?p * 5 ^ ?p = 10 ^ ?p" by (simp flip: power_mult_distrib)
      ultimately have "of_int (big_val y) * of_int (big_val den) = (of_int (big_val num) * 10 ^ ?p :: rat)"
        by simp
      moreover have "(of_int (big_val den) :: rat) \<noteq> 0" by (simp add: den)
      ultimately have "(of_int (big_val num) / of_int (big_val den) :: rat) = of_int (big_val y) / 10 ^ ?p"
        by (simp add: field_simps)
      moreover have "(10::rat) powi e = 10 powi (exponent a - exponent b) / 10 ^ ?p"
        by (simp add: e_def power_int_diff power_int_of_nat)
      ultimately have val: "dec_val a / dec_val b = of_int (big_val y) * 10 powi e" by (simp add: quot)
      show ?thesis
      proof (cases "pn_big_is_zero y")
        case True
        with y' val have "dec_val a / dec_val b = 0" by (simp add: pn_big_is_zero_def big_val_def)
        with True Some y y' ab(3) show ?thesis
          by (auto simp: e value_decimal_def value_new_def decimal_division_answer_def dec_result_def
              dec_val_def pn_big_is_zero_def big_val_def int32_range_def)
      next
        case False
        obtain m e' where m: "shorten y e = (m, e')" by fastforce
        from False big_val_0_iff [OF y'(1)] have "big_val y \<noteq> 0" by (simp add: pn_big_is_zero_def)
        from shorten_correct [OF y'(1) this m] ranges(3,4)
        have "big_ok m" "of_int (big_val m) * 10 powi e' = dec_val a / dec_val b" "int32_range e'"
          "e' < 0 \<longrightarrow> \<not> 10 dvd big_val m"
          by (auto simp: val int32_range_def)
        with False Some y m ab(3) show ?thesis
          by (auto simp: e value_decimal_def value_new_def decimal_division_answer_def dec_result_def dec_val_def)
      qed
    qed
  qed
qed

lemma quotient_length:
  assumes "big_ok a" "big_ok g" "big_val g dvd big_val a" "big_val g \<noteq> 0"
    and "pn_big_divmod h a g = Some (q, r)"
  shows "length (limbs q) \<le> length (limbs a)"
proof -
  have q: "big_ok q" "big_val a = big_val q * big_val g"
    using divmod_exact [OF assms(1,2,3,5)] by blast+
  have "\<bar>big_val q\<bar> * 1 \<le> \<bar>big_val q\<bar> * \<bar>big_val g\<bar>" using assms(4) by (intro mult_left_mono) simp_all
  then have "\<bar>big_val q\<bar> \<le> \<bar>big_val a\<bar>" unfolding q(2) abs_mult by simp
  from length_less_abs [OF q(1) assms(1) this] show ?thesis .
qed

lemma decimal_divide_correct:
  assumes a: "moderate a" and b: "moderate b"
  shows "decimal_division_answer h a b (decimal_divide h a b)"
proof (cases "dec_val b = 0")
  case True
  with b show ?thesis
    by (simp add: decimal_divide_def decimal_division_answer_def div_zero_def dec_val_0_iff moderate_def)
next
  case nz: False
  let ?n = "coefficient a" and ?d = "coefficient b"
  have ok: "big_ok ?n" "big_ok ?d" using a b by (simp_all add: moderate_def)
  have len: "length (limbs ?n) \<le> 2 ^ 24" "length (limbs ?d) \<le> 2 ^ 24" using a b by (simp_all add: moderate_def)
  from nz ok have sd: "\<not> pn_big_is_zero ?d" and d0: "big_val ?d \<noteq> 0"
    by (simp_all add: dec_val_0_iff [symmetric]) (simp add: dec_val_def)
  have few: "\<not> room_upto h n \<Longrightarrow> n \<le> 2 ^ 26 \<Longrightarrow> decimal_division_answer h a b NoMemory" for n
    using room_upto_mono [of h "2 ^ 32" n] by (auto simp: decimal_division_answer_def)
  show ?thesis
  proof (cases "big_gcd h ?n ?d")
    case None
    with big_gcd_correct [OF ok, of h] few [of "max (length (limbs ?n)) (length (limbs ?d) + 1)"] len sd
    show ?thesis by (simp add: decimal_divide_def)
  next
    case (Some g)
    with big_gcd_correct [OF ok, of h] have g: "big_ok g" "big_val g = gcd (big_val ?n) (big_val ?d)" by simp_all
    have gs: "sign g \<noteq> 0" using g d0 by (auto simp: big_val_0_iff [OF g(1), symmetric])
    have lg: "length (limbs g) \<le> length (limbs ?d)"
      using g d0 ok(2) dvd_imp_le_int [of "big_val ?d" "gcd (big_val ?n) (big_val ?d)"]
      by (intro length_less_abs) simp_all
    show ?thesis
    proof (cases "\<exists>nn r dd r'. pn_big_divmod h ?n g = Some (nn, r) \<and> pn_big_divmod h ?d g = Some (dd, r')")
      case False
      then have "\<not> room_upto h (length (limbs ?n) + length (limbs ?d) + 1)"
        using divmod_room [OF ok(1) g(1) gs, of h] divmod_room [OF ok(2) g(1) gs, of h] lg
          room_upto_mono [of h _ "max (length (limbs ?n)) (length (limbs g) + 1)"]
          room_upto_mono [of h _ "max (length (limbs ?d)) (length (limbs g) + 1)"] by auto
      moreover have "decimal_divide h a b = NoMemory"
        using False sd Some by (auto simp: decimal_divide_def split: option.splits)
      ultimately show ?thesis using few len by simp
    next
      case True
      then obtain nn r dd r' where q: "pn_big_divmod h ?n g = Some (nn, r)" "pn_big_divmod h ?d g = Some (dd, r')"
        by blast
      from reduced_quotients [OF ok d0 g q]
      have r: "big_ok nn" "big_ok dd" "big_val dd \<noteq> 0" "coprime (big_val nn) (big_val dd)"
        "(of_int (big_val nn) / of_int (big_val dd) :: rat) = of_int (big_val ?n) / of_int (big_val ?d)"
        by simp_all
      define x where "x = (if sign dd < 0 then nn\<lparr>sign := - sign nn\<rparr> else nn)"
      define y where "y = (if sign dd < 0 then dd\<lparr>sign := - sign dd\<rparr> else dd)"
      have sdd: "sign dd \<in> {-1, 1}" using r(2,3) by (auto simp: big_ok_def big_val_def)
      have xy: "big_ok x" "big_ok y" "big_val x = sign dd * big_val nn" "big_val y = sign dd * big_val dd"
        using r(1,2) sdd by (auto simp: x_def y_def big_ok_def big_val_def)
      have "big_val y = \<bar>big_val dd\<bar>" by (simp add: xy(4) abs_sgn mult.commute flip: big_val_sgn [OF r(2)])
      with r(3) have ypos: "0 < big_val y" by simp
      have cop: "coprime (big_val x) (big_val y)" using xy sdd r(4) by auto
      have quot: "dec_val a / dec_val b = of_int (big_val x) / of_int (big_val y) * 10 powi (exponent a - exponent b)"
        using xy sdd r(5) by (auto simp: dec_val_divide)
      have lens: "length (limbs x) \<le> 2 ^ 24" "length (limbs y) \<le> 2 ^ 24"
        using quotient_length [OF ok(1) g(1) _ _ q(1)] quotient_length [OF ok(2) g(1) _ _ q(2)] g(2) d0 len
        by (simp_all add: x_def y_def)
      obtain out where out: "strip_loop h y 0 0 = Some out" "strip_answer h y 0 0 out"
        using strip_loop_correct [OF xy(2) ypos] by blast
      have eq: "decimal_divide h a b =
          (case out of NoMemory \<Rightarrow> NoMemory | Trap m k \<Rightarrow> Trap m k
           | Ret (twos, fives) \<Rightarrow>
               (case scale_loop h (max twos fives - twos) 2 x of
                  None \<Rightarrow> NoMemory
                | Some num \<Rightarrow>
               (case scale_loop h (max twos fives - fives) 5 num of
                  None \<Rightarrow> NoMemory
                | Some num \<Rightarrow>
                    let e = int32 (int32 (exponent a - exponent b) - int32 (int (max twos fives))) in
                    if pn_big_is_zero num then ret_opt (value_decimal h num 0)
                    else case shorten num e of (num, e) \<Rightarrow> ret_opt (value_decimal h num e))))"
        using sd Some q out(1)
        by (simp add: decimal_divide_def x_def y_def Let_def split: outcome.split)
      show ?thesis
      proof (cases out)
        case (Ret p)
        with out(2) obtain i j where ij: "p = (i, j)" "big_val y = 2 ^ i * 5 ^ j" by (auto simp: strip_answer_def)
        have "2 ^ i * 5 ^ j < int (BASE ^ length (limbs y))"
          using abs_less_power [OF xy(2), of "length (limbs y)"] ypos by (simp add: ij(2))
        from power_bound [OF this] lens(2) have "i \<le> 30 * 2 ^ 24" "j \<le> 30 * 2 ^ 24" by linarith+
        from decimal_divide_tail [OF xy(1) lens(1) ij(2) this quot a b nz, of h] show ?thesis
          by (simp add: eq Ret ij(1))
      next
        case (Trap m k)
        with out(2) have "k = VM_FAULT_REQUEST" "\<forall>n. \<not> big_val y dvd 10 ^ n" by (simp_all add: strip_answer_def)
        moreover have "\<not> finite_decimal (dec_val a / dec_val b)"
          unfolding quot using fraction_not_finite [OF cop ypos] calculation(2) finite_decimal_shift by blast
        ultimately show ?thesis by (simp add: eq Trap decimal_division_answer_def)
      next
        case NoMemory
        with out(2) few [of "length (limbs y)"] lens(2) show ?thesis by (simp add: eq strip_answer_def)
      qed
    qed
  qed
qed

section \<open>Well-formed results\<close>

lemma decimal_align_ok:
  "decimal_align h a b = Some (l, r, e) \<Longrightarrow> big_ok (coefficient a) \<Longrightarrow> big_ok (coefficient b) \<Longrightarrow>
     big_ok l \<and> big_ok r \<and> e \<in> {exponent a, exponent b}"
  by (auto simp: decimal_align_def Let_def split: option.splits if_splits
      dest!: pn_big_copy_Some dest: pow10_correct)

lemma shorten_range: "shorten n e = (m, e') \<Longrightarrow> int32_range e \<Longrightarrow> int32_range e'"
proof (induction n e rule: shorten.induct)
  case (1 n e)
  then show ?case
    by (cases "e < 0 \<and> hd0 (limbs n) mod 10 = 0") (auto simp: shorten.simps [of n e] int32_range_def)
qed

lemma shorten_ok: "shorten n e = (m, e') \<Longrightarrow> big_ok n \<Longrightarrow> big_ok m"
proof (induction n e rule: shorten.induct)
  case (1 n e)
  show ?case
  proof (cases "e < 0 \<and> hd0 (limbs n) mod 10 = 0")
    case True
    obtain q r where q: "pn_big_div_small n 10 = (q, r)" by fastforce
    have "big_ok q" using div_small_correct [OF "1.prems"(2) _ _ q] by simp
    with 1 True q show ?thesis by (simp add: shorten.simps [of n e])
  qed (use 1 in \<open>auto simp: shorten.simps [of n e] split: if_splits\<close>)
qed

lemma value_decimal_ok:
  "value_decimal h c e = Some v \<Longrightarrow> big_ok c \<Longrightarrow> int32_range e \<Longrightarrow> value_ok v"
  by (auto simp: value_decimal_def value_new_def split: if_splits)

lemma decimal_divide_ok:
  assumes "decimal_divide h a b = Ret v" and ok: "big_ok (coefficient a)" "big_ok (coefficient b)"
  shows "value_ok v"
proof -
  from assms(1) obtain g nn r dd r' num num' t f where
    b: "\<not> pn_big_is_zero (coefficient b)"
    and g: "big_gcd h (coefficient a) (coefficient b) = Some g"
    and q: "pn_big_divmod h (coefficient a) g = Some (nn, r)" "pn_big_divmod h (coefficient b) g = Some (dd, r')"
    and num: "scale_loop h (max t f - t) 2 (if sign dd < 0 then nn\<lparr>sign := - sign nn\<rparr> else nn) = Some num"
    and num': "scale_loop h (max t f - f) 5 num = Some num'"
    and v: "(if pn_big_is_zero num' then ret_opt (value_decimal h num' 0)
      else case shorten num' (int32 (int32 (exponent a - exponent b) - int32 (int (max t f)))) of
        (num, e) \<Rightarrow> ret_opt (value_decimal h num e)) = Ret v"
    by (auto simp: decimal_divide_def div_zero_def Let_def split: if_splits option.splits outcome.splits)
  have "big_ok g" using big_gcd_correct [OF ok, of h] g by simp
  with divmod_correct [OF ok(1) _ q(1)] have "big_ok nn" by simp
  then have "big_ok (if sign dd < 0 then nn\<lparr>sign := - sign nn\<rparr> else nn)"
    by (auto simp: big_ok_def)
  from scale_loop_correct [OF this _ num] have "big_ok num" by simp
  from scale_loop_correct [OF this _ num'] have n: "big_ok num'" by simp
  show ?thesis
  proof (cases "pn_big_is_zero num'")
    case True
    with v n show ?thesis by (auto simp: ret_opt_Ret int32_range_def intro: value_decimal_ok)
  next
    case False
    obtain m e where m: "shorten num' (int32 (int32 (exponent a - exponent b) - int32 (int (max t f)))) = (m, e)"
      by fastforce
    with False v shorten_ok [OF m n] shorten_range [OF m int32_in_range] show ?thesis
      by (auto simp: ret_opt_Ret intro: value_decimal_ok)
  qed
qed

lemma decimal_binary_ok:
  assumes ret: "decimal_binary_classified h op a b = Ret v"
    and "value_ok (VDec a)" and "value_ok (VDec b)"
  shows "value_ok v"
proof -
  have ok: "big_ok (coefficient a)" "big_ok (coefficient b)" "int32_range (exponent a)" "int32_range (exponent b)"
    using assms(2,3) by simp_all
  consider (aligned) "op = 0 \<or> op = 1 \<or> op = 4" | (mul) "op = 2" | (div) "op = 3" | (none) "op \<ge> 5"
    by linarith
  then show ?thesis
  proof cases
    case aligned
    with ret obtain l r e where al: "decimal_align h a b = Some (l, r, e)"
      by (auto simp: decimal_binary_classified_def split: option.splits)
    note lr = decimal_align_ok [OF al ok(1,2)]
    have "\<exists>c. big_ok c \<and> value_decimal h c e = Some v"
      using aligned ret al add_correct [of l r h] sub_correct [of l r h] divmod_correct [of l r h] lr
      by (fastforce simp: decimal_binary_classified_def ret_opt_Ret div_zero_def split: option.splits if_splits)
    with lr ok show ?thesis by (auto intro: value_decimal_ok)
  next
    case mul
    then have "\<exists>c. big_ok c \<and> value_decimal h c (int32 (exponent a + exponent b)) = Some v"
      using ret mul_correct [OF ok(1,2), of h]
      by (auto simp: decimal_binary_classified_def ret_opt_Ret split: option.splits)
    then show ?thesis by (auto intro: value_decimal_ok int32_in_range)
  next
    case div
    with ret ok show ?thesis by (auto simp: decimal_binary_classified_def intro: decimal_divide_ok)
  qed (use ret in \<open>simp add: decimal_binary_classified_def\<close>)
qed

lemma string_concat_ok:
  "string_concat h s t = Ret v \<Longrightarrow> utf8 s \<Longrightarrow> utf8 t \<Longrightarrow> v = VStr (text_data (s @ t)) \<and> value_ok v"
  by (auto simp: string_concat_def ret_opt_Ret value_data_def text_ok_def text_data_eq utf8_append
      split: if_splits)

lemma integer_binary_ok:
  assumes "integer_binary h op a b x y = Ret v" and "big_ok x" "big_ok y" and "op < 5" "op \<noteq> 3"
  shows "value_ok v"
  using integer_binary_correct [OF assms(2,3), where op = op and h = h and a = a and b = b] assms(1,4,5)
  by (fastforce simp: less_Suc_eq numeral_eq_Suc)

lemma value_bool_ok: "value_bool h p = Some v \<Longrightarrow> v = VBool p"
  by (auto simp: value_bool_def value_new_def split: if_splits)

lemma kind_ok:
  "kind v = V_STR \<Longrightarrow> value_ok v \<Longrightarrow> utf8 (as_bytes v)"
  "kind v = V_DEC \<Longrightarrow> value_ok v \<Longrightarrow> value_ok (VDec (as_decimal v))"
  "integer_kind v \<Longrightarrow> value_ok v \<Longrightarrow> big_ok (as_integer v)"
  by (cases v; simp add: text_ok_def integer_kind_def)+

lemma integer_kind_rational: "integer_kind v \<Longrightarrow> rational_operand v"
  by (cases v) (simp_all add: integer_kind_def)

lemma binary_value_ok:
  assumes ret: "binary_value_classified h op a b = Ret v" and ok: "value_ok a" "value_ok b"
  shows "value_ok v"
proof -
  have rat: "value_ok v" if "rational_binary h op a b = Ret v" "op \<le> 10" "rational_operand a" "rational_operand b"
    using rational_binary_correct [OF that(3) ok(1) that(4) ok(2) that(2), of h] that(1)
    by (auto simp: rational_answer_def split: if_splits)
  have int: "value_ok v"
    if "integer_binary h op a b (as_integer a) (as_integer b) = Ret v" "integer_kind a" "integer_kind b"
      "op < 5" "op \<noteq> 3"
    using that ok by (auto intro: integer_binary_ok kind_ok)
  show ?thesis
    using ret rat int integer_kind_rational [of a] integer_kind_rational [of b]
      string_concat_ok [of h "as_bytes a" "as_bytes b" v] kind_ok [OF _ ok(1)] kind_ok [OF _ ok(2)]
      decimal_binary_ok [of h op "as_decimal a" "as_decimal b" v]
    by (auto simp: binary_value_classified_def ret_opt_Ret split: if_splits dest!: value_bool_ok)
qed

subsection \<open>Fault classes\<close>

lemma strip_loop_trap:
  "strip_loop h den t f = Some out \<Longrightarrow> \<forall>m k. out = Trap m k \<longrightarrow>
     k = VM_FAULT_REQUEST \<and> m = ''VM trap: non-terminating decimal division requires explicit rounding''"
  by (erule strip_loop.raw_induct [rotated]) (auto split: if_splits option.splits prod.splits)

definition request_traps :: "string list" where
  "request_traps =
     [''VM trap: division by zero'', ''VM trap: Nat underflow'',
      ''VM trap: non-terminating decimal division requires explicit rounding'']"

lemma div_zero_request: "div_zero = Trap m k \<Longrightarrow> k = VM_FAULT_REQUEST \<and> m \<in> set request_traps"
  by (auto simp: div_zero_def request_traps_def)

lemma ret_opt_trap [simp]: "ret_opt x \<noteq> Trap m k"
  by (cases x) simp_all

lemma value_rat_trap:
  "value_rat_classified h n d = Trap m k \<Longrightarrow> k = VM_FAULT_REQUEST \<and> m \<in> set request_traps"
  by (auto simp: value_rat_classified_def Let_def split: if_splits option.splits dest: div_zero_request)

lemma decimal_divide_trap:
  "decimal_divide h a b = Trap m k \<Longrightarrow> k = VM_FAULT_REQUEST \<and> m \<in> set request_traps"
  using strip_loop_trap
  by (fastforce simp: decimal_divide_def Let_def request_traps_def div_zero_def
      split: if_splits option.splits outcome.splits prod.splits)

lemma decimal_binary_trap:
  "decimal_binary_classified h op a b = Trap m k \<Longrightarrow> k = VM_FAULT_REQUEST \<and> m \<in> set request_traps"
  by (auto simp: decimal_binary_classified_def split: if_splits option.splits
      dest: decimal_divide_trap div_zero_request)

lemma integer_binary_trap:
  "integer_binary h op a b x y = Trap m k \<Longrightarrow> k = VM_FAULT_REQUEST \<and> m \<in> set request_traps"
  by (auto simp: integer_binary_def request_traps_def div_zero_def split: if_splits option.splits)

lemma rational_binary_trap:
  "rational_binary h op a b = Trap m k \<Longrightarrow> k = VM_FAULT_REQUEST \<longleftrightarrow> m \<in> set request_traps"
  by (auto simp: rational_binary_def Let_def split: if_splits option.splits dest: value_rat_trap)
    (simp_all add: request_traps_def)

section \<open>Properties\<close>

definition int_value :: "bool \<Rightarrow> PnBigInt \<Rightarrow> Value" where
  "int_value s n = (if s then VInt n else VNat n)"

lemma int_value [simp]:
  "kind (int_value s n) = V_INT \<longleftrightarrow> s" "integer_kind (int_value s n)" "as_integer (int_value s n) = n"
  "kind (int_value s n) \<noteq> V_RAT" "kind (int_value s n) \<noteq> V_STR" "kind (int_value s n) \<noteq> V_DEC"
  "value_ok (int_value s n) \<longleftrightarrow> big_ok n \<and> (s \<or> 0 \<le> sign n)"
  by (auto simp: int_value_def integer_kind_def)

text \<open>
  C5. Addition, subtraction, multiplication and remainder of \<open>Nat\<close> and \<open>Int\<close> operands are exact; the
  result is an \<open>Int\<close> when an operand is one and a \<open>Nat\<close> otherwise; remainder is the floored one, with
  the sign of the divisor; a negative \<open>Nat\<close> result and a zero divisor trap as request faults, and no
  other trap is possible; with memory for twice the operands an answer is always given.
\<close>

theorem integer_operators_exact:
  assumes "value_ok (int_value s x)" and "value_ok (int_value t y)" and "op \<in> {0, 1, 2, 4}"
  shows "case binary_value_classified h op (int_value s x) (int_value t y) of
      Ret v \<Rightarrow> (\<exists>r. v = int_value (s \<or> t) r \<and> value_ok v \<and>
                 big_val r = int_arith op (big_val x) (big_val y) \<and> \<not> (op = 4 \<and> big_val y = 0))
    | Trap m k \<Rightarrow> k = VM_FAULT_REQUEST \<and>
        (op = 4 \<and> big_val y = 0 \<and> m = ''VM trap: division by zero'' \<or>
         \<not> (s \<or> t) \<and> int_arith op (big_val x) (big_val y) < 0 \<and> m = ''VM trap: Nat underflow'')
    | NoMemory \<Rightarrow> \<not> (h Cell \<and> room_upto h (2 * (length (limbs x) + length (limbs y)) + 2))"
proof -
  have "binary_value_classified h op (int_value s x) (int_value t y) =
      integer_binary h op (int_value s x) (int_value t y) x y"
    using assms(3) by (auto simp: binary_value_classified_def)
  with integer_binary_correct [of x y op, where h = h and a = "int_value s x" and b = "int_value t y"] assms show ?thesis
    by (auto simp: int_value_def [of "s \<or> t"] split: outcome.splits)
qed

theorem integer_operators_exact_witness:
  "\<exists>r. binary_value_classified (\<lambda>_. True) 4 (VInt sample_big) (VNat \<lparr>sign = 1, limbs = [7]\<rparr>) = Ret (VInt r) \<and>
     big_val r = 2"
proof -
  have v: "value_ok (int_value True sample_big)" by (simp add: sample_big_ok)
  have w: "value_ok (int_value False \<lparr>sign = 1, limbs = [7]\<rparr>)" by (simp add: big_ok_def canonical_def)
  have "big_val sample_big mod big_val \<lparr>sign = 1, limbs = [7]\<rparr> = 2"
    by (simp add: sample_big_ok) (simp add: big_val_def)
  moreover have "room_upto (\<lambda>_. True) (2 * (length (limbs sample_big) + length [7::nat]) + 2)"
    by (rule room_upto_plentiful) (simp_all add: plentiful_def sample_big_ok c_types)
  ultimately show ?thesis
    using integer_operators_exact [OF v w, of 4 "\<lambda>_. True"]
    by (auto simp: int_arith_def int_value_def big_val_def split: outcome.splits)
qed

text \<open>
  C22. When an operand is a rational, or the operator is division of integers, the result is the exact
  rational, reduced and with a positive denominator; comparisons are those of the rational numbers;
  division by zero is a request fault; remainder is refused.
\<close>

theorem rational_operators_exact:
  assumes "rational_operand a" "value_ok a" and "rational_operand b" "value_ok b"
    and "op \<le> 10" and "kind a = V_RAT \<or> kind b = V_RAT \<or> op = 3"
  shows "rational_answer h op a b (binary_value_classified h op a b)"
  using assms rational_binary_correct [OF assms(1-5), of h] by (simp add: binary_value_classified_def)

theorem rational_operators_exact_witness:
  "\<exists>v. binary_value_classified (\<lambda>_. True) 3 (VNat \<lparr>sign = 1, limbs = [6]\<rparr>) (VInt \<lparr>sign = -1, limbs = [4]\<rparr>) = Ret v \<and>
     value_ok v \<and> rat_val v = - 3 / 2"
proof -
  let ?a = "VNat \<lparr>sign = 1, limbs = [6]\<rparr>" and ?b = "VInt \<lparr>sign = -1, limbs = [4]\<rparr>"
  have "room_upto (\<lambda>_. True) (2 * (operand_size ?a + operand_size ?b) + 3)"
    by (rule room_upto_plentiful) (simp_all add: plentiful_def operand_size_def one_big_def c_types)
  then show ?thesis
    using rational_operators_exact [of ?a ?b 3 "\<lambda>_. True"]
    by (auto simp: rational_answer_def rat_arith_def big_ok_def canonical_def big_val_def split: outcome.splits)
qed

definition decimal_answer :: "heap \<Rightarrow> nat \<Rightarrow> Decimal \<Rightarrow> Decimal \<Rightarrow> Value outcome \<Rightarrow> bool" where
  "decimal_answer h op a b out =
     (case out of
        Ret v \<Rightarrow>
          (if op = 4 then
             (\<exists>r k. dec_result v r \<and> dec_val a = of_int k * dec_val b + r \<and> \<bar>r\<bar> < \<bar>dec_val b\<bar> \<and>
                (r = 0 \<or> sgn r = sgn (dec_val a)))
           else dec_result v (rat_arith op (dec_val a) (dec_val b)))
      | Trap m k \<Rightarrow> op = 4 \<and> dec_val b = 0 \<and> k = VM_FAULT_REQUEST
      | NoMemory \<Rightarrow> \<not> (h Cell \<and> room_upto h (2 ^ 33)))"

lemma value_decimal_result:
  "big_ok c \<Longrightarrow> int32_range e \<Longrightarrow> value_decimal h c e = Some v \<Longrightarrow> dec_result v (of_int (big_val c) * 10 powi e)"
  by (auto simp: value_decimal_def value_new_def dec_result_def dec_val_def split: if_splits)

lemma value_decimal_None: "value_decimal h c e = None \<Longrightarrow> \<not> h Cell"
  by (auto simp: value_decimal_def value_new_def split: if_splits)

lemma decimal_answer_sum:
  assumes "op = 0 \<or> op = 1" and l: "big_ok l" "big_ok r" "length (limbs l) \<le> 2 ^ 31" "length (limbs r) \<le> 2 ^ 31"
    and e: "int32_range e"
    and val: "dec_val a = of_int (big_val l) * 10 powi e" "dec_val b = of_int (big_val r) * 10 powi e"
  shows "decimal_answer h op a b
    (case (if op = 0 then pn_big_add h l r else pn_big_sub h l r) of
       None \<Rightarrow> NoMemory | Some c \<Rightarrow> ret_opt (value_decimal h c e))"
proof (cases "if op = 0 then pn_big_add h l r else pn_big_sub h l r")
  case None
  have "\<not> room_upto h (2 ^ 33)"
  proof
    assume "room_upto h (2 ^ 33)"
    with l(3,4) have "room h n" if "n \<le> max (length (limbs l)) (length (limbs r)) + 1" for n
      using that by (simp add: room_upto_def)
    with None add_total [of l r h] sub_total [of l r h] show False by (auto split: if_splits)
  qed
  with None show ?thesis by (simp add: decimal_answer_def)
next
  case (Some c)
  then have c: "big_ok c" "big_val c = (if op = 0 then big_val l + big_val r else big_val l - big_val r)"
    using add_correct [OF l(1,2), of h c] sub_correct [OF l(1,2), of h c] by (auto split: if_splits)
  have sum: "of_int (big_val c) * 10 powi e = rat_arith op (dec_val a) (dec_val b)"
    using assms(1) by (auto simp: rat_arith_def val c(2) algebra_simps)
  show ?thesis
  proof (cases "value_decimal h c e")
    case None
    with Some value_decimal_None [OF None] show ?thesis by (simp add: decimal_answer_def)
  next
    case v: (Some v)
    with Some value_decimal_result [OF c(1) e v] assms(1) show ?thesis
      by (auto simp: decimal_answer_def sum)
  qed
qed

lemma sgn_of_int_rat: "sgn (of_int x :: rat) = of_int (sgn x)"
  by (simp add: sgn_if)

lemma decimal_answer_remainder:
  assumes l: "big_ok l" "big_ok r" "length (limbs l) \<le> 2 ^ 31" "length (limbs r) \<le> 2 ^ 31"
    and e: "int32_range e"
    and val: "dec_val a = of_int (big_val l) * 10 powi e" "dec_val b = of_int (big_val r) * 10 powi e"
    and nz: "sign r \<noteq> 0"
  shows "decimal_answer h 4 a b
    (case pn_big_divmod h l r of None \<Rightarrow> NoMemory | Some (q, c) \<Rightarrow> ret_opt (value_decimal h c e))"
proof (cases "pn_big_divmod h l r")
  case None
  have "\<not> room_upto h (2 ^ 33)"
    using None l divmod_room [OF l(1,2) nz, of h]
      room_upto_mono [of h "2 ^ 33" "max (length (limbs l)) (length (limbs r) + 1)"] by auto
  with None show ?thesis by (simp add: decimal_answer_def)
next
  case (Some qc)
  obtain q c where qc: "qc = (q, c)" by (cases qc)
  from divmod_correct [OF l(1,2) Some [unfolded qc]]
  have c: "big_ok c" "big_val l = big_val q * big_val r + big_val c" "\<bar>big_val c\<bar> < \<bar>big_val r\<bar>"
    "sign c = 0 \<or> sign c = sign l" by simp_all
  let ?c = "of_int (big_val c) * 10 powi e :: rat"
  have "dec_val a = of_int (big_val q) * dec_val b + ?c" by (simp add: val c(2) algebra_simps)
  moreover have "\<bar>?c\<bar> < \<bar>dec_val b\<bar>"
    using c(3) by (simp add: val abs_mult flip: of_int_abs)
  moreover have "?c = 0 \<or> sgn ?c = sgn (dec_val a)"
    using c(4) big_val_sgn [OF c(1)] big_val_sgn [OF l(1)] big_val_0_iff [OF c(1)]
    by (auto simp: val sgn_mult sgn_of_int_rat)
  ultimately have "dec_result v ?c \<Longrightarrow> decimal_answer h 4 a b (Ret v)" for v
    by (auto simp: decimal_answer_def)
  then show ?thesis
    using Some qc value_decimal_result [OF c(1) e, of h] value_decimal_None [of h c e]
    by (cases "value_decimal h c e") (auto simp: decimal_answer_def)
qed

lemma decimal_answer_product:
  assumes a: "moderate a" and b: "moderate b"
  shows "decimal_answer h 2 a b (decimal_binary_classified h 2 a b)"
proof -
  have ok: "big_ok (coefficient a)" "big_ok (coefficient b)" using a b by (simp_all add: moderate_def)
  have range: "int32_range (exponent a + exponent b)" using a b by (auto simp: moderate_def int32_range_def)
  show ?thesis
  proof (cases "pn_big_mul h (coefficient a) (coefficient b)")
    case None
    with mul_room [OF ok, of h "2 ^ 33"] a b have "\<not> room_upto h (2 ^ 33)" by (auto simp: moderate_def)
    with None show ?thesis by (simp add: decimal_binary_classified_def decimal_answer_def)
  next
    case (Some c)
    note c = mul_correct [OF ok Some]
    have "of_int (big_val c) * 10 powi (exponent a + exponent b) = dec_val a * dec_val b"
      using c by (simp add: dec_val_def power_int_add)
    with Some c range value_decimal_result [of c "exponent a + exponent b" h]
      value_decimal_None [of h c "exponent a + exponent b"] show ?thesis
      by (cases "value_decimal h c (exponent a + exponent b)")
        (auto simp: decimal_binary_classified_def decimal_answer_def rat_arith_def)
  qed
qed

text \<open>
  C23. Decimal addition, subtraction, multiplication and remainder are exact on decimals whose
  exponents stay below \<open>2 ^ 29\<close>: remainder truncates, and a zero divisor is a request fault.
\<close>

theorem decimal_operators_exact:
  assumes "moderate a" and "moderate b" and "op \<in> {0, 1, 2, 4}"
  shows "decimal_answer h op a b (binary_value_classified h op (VDec a) (VDec b))"
proof -
  have eq: "binary_value_classified h op (VDec a) (VDec b) = decimal_binary_classified h op a b"
    using assms(3) by (auto simp: binary_value_classified_def)
  have range: "int32_range (min (exponent a) (exponent b))"
    using assms(1,2) by (auto simp: moderate_def int32_range_def)
  show ?thesis
  proof (cases "op = 2")
    case True
    with decimal_answer_product [OF assms(1,2)] show ?thesis unfolding eq by simp
  next
    case False
    show ?thesis
    proof (cases "decimal_align h a b")
      case None
      with decimal_align_correct [OF assms(1,2), of h] have "\<not> room_upto h (2 ^ 32)" by simp
      then have "\<not> room_upto h (2 ^ 33)" using room_upto_mono [of h "2 ^ 33" "2 ^ 32"] by auto
      with None False assms(3) show ?thesis unfolding eq by (auto simp: decimal_binary_classified_def decimal_answer_def)
    next
      case (Some lre)
      obtain l r e where lre: "lre = (l, r, e)" by (cases lre)
      from decimal_align_correct [OF assms(1,2), of h] Some lre
      have al: "big_ok l" "big_ok r" "length (limbs l) \<le> 2 ^ 31" "length (limbs r) \<le> 2 ^ 31" "int32_range e"
        "dec_val a = of_int (big_val l) * 10 powi e" "dec_val b = of_int (big_val r) * 10 powi e"
        using range by auto
      show ?thesis
        using decimal_answer_sum [of op l r e a b h] decimal_answer_remainder [of l r e a b h] al False assms(3) Some lre
        unfolding eq by (auto simp: decimal_binary_classified_def pn_big_is_zero_def div_zero_def decimal_answer_def [of h 4 a b "Trap _ _"]
            big_val_def [of r] split: if_splits)
    qed
  qed
qed

definition sample_dec :: "nat \<Rightarrow> int \<Rightarrow> Decimal" where
  "sample_dec n e = \<lparr>coefficient = \<lparr>sign = 1, limbs = [n]\<rparr>, exponent = e, negative_zero = False\<rparr>"

lemma sample_dec:
  "0 < n \<Longrightarrow> n < BASE \<Longrightarrow> \<bar>e\<bar> \<le> 2 ^ 29 \<Longrightarrow> moderate (sample_dec n e)"
  "dec_val (sample_dec n e) = of_nat n * 10 powi e"
  by (simp_all add: sample_dec_def moderate_def big_ok_def canonical_def dec_val_def big_val_def)

lemma room_upto_true: "n \<le> SIZE_MAX div 4 \<Longrightarrow> room_upto (\<lambda>_. True) n"
  by (simp add: room_upto_def room_def)

theorem decimal_operators_exact_witness:
  "\<exists>v. binary_value_classified (\<lambda>_. True) 0 (VDec (sample_dec 5 (-1))) (VDec (sample_dec 25 (-2))) = Ret v \<and>
     dec_result v (3 / 4)"
  using decimal_operators_exact [of "sample_dec 5 (-1)" "sample_dec 25 (-2)" 0 "\<lambda>_. True"]
  by (auto simp: sample_dec decimal_answer_def rat_arith_def room_upto_true c_types power_int_minus
      split: outcome.splits)

text \<open>
  C16. Decimal division of moderate operands, whose exponents are at most \<open>2 ^ 29\<close> in absolute value and whose
  coefficients have at most \<open>2 ^ 24\<close> limbs, so that no exponent on the way leaves the range of a C \<open>int\<close>.
  When it returns, the divisor is not zero and the result is the exact quotient, at the shortest scale where
  the scale is fractional. When it traps, the trap is a request fault and the divisor is zero or the quotient has
  no finite decimal expansion. It runs out of memory only when an allocation is refused. The loop that strips
  the factors two and five always ends.
\<close>

theorem decimal_division_exact:
  assumes "moderate a" and "moderate b"
  shows "decimal_division_answer h a b (binary_value_classified h 3 (VDec a) (VDec b))"
  using decimal_divide_correct [OF assms, of h]
  by (simp add: binary_value_classified_def decimal_binary_classified_def)

theorem decimal_division_exact_witness:
  "\<exists>v. binary_value_classified (\<lambda>_. True) 3 (VDec (sample_dec 1 0)) (VDec (sample_dec 8 0)) = Ret v \<and>
     dec_result v (1 / 8)"
proof -
  have "finite_decimal (1 / 8)" unfolding finite_decimal_def by (intro exI [of _ 125] exI [of _ 3]) simp
  then show ?thesis
    using decimal_division_exact [of "sample_dec 1 0" "sample_dec 8 0" "\<lambda>_. True"]
    by (auto simp: sample_dec decimal_division_answer_def room_upto_true c_types split: outcome.splits)
qed

lemma int32_fixed: "int32 x = x \<longleftrightarrow> int32_range x"
  using int32_in_range [of x] int32_id [of x] by metis

lemma powi_ten_inject: "(10 :: rat) powi m = 10 powi n \<longleftrightarrow> m = n"
  using power_int_strict_increasing [of m n "10 :: rat"] power_int_strict_increasing [of n m "10 :: rat"]
  by (cases m n rule: linorder_cases) auto

lemma decimal_product_returns:
  assumes "big_ok (coefficient a)" and "big_ok (coefficient b)"
    and "room h (length (limbs (coefficient a)) + length (limbs (coefficient b)))" and "h Cell"
  shows "\<exists>v. binary_value_classified h 2 (VDec a) (VDec b) = Ret v"
  using mul_total [OF assms(1-3)] assms(4)
  by (auto simp: binary_value_classified_def decimal_binary_classified_def value_decimal_def value_new_def)

text \<open>
  C33. The exponent of a decimal product is added as a C \<open>int\<close>, without a check. With memory for the product of
  the coefficients the product is always returned; its coefficient is exact and its exponent is the sum of the
  exponents wrapped to 32 bits, the usual outcome of the undefined overflow. So the product is right exactly
  when it is zero or the sum is in range, and outside that range a wrong value is returned without a diagnostic.
\<close>

theorem decimal_product_exponent_wraps:
  assumes "big_ok (coefficient a)" and "big_ok (coefficient b)"
  shows "(room h (length (limbs (coefficient a)) + length (limbs (coefficient b))) \<and> h Cell \<longrightarrow>
      (\<exists>v. binary_value_classified h 2 (VDec a) (VDec b) = Ret v)) \<and>
    (\<forall>v. binary_value_classified h 2 (VDec a) (VDec b) = Ret v \<longrightarrow>
      (\<exists>d. v = VDec d \<and> big_val (coefficient d) = big_val (coefficient a) * big_val (coefficient b) \<and>
        exponent d = int32 (exponent a + exponent b) \<and>
        (dec_val d = dec_val a * dec_val b \<longleftrightarrow>
          big_val (coefficient a) * big_val (coefficient b) = 0 \<or> int32_range (exponent a + exponent b))))"
proof (intro conjI impI allI)
  let ?o = "binary_value_classified h 2 (VDec a) (VDec b)"
  have o: "?o = (case pn_big_mul h (coefficient a) (coefficient b) of None \<Rightarrow> NoMemory
      | Some r \<Rightarrow> ret_opt (value_decimal h r (int32 (exponent a + exponent b))))"
    by (simp add: binary_value_classified_def decimal_binary_classified_def)
  show "\<exists>v. ?o = Ret v" if "room h (length (limbs (coefficient a)) + length (limbs (coefficient b))) \<and> h Cell"
    using decimal_product_returns [OF assms, of h] that by blast
  fix v assume "?o = Ret v"
  then obtain r where r: "pn_big_mul h (coefficient a) (coefficient b) = Some r"
    "v = VDec \<lparr>coefficient = r, exponent = int32 (exponent a + exponent b), negative_zero = False\<rparr>"
    by (auto simp: o value_decimal_def value_new_def ret_opt_Ret split: option.splits if_splits)
  let ?p = "of_int (big_val (coefficient a) * big_val (coefficient b)) :: rat"
  have "big_val r = big_val (coefficient a) * big_val (coefficient b)" using mul_correct [OF assms r(1)] by blast
  moreover have "dec_val a * dec_val b = ?p * 10 powi (exponent a + exponent b)" by (simp add: dec_val_def power_int_add)
  ultimately show "\<exists>d. v = VDec d \<and> big_val (coefficient d) = big_val (coefficient a) * big_val (coefficient b) \<and>
      exponent d = int32 (exponent a + exponent b) \<and>
      (dec_val d = dec_val a * dec_val b \<longleftrightarrow>
        big_val (coefficient a) * big_val (coefficient b) = 0 \<or> int32_range (exponent a + exponent b))"
    using r(2) by (simp add: dec_val_def powi_ten_inject int32_fixed flip: of_int_mult)
qed

theorem decimal_product_exponent_wraps_witness:
  "\<exists>d. binary_value_classified (\<lambda>_. True) 2 (VDec (sample_dec 1 (2 ^ 30))) (VDec (sample_dec 1 (2 ^ 30))) = Ret (VDec d) \<and>
     exponent d = - (2 ^ 31) \<and> dec_val d \<noteq> dec_val (sample_dec 1 (2 ^ 30)) * dec_val (sample_dec 1 (2 ^ 30))"
proof -
  let ?a = "sample_dec 1 (2 ^ 30)"
  have ok: "big_ok (coefficient ?a)" by (simp add: sample_dec_def big_ok_def canonical_def)
  have s: "big_val (coefficient ?a) = 1" "exponent ?a = 2 ^ 30" "length (limbs (coefficient ?a)) = 1"
    by (simp_all add: sample_dec_def big_val_def)
  have e: "int32 (2 ^ 30 + 2 ^ 30) = - (2 ^ 31)" "\<not> int32_range (2 ^ 30 + 2 ^ 30)" by (simp_all add: int32_def int32_range_def)
  have m: "room (\<lambda>_. True) (1 + 1)" by (simp add: room_def c_types)
  from decimal_product_exponent_wraps [OF ok ok, of "\<lambda>_. True", unfolded s] m e show ?thesis by auto
qed

text \<open>
  C31. Every operator keeps values well formed: canonical integers, nonnegative naturals, reduced
  rationals, valid text with correct caches.
\<close>

theorem operators_preserve_values:
  assumes "value_ok a" and "value_ok b" and "binary_value_classified h op a b = Ret v"
  shows "value_ok v"
  using binary_value_ok [OF assms(3,1,2)] .

theorem operators_preserve_values_witness:
  "\<exists>v. binary_value_classified (\<lambda>_. True) 2 (VDec (sample_dec 7 1)) (VDec (sample_dec 6 0)) = Ret v \<and> value_ok v"
proof -
  have ok: "value_ok (VDec (sample_dec 7 1))" "value_ok (VDec (sample_dec 6 0))"
    by (simp_all add: sample_dec_def big_ok_def canonical_def int32_range_def)
  have "\<exists>v. binary_value_classified (\<lambda>_. True) 2 (VDec (sample_dec 7 1)) (VDec (sample_dec 6 0)) = Ret v"
    using ok by (intro decimal_product_returns) (simp_all add: sample_dec_def room_def c_types)
  with operators_preserve_values [OF ok] show ?thesis by blast
qed

text \<open>
  C32. A trap of an operator is a request fault exactly when it reports one of the three domain
  failures, division by zero, \<open>Nat\<close> underflow and a non-terminating decimal quotient; every other trap
  is fatal.
\<close>

theorem operator_fault_classes:
  assumes "binary_value_classified h op a b = Trap m k"
  shows "k = VM_FAULT_REQUEST \<longleftrightarrow> m \<in> set request_traps"
  using assms
  by (auto simp: binary_value_classified_def string_concat_def split: if_splits
      dest: rational_binary_trap decimal_binary_trap integer_binary_trap)
    (simp_all add: request_traps_def)

theorem operator_fault_classes_witness:
  "''VM trap: incompatible binary operands'' \<notin> set request_traps"
  using operator_fault_classes [of "\<lambda>_. True" 0 VUnit VUnit "''VM trap: incompatible binary operands''" VM_FAULT_FATAL]
  by (simp add: binary_value_classified_def integer_kind_def)

end
