(* ===== verification/Builtins.thy ===== *)
theory Builtins
  imports Numeric Program
begin

text \<open>
  The builtin registry, \<open>src/vm/builtins.c\<close>, and the native library it selects for values of the
  language alone: \<open>builtins_numeric.c\<close>, \<open>builtins_collections.c\<close> and \<open>builtins_text.c\<close>.

  A handler borrows its arguments and returns a value, a diagnostic or NULL; which is an \<open>outcome\<close>. The
  callers pass as many arguments as the registry says, so \<open>a ! i\<close> is in range wherever it is read.
\<close>

section \<open>The registry\<close>

text \<open>The implementations the registry points to.\<close>

datatype Handler =
    HTTP_CONNECTION | HTTP_WRITER | HTTP_STATE | ASYNC_SERVICE | HOST_CAPABILITY | FILESYSTEM_STAGE
  | DIGEST | HTTP_STREAM | GZIP_STREAM | HOST_TYPE | NUMERIC | HOST | TEXT | COLLECTIONS | NESTED_VM

record Builtin =
  bname :: string
  arity :: nat
  bpure :: bool
  bcall :: Handler

definition BUILTINS :: "Builtin list" where
  "BUILTINS =
    [\<lparr>bname = ''http_bytes_slice'', arity = 3, bpure = True, bcall = HTTP_CONNECTION\<rparr>,
     \<lparr>bname = ''http_body'', arity = 1, bpure = False, bcall = HTTP_CONNECTION\<rparr>,
     \<lparr>bname = ''http_body_size'', arity = 1, bpure = False, bcall = HTTP_CONNECTION\<rparr>,
     \<lparr>bname = ''http_body_append'', arity = 4, bpure = False, bcall = HTTP_CONNECTION\<rparr>,
     \<lparr>bname = ''http_connection_continue'', arity = 1, bpure = False, bcall = ASYNC_SERVICE\<rparr>,
     \<lparr>bname = ''http_listen_ordinary'', arity = 2, bpure = False, bcall = ASYNC_SERVICE\<rparr>,
     \<lparr>bname = ''http_listen_contextual'', arity = 2, bpure = False, bcall = ASYNC_SERVICE\<rparr>,
     \<lparr>bname = ''http_close'', arity = 1, bpure = False, bcall = ASYNC_SERVICE\<rparr>,
     \<lparr>bname = ''http_destroy'', arity = 1, bpure = False, bcall = ASYNC_SERVICE\<rparr>,
     \<lparr>bname = ''http_connection_invoke'', arity = 4, bpure = False, bcall = ASYNC_SERVICE\<rparr>,
     \<lparr>bname = ''http_connection_writer'', arity = 1, bpure = False, bcall = HTTP_CONNECTION\<rparr>,
     \<lparr>bname = ''http_connection_routes'', arity = 1, bpure = False, bcall = HTTP_CONNECTION\<rparr>,
     \<lparr>bname = ''http_connection_fallback'', arity = 1, bpure = False, bcall = HTTP_CONNECTION\<rparr>,
     \<lparr>bname = ''http_connection_admit'', arity = 1, bpure = False, bcall = HTTP_CONNECTION\<rparr>,
     \<lparr>bname = ''http_writer_get_status'', arity = 1, bpure = False, bcall = HTTP_WRITER\<rparr>,
     \<lparr>bname = ''http_writer_get_headers'', arity = 1, bpure = False, bcall = HTTP_WRITER\<rparr>,
     \<lparr>bname = ''http_writer_reject'', arity = 1, bpure = False, bcall = HTTP_WRITER\<rparr>,
     \<lparr>bname = ''http_writer_status'', arity = 2, bpure = False, bcall = HTTP_WRITER\<rparr>,
     \<lparr>bname = ''http_writer_headers'', arity = 2, bpure = False, bcall = HTTP_WRITER\<rparr>,
     \<lparr>bname = ''http_writer_commit'', arity = 2, bpure = False, bcall = HTTP_WRITER\<rparr>,
     \<lparr>bname = ''http_state_create'', arity = 3, bpure = False, bcall = HTTP_STATE\<rparr>,
     \<lparr>bname = ''http_state_context'', arity = 1, bpure = True, bcall = HTTP_STATE\<rparr>,
     \<lparr>bname = ''http_state_setup_error'', arity = 1, bpure = False, bcall = HTTP_STATE\<rparr>,
     \<lparr>bname = ''http_state_fail_setup'', arity = 1, bpure = False, bcall = HTTP_STATE\<rparr>,
     \<lparr>bname = ''http_state_register'', arity = 4, bpure = False, bcall = HTTP_STATE\<rparr>,
     \<lparr>bname = ''tcp_service'', arity = 6, bpure = False, bcall = ASYNC_SERVICE\<rparr>,
     \<lparr>bname = ''host_arguments_async'', arity = 0, bpure = False, bcall = ASYNC_SERVICE\<rparr>,
     \<lparr>bname = ''host_stdout_async'', arity = 1, bpure = False, bcall = ASYNC_SERVICE\<rparr>,
     \<lparr>bname = ''host_stderr_async'', arity = 1, bpure = False, bcall = ASYNC_SERVICE\<rparr>,
     \<lparr>bname = ''host_exit_async'', arity = 1, bpure = False, bcall = ASYNC_SERVICE\<rparr>,
     \<lparr>bname = ''async_fake_read'', arity = 1, bpure = False, bcall = ASYNC_SERVICE\<rparr>,
     \<lparr>bname = ''$tcp_exchange'', arity = 5, bpure = False, bcall = ASYNC_SERVICE\<rparr>,
     \<lparr>bname = ''$http_transport_exchange'', arity = 6, bpure = False, bcall = ASYNC_SERVICE\<rparr>,
     \<lparr>bname = ''$tcp_serve'', arity = 4, bpure = False, bcall = ASYNC_SERVICE\<rparr>,
     \<lparr>bname = ''$tcp_serve_stream'', arity = 5, bpure = False, bcall = ASYNC_SERVICE\<rparr>,
     \<lparr>bname = ''$tcp_server_read_chunk'', arity = 1, bpure = False, bcall = ASYNC_SERVICE\<rparr>,
     \<lparr>bname = ''fs_root_identity_async'', arity = 1, bpure = False, bcall = ASYNC_SERVICE\<rparr>,
     \<lparr>bname = ''fs_read_beneath_async'', arity = 3, bpure = False, bcall = ASYNC_SERVICE\<rparr>,
     \<lparr>bname = ''fs_read_beneath'', arity = 3, bpure = False, bcall = HOST_CAPABILITY\<rparr>,
     \<lparr>bname = ''fs_directories_overlap'', arity = 2, bpure = False, bcall = HOST_CAPABILITY\<rparr>,
     \<lparr>bname = ''fs_read'', arity = 2, bpure = False, bcall = HOST_CAPABILITY\<rparr>,
     \<lparr>bname = ''fs_write'', arity = 2, bpure = False, bcall = HOST_CAPABILITY\<rparr>,
     \<lparr>bname = ''fs_metadata'', arity = 1, bpure = False, bcall = HOST_CAPABILITY\<rparr>,
     \<lparr>bname = ''fs_list'', arity = 1, bpure = False, bcall = HOST_CAPABILITY\<rparr>,
     \<lparr>bname = ''fs_create_directory'', arity = 1, bpure = False, bcall = HOST_CAPABILITY\<rparr>,
     \<lparr>bname = ''fs_remove_file'', arity = 1, bpure = False, bcall = HOST_CAPABILITY\<rparr>,
     \<lparr>bname = ''fs_remove_directory'', arity = 1, bpure = False, bcall = HOST_CAPABILITY\<rparr>,
     \<lparr>bname = ''fs_stage_begin'', arity = 1, bpure = False, bcall = FILESYSTEM_STAGE\<rparr>,
     \<lparr>bname = ''fs_stage_path'', arity = 1, bpure = False, bcall = FILESYSTEM_STAGE\<rparr>,
     \<lparr>bname = ''fs_stage_directory'', arity = 2, bpure = False, bcall = FILESYSTEM_STAGE\<rparr>,
     \<lparr>bname = ''fs_stage_write'', arity = 4, bpure = False, bcall = FILESYSTEM_STAGE\<rparr>,
     \<lparr>bname = ''fs_stage_symlink'', arity = 3, bpure = False, bcall = FILESYSTEM_STAGE\<rparr>,
     \<lparr>bname = ''fs_read_link'', arity = 2, bpure = False, bcall = FILESYSTEM_STAGE\<rparr>,
     \<lparr>bname = ''fs_stage_publish'', arity = 3, bpure = False, bcall = FILESYSTEM_STAGE\<rparr>,
     \<lparr>bname = ''fs_stage_close'', arity = 1, bpure = False, bcall = FILESYSTEM_STAGE\<rparr>,
     \<lparr>bname = ''digest_sha256_open'', arity = 0, bpure = False, bcall = DIGEST\<rparr>,
     \<lparr>bname = ''digest_update'', arity = 2, bpure = False, bcall = DIGEST\<rparr>,
     \<lparr>bname = ''digest_finish'', arity = 1, bpure = False, bcall = DIGEST\<rparr>,
     \<lparr>bname = ''digest_close'', arity = 1, bpure = False, bcall = DIGEST\<rparr>,
     \<lparr>bname = ''http_stream_open'', arity = 6, bpure = False, bcall = HTTP_STREAM\<rparr>,
     \<lparr>bname = ''http_stream_read'', arity = 1, bpure = False, bcall = HTTP_STREAM\<rparr>,
     \<lparr>bname = ''http_stream_close'', arity = 1, bpure = False, bcall = HTTP_STREAM\<rparr>,
     \<lparr>bname = ''gzip_open'', arity = 1, bpure = False, bcall = GZIP_STREAM\<rparr>,
     \<lparr>bname = ''gzip_step'', arity = 3, bpure = False, bcall = GZIP_STREAM\<rparr>,
     \<lparr>bname = ''gzip_close'', arity = 1, bpure = False, bcall = GZIP_STREAM\<rparr>,
     \<lparr>bname = ''fs_read_chunk'', arity = 3, bpure = False, bcall = FILESYSTEM_STAGE\<rparr>,
     \<lparr>bname = ''fs_atomic_write'', arity = 2, bpure = False, bcall = FILESYSTEM_STAGE\<rparr>,
     \<lparr>bname = ''fs_temp_file'', arity = 1, bpure = False, bcall = HOST_CAPABILITY\<rparr>,
     \<lparr>bname = ''fs_temp_directory'', arity = 1, bpure = False, bcall = HOST_CAPABILITY\<rparr>,
     \<lparr>bname = ''host_decode_utf8'', arity = 1, bpure = True, bcall = HOST_CAPABILITY\<rparr>,
     \<lparr>bname = ''host_sleep'', arity = 1, bpure = False, bcall = HOST_CAPABILITY\<rparr>,
     \<lparr>bname = ''process_run'', arity = 7, bpure = False, bcall = HOST_CAPABILITY\<rparr>,
     \<lparr>bname = ''process_run_isolated'', arity = 7, bpure = False, bcall = HOST_CAPABILITY\<rparr>,
     \<lparr>bname = ''path_from_text'', arity = 1, bpure = True, bcall = HOST_TYPE\<rparr>,
     \<lparr>bname = ''path_from_native'', arity = 1, bpure = True, bcall = HOST_TYPE\<rparr>,
     \<lparr>bname = ''path_to_text'', arity = 1, bpure = True, bcall = HOST_TYPE\<rparr>,
     \<lparr>bname = ''path_native_bytes'', arity = 1, bpure = True, bcall = HOST_TYPE\<rparr>,
     \<lparr>bname = ''path_display'', arity = 1, bpure = True, bcall = HOST_TYPE\<rparr>,
     \<lparr>bname = ''path_absolute'', arity = 1, bpure = True, bcall = HOST_TYPE\<rparr>,
     \<lparr>bname = ''path_append'', arity = 2, bpure = True, bcall = HOST_TYPE\<rparr>,
     \<lparr>bname = ''path_directory'', arity = 1, bpure = True, bcall = HOST_TYPE\<rparr>,
     \<lparr>bname = ''path_filename'', arity = 1, bpure = True, bcall = HOST_TYPE\<rparr>,
     \<lparr>bname = ''path_current'', arity = 0, bpure = True, bcall = HOST_TYPE\<rparr>,
     \<lparr>bname = ''duration_nanoseconds'', arity = 1, bpure = True, bcall = HOST_TYPE\<rparr>,
     \<lparr>bname = ''duration_ticks'', arity = 1, bpure = True, bcall = HOST_TYPE\<rparr>,
     \<lparr>bname = ''duration_from_seconds'', arity = 1, bpure = True, bcall = HOST_TYPE\<rparr>,
     \<lparr>bname = ''instant_now'', arity = 0, bpure = False, bcall = HOST_TYPE\<rparr>,
     \<lparr>bname = ''instant_add'', arity = 2, bpure = True, bcall = HOST_TYPE\<rparr>,
     \<lparr>bname = ''instant_difference'', arity = 2, bpure = True, bcall = HOST_TYPE\<rparr>,
     \<lparr>bname = ''instant_before'', arity = 2, bpure = True, bcall = HOST_TYPE\<rparr>,
     \<lparr>bname = ''$unit'', arity = 0, bpure = True, bcall = NUMERIC\<rparr>,
     \<lparr>bname = ''nat'', arity = 1, bpure = True, bcall = NUMERIC\<rparr>,
     \<lparr>bname = ''dec'', arity = 1, bpure = True, bcall = NUMERIC\<rparr>,
     \<lparr>bname = ''quotient'', arity = 2, bpure = True, bcall = NUMERIC\<rparr>,
     \<lparr>bname = ''print'', arity = 1, bpure = False, bcall = HOST\<rparr>,
     \<lparr>bname = ''read_line'', arity = 0, bpure = False, bcall = HOST\<rparr>,
     \<lparr>bname = ''read_file'', arity = 1, bpure = False, bcall = HOST\<rparr>,
     \<lparr>bname = ''write_file'', arity = 2, bpure = False, bcall = HOST\<rparr>,
     \<lparr>bname = ''len'', arity = 1, bpure = True, bcall = TEXT\<rparr>,
     \<lparr>bname = ''append'', arity = 2, bpure = True, bcall = COLLECTIONS\<rparr>,
     \<lparr>bname = ''concat'', arity = 2, bpure = True, bcall = TEXT\<rparr>,
     \<lparr>bname = ''slice'', arity = 3, bpure = True, bcall = TEXT\<rparr>,
     \<lparr>bname = ''starts_with'', arity = 2, bpure = True, bcall = TEXT\<rparr>,
     \<lparr>bname = ''starts_with_at'', arity = 3, bpure = True, bcall = TEXT\<rparr>,
     \<lparr>bname = ''reverse'', arity = 1, bpure = True, bcall = TEXT\<rparr>,
     \<lparr>bname = ''is_digit'', arity = 1, bpure = True, bcall = TEXT\<rparr>,
     \<lparr>bname = ''is_letter'', arity = 1, bpure = True, bcall = TEXT\<rparr>,
     \<lparr>bname = ''is_whitespace'', arity = 1, bpure = True, bcall = TEXT\<rparr>,
     \<lparr>bname = ''map'', arity = 0, bpure = True, bcall = COLLECTIONS\<rparr>,
     \<lparr>bname = ''map_put'', arity = 3, bpure = True, bcall = COLLECTIONS\<rparr>,
     \<lparr>bname = ''map_has'', arity = 2, bpure = True, bcall = COLLECTIONS\<rparr>,
     \<lparr>bname = ''map_get'', arity = 2, bpure = True, bcall = COLLECTIONS\<rparr>,
     \<lparr>bname = ''$method_put'', arity = 3, bpure = True, bcall = COLLECTIONS\<rparr>,
     \<lparr>bname = ''$method_has'', arity = 2, bpure = True, bcall = COLLECTIONS\<rparr>,
     \<lparr>bname = ''$method_get'', arity = 2, bpure = True, bcall = COLLECTIONS\<rparr>,
     \<lparr>bname = ''set'', arity = 0, bpure = True, bcall = COLLECTIONS\<rparr>,
     \<lparr>bname = ''set_add'', arity = 2, bpure = True, bcall = COLLECTIONS\<rparr>,
     \<lparr>bname = ''set_has'', arity = 2, bpure = True, bcall = COLLECTIONS\<rparr>,
     \<lparr>bname = ''$method_add'', arity = 2, bpure = True, bcall = COLLECTIONS\<rparr>,
     \<lparr>bname = ''bytes'', arity = 0, bpure = True, bcall = COLLECTIONS\<rparr>,
     \<lparr>bname = ''byte_append'', arity = 2, bpure = True, bcall = TEXT\<rparr>,
     \<lparr>bname = ''bytes_concat'', arity = 2, bpure = True, bcall = TEXT\<rparr>,
     \<lparr>bname = ''byte_len'', arity = 1, bpure = True, bcall = TEXT\<rparr>,
     \<lparr>bname = ''byte_get'', arity = 2, bpure = True, bcall = TEXT\<rparr>,
     \<lparr>bname = ''utf8_encode'', arity = 1, bpure = True, bcall = TEXT\<rparr>,
     \<lparr>bname = ''utf8_decode'', arity = 1, bpure = True, bcall = TEXT\<rparr>,
     \<lparr>bname = ''read_bytes'', arity = 1, bpure = False, bcall = HOST\<rparr>,
     \<lparr>bname = ''write_bytes'', arity = 2, bpure = False, bcall = HOST\<rparr>,
     \<lparr>bname = ''nat_from_str'', arity = 1, bpure = True, bcall = TEXT\<rparr>,
     \<lparr>bname = ''command_args'', arity = 0, bpure = False, bcall = HOST\<rparr>,
     \<lparr>bname = ''environment_has'', arity = 1, bpure = False, bcall = HOST\<rparr>,
     \<lparr>bname = ''environment_get'', arity = 1, bpure = False, bcall = HOST\<rparr>,
     \<lparr>bname = ''eprint'', arity = 1, bpure = False, bcall = HOST\<rparr>,
     \<lparr>bname = ''process_exit'', arity = 1, bpure = False, bcall = HOST\<rparr>,
     \<lparr>bname = ''path_resolve'', arity = 1, bpure = False, bcall = HOST\<rparr>,
     \<lparr>bname = ''path_parent'', arity = 1, bpure = True, bcall = HOST\<rparr>,
     \<lparr>bname = ''path_join'', arity = 2, bpure = True, bcall = HOST\<rparr>,
     \<lparr>bname = ''path_suffix'', arity = 1, bpure = True, bcall = HOST\<rparr>,
     \<lparr>bname = ''path_with_suffix'', arity = 2, bpure = True, bcall = HOST\<rparr>,
     \<lparr>bname = ''path_is_absolute'', arity = 1, bpure = True, bcall = HOST\<rparr>,
     \<lparr>bname = ''file_exists'', arity = 1, bpure = False, bcall = HOST\<rparr>,
     \<lparr>bname = ''run_bytecode'', arity = 1, bpure = False, bcall = NESTED_VM\<rparr>,
     \<lparr>bname = ''run_bytecode_args'', arity = 2, bpure = False, bcall = NESTED_VM\<rparr>]"

definition streq :: "string \<Rightarrow> string \<Rightarrow> bool" where
  "streq s t \<longleftrightarrow> strcmp s t = 0"

fun find_builtin :: "string \<Rightarrow> Builtin list \<Rightarrow> Builtin option" where
  "find_builtin name [] = None"
| "find_builtin name (e # es) = (if streq name (bname e) then Some e else find_builtin name es)"

definition builtin :: "string \<Rightarrow> Builtin option" where
  "builtin name = find_builtin name BUILTINS"

definition builtin_is_async :: "Builtin option \<Rightarrow> bool" where
  "builtin_is_async entry = (case entry of None \<Rightarrow> False | Some e \<Rightarrow> bcall e = ASYNC_SERVICE)"

definition builtin_is_local_state :: "Builtin option \<Rightarrow> bool" where
  "builtin_is_local_state entry =
     (case entry of None \<Rightarrow> False | Some e \<Rightarrow> bcall e \<in> {HTTP_STATE, HTTP_WRITER, HTTP_CONNECTION})"

definition async_service_only :: "Value outcome" where
  "async_service_only = Trap ''VM trap: async service requires await'' VM_FAULT_FATAL"

abbreviation fatal :: "string \<Rightarrow> Value outcome" where
  "fatal message \<equiv> Trap message VM_FAULT_FATAL"

abbreviation request_fault :: "string \<Rightarrow> Value outcome" where
  "request_fault message \<equiv> Trap message VM_FAULT_REQUEST"

section \<open>Numbers\<close>

fun as_rational :: "Value \<Rightarrow> PnBigInt \<times> PnBigInt" where
  "as_rational (VRat n d) = (n, d)"
| "as_rational _ = (pn_big_init, pn_big_init)"

definition builtins_numeric_call :: "heap \<Rightarrow> string \<Rightarrow> Value list \<Rightarrow> Value outcome" where
  "builtins_numeric_call h name a =
     (if streq name ''$unit'' then ret_opt (value_new h VUnit)
      else if streq name ''quotient'' then
        (if \<not> (kind (a ! 0) = V_NAT \<and> kind (a ! 1) = V_NAT) then fatal ''VM trap: quotient requires Nat operands''
         else if pn_big_is_zero (as_integer (a ! 1)) then fatal ''VM trap: division by zero''
         else case pn_big_divmod h (as_integer (a ! 0)) (as_integer (a ! 1)) of
           None \<Rightarrow> NoMemory
         | Some (q, r) \<Rightarrow> ret_opt (value_big h VNat q))
      else if streq name ''nat'' \<or> streq name ''dec'' then
        (if kind (a ! 0) \<noteq> V_RAT then fatal ''VM trap: rational conversion requires Rat''
         else case as_rational (a ! 0) of (n, d) \<Rightarrow>
           if streq name ''nat'' then
             (if \<not> (sign n \<ge> 0 \<and> pn_big_is_one d) then fatal ''VM trap: Rat is not an exact Nat''
              else ret_opt (value_big h VNat n))
           else decimal_binary_classified h 3 \<lparr>coefficient = n, exponent = 0, negative_zero = False\<rparr>
                  \<lparr>coefficient = d, exponent = 0, negative_zero = False\<rparr>)
      else fatal ''VM trap: unknown builtin'')"

section \<open>Collections\<close>

text \<open>The search for a key from the last pair to the first, \<open>i\<close> slots being left.\<close>

fun find_key :: "Value list \<Rightarrow> Value \<Rightarrow> nat \<Rightarrow> Value option" where
  "find_key items key i =
     (if i \<ge> 2 then
        if value_equal (items ! (i - 2)) key then Some (items ! (i - 1)) else find_key items key (i - 2)
      else None)"

text \<open>The pairs whose key differs. An odd slot would be read past the array.\<close>

fun drop_key :: "Value \<Rightarrow> Value list \<Rightarrow> Value list" where
  "drop_key key (k # v # items) =
     (if \<not> value_equal k key then k # v # drop_key key items else drop_key key items)"
| "drop_key key _ = []"

definition map_put :: "heap \<Rightarrow> Value list \<Rightarrow> Value \<Rightarrow> Value \<Rightarrow> Value option" where
  "map_put h items key v =
     (if \<not> h (Slots (length items + 2)) then None
      else value_sequence h V_MAP (drop_key key items @ [key, v]))"

fun set_member :: "Value list \<Rightarrow> Value \<Rightarrow> bool" where
  "set_member [] x = False"
| "set_member (y # ys) x = (value_equal y x \<or> set_member ys x)"

definition set_add :: "heap \<Rightarrow> Value list \<Rightarrow> Value \<Rightarrow> Value option" where
  "set_add h items x =
     (if set_member items x then Some (VSet items)
      else if \<not> h (Slots (length items + 1)) then None
      else value_sequence h V_SET (items @ [x]))"

definition builtins_collections_call :: "heap \<Rightarrow> string \<Rightarrow> Value list \<Rightarrow> Value outcome" where
  "builtins_collections_call h name a =
     (if streq name ''append'' then
        (if kind (a ! 0) \<noteq> V_ARRAY then fatal ''VM trap: append requires Array''
         else ret_opt (value_array_append h (as_sequence (a ! 0)) (a ! 1)))
      else if streq name ''map'' \<or> streq name ''set'' \<or> streq name ''bytes'' then
        ret_opt (if streq name ''bytes'' then value_data h V_BYTES []
                 else value_sequence h (if streq name ''map'' then V_MAP else V_SET) [])
      else if streq name ''$method_has'' \<and> \<not> (kind (a ! 0) = V_MAP \<or> kind (a ! 0) = V_SET) then
        fatal ''VM trap: has requires Map or Set''
      else if streq name ''map_has'' \<or> streq name ''map_get'' \<or> streq name ''$method_get'' \<or>
        streq name ''$method_has'' \<and> kind (a ! 0) = V_MAP then
        (if kind (a ! 0) \<noteq> V_MAP then fatal ''VM trap: map operation requires Map''
         else
           let items = as_sequence (a ! 0); has = (streq name ''map_has'' \<or> streq name ''$method_has'') in
           case find_key items (a ! 1) (length items) of
             Some v \<Rightarrow> if has then ret_opt (value_bool h True) else Ret v
           | None \<Rightarrow> if has then ret_opt (value_bool h False)
                     else request_fault ''VM trap: map key was not found'')
      else if streq name ''map_put'' \<or> streq name ''$method_put'' then
        (if kind (a ! 0) \<noteq> V_MAP then fatal ''VM trap: map_put requires Map''
         else ret_opt (map_put h (as_sequence (a ! 0)) (a ! 1) (a ! 2)))
      else if streq name ''set_has'' \<or> streq name ''$method_has'' then
        (if kind (a ! 0) \<noteq> V_SET then fatal ''VM trap: set_has requires Set''
         else ret_opt (value_bool h (set_member (as_sequence (a ! 0)) (a ! 1))))
      else if streq name ''set_add'' \<or> streq name ''$method_add'' then
        (if kind (a ! 0) \<noteq> V_SET then fatal ''VM trap: set_add requires Set''
         else ret_opt (set_add h (as_sequence (a ! 0)) (a ! 1)))
      else fatal ''VM trap: unknown builtin'')"

section \<open>Text and bytes\<close>

fun as_text :: "Value \<Rightarrow> pn_bytes" where
  "as_text (VStr s) = s"
| "as_text v = \<lparr>data = as_bytes v, characters = 0, ascii = False\<rparr>"

definition text_len :: "heap \<Rightarrow> Value \<Rightarrow> Value outcome" where
  "text_len h v =
     (if kind v = V_MAP \<or> kind v = V_SET then
        let slots = length (as_sequence v) in ret_opt (value_size h (if kind v = V_MAP then slots div 2 else slots))
      else if \<not> (kind v = V_STR \<or> kind v = V_BYTES \<or> kind v = V_ARRAY) then
        fatal ''VM trap: len requires Str, Bytes, Array, Map, or Set''
      else ret_opt (value_size h (if kind v = V_STR then characters (as_text v)
             else if kind v = V_BYTES then length (as_bytes v) else length (as_sequence v))))"

definition text_concat :: "heap \<Rightarrow> Value list \<Rightarrow> Value list \<Rightarrow> Value option" where
  "text_concat h xs ys =
     (let n = length xs + length ys in
      if \<not> h (Slots n) \<and> n \<noteq> 0 then None else value_sequence h V_ARRAY (xs @ ys))"

text \<open>The byte offset of a code point index, the end of the text included.\<close>

definition boundary :: "pn_bytes \<Rightarrow> nat \<Rightarrow> nat option" where
  "boundary s i = (if i = characters s then Some (length (data s)) else map_option fst (utf8_offset s i))"

definition text_slice :: "heap \<Rightarrow> Value \<Rightarrow> Value \<Rightarrow> Value \<Rightarrow> Value outcome" where
  "text_slice h v i j =
     (if \<not> (kind v = V_STR \<and> kind i = V_NAT \<and> kind j = V_NAT) then
        fatal ''VM trap: slice requires Str and Nat bounds''
      else case (value_index i, value_index j) of
        (Some start, Some end) \<Rightarrow>
          let s = as_text v; count = characters s in
          if start > end \<or> end > count then request_fault ''VM trap: invalid string slice''
          else
            (case boundary s start of
               None \<Rightarrow> NoMemory
             | Some bs \<Rightarrow>
                 (case boundary s end of
                    None \<Rightarrow> NoMemory
                  | Some be \<Rightarrow> ret_opt (value_data h V_STR (take (be - bs) (drop bs (data s))))))
      | _ \<Rightarrow> request_fault ''VM trap: invalid string slice'')"

text \<open>\<open>starts_with\<close> and \<open>starts_with_at\<close>; the first has no offset.\<close>

definition prefix_at :: "byte list \<Rightarrow> byte list \<Rightarrow> nat \<Rightarrow> bool" where
  "prefix_at s p bs \<longleftrightarrow> length p \<le> length s - bs \<and> take (length p) (drop bs s) = p"

definition text_starts_with :: "heap \<Rightarrow> Value \<Rightarrow> Value \<Rightarrow> Value option \<Rightarrow> Value outcome" where
  "text_starts_with h v p offset =
     (if \<not> (kind v = V_STR \<and> kind p = V_STR) then fatal ''VM trap: starts_with requires Str''
      else case offset of
        None \<Rightarrow> ret_opt (value_bool h (prefix_at (as_bytes v) (as_bytes p) 0))
      | Some n \<Rightarrow>
          if kind n \<noteq> V_NAT then fatal ''VM trap: starts_with_at requires Nat offset''
          else case value_index n of
            None \<Rightarrow> ret_opt (value_bool h False)
          | Some i \<Rightarrow>
              (case boundary (as_text v) i of
                 None \<Rightarrow> ret_opt (value_bool h False)
               | Some bs \<Rightarrow> ret_opt (value_bool h (prefix_at (as_bytes v) (as_bytes p) bs))))"

text \<open>The copying loop of \<open>reverse\<close>: the character at the front of the rest goes before \<open>done\<close>.\<close>

function reverse_loop :: "byte list \<Rightarrow> byte list \<Rightarrow> byte list" where
  "reverse_loop [] out = out"
| "reverse_loop (c # s) out =
     (let width = char_width c in reverse_loop (drop width (c # s)) (take width (c # s) @ out))"
  by pat_completeness auto

termination
  by (relation "measure (\<lambda>(s, out). length s)") (auto simp: char_width_def)

definition text_reverse :: "heap \<Rightarrow> Value \<Rightarrow> Value outcome" where
  "text_reverse h v =
     (if kind v \<noteq> V_STR then fatal ''VM trap: reverse requires Str''
      else let n = length (as_bytes v) in
        if \<not> h (Chars (if n \<noteq> 0 then n else 1)) then NoMemory
        else ret_opt (value_data h V_STR (reverse_loop (as_bytes v) [])))"

definition single_byte :: "Value \<Rightarrow> nat" where
  "single_byte v = (if length (as_bytes v) = 1 then unat (as_bytes v ! 0) else 0)"

definition char_class :: "string \<Rightarrow> nat \<Rightarrow> bool" where
  "char_class name c =
     (if streq name ''is_digit'' then 48 \<le> c \<and> c \<le> 57
      else if streq name ''is_letter'' then 65 \<le> c \<and> c \<le> 90 \<or> 97 \<le> c \<and> c \<le> 122
      else c = 32 \<or> c = 9 \<or> c = 13 \<or> c = 10)"

definition byte_append :: "heap \<Rightarrow> Value \<Rightarrow> Value \<Rightarrow> Value outcome" where
  "byte_append h v b =
     (if \<not> (kind v = V_BYTES \<and> kind b = V_NAT) then fatal ''VM trap: byte_append requires Bytes and Nat''
      else case value_index b of
        None \<Rightarrow> fatal ''VM trap: byte value is outside 0..255''
      | Some x \<Rightarrow>
          if x > 255 then fatal ''VM trap: byte value is outside 0..255''
          else if \<not> h (Chars (length (as_bytes v) + 1)) then NoMemory
          else ret_opt (value_data h V_BYTES (as_bytes v @ [word_of_nat x])))"

definition bytes_concat :: "heap \<Rightarrow> Value \<Rightarrow> Value \<Rightarrow> Value outcome" where
  "bytes_concat h v w =
     (if \<not> (kind v = V_BYTES \<and> kind w = V_BYTES) then fatal ''VM trap: bytes_concat requires Bytes''
      else let n = length (as_bytes v) + length (as_bytes w) in
        if \<not> h (Chars n) \<and> n \<noteq> 0 then NoMemory
        else ret_opt (value_data h V_BYTES (as_bytes v @ as_bytes w)))"

definition byte_get :: "heap \<Rightarrow> Value \<Rightarrow> Value \<Rightarrow> Value outcome" where
  "byte_get h v i =
     (if \<not> (kind v = V_BYTES \<and> kind i = V_NAT) then fatal ''VM trap: byte_get requires Bytes and Nat''
      else case value_index i of
        None \<Rightarrow> request_fault ''VM trap: byte index is out of bounds''
      | Some n \<Rightarrow>
          if n \<ge> length (as_bytes v) then request_fault ''VM trap: byte index is out of bounds''
          else ret_opt (value_size h (unat (as_bytes v ! n))))"

definition nat_from_str :: "heap \<Rightarrow> Value \<Rightarrow> Value outcome" where
  "nat_from_str h v =
     (if kind v \<noteq> V_STR then fatal ''VM trap: nat_from_str requires Str''
      else if as_bytes v = [] then fatal ''VM trap: text is not a Nat''
      else if \<not> list_all (\<lambda>b. 48 \<le> unat b \<and> unat b \<le> 57) (as_bytes v) then fatal ''VM trap: text is not a Nat''
      else case pn_big_from_digits h (chars (as_bytes v)) 1 of
        None \<Rightarrow> NoMemory
      | Some n \<Rightarrow> ret_opt (value_big h VNat n))"

definition builtins_text_call :: "heap \<Rightarrow> string \<Rightarrow> Value list \<Rightarrow> Value outcome" where
  "builtins_text_call h name a =
     (if streq name ''len'' then text_len h (a ! 0)
      else if streq name ''concat'' then
        (if \<not> (kind (a ! 0) = V_ARRAY \<and> kind (a ! 1) = V_ARRAY) then fatal ''VM trap: concat requires arrays''
         else ret_opt (text_concat h (as_sequence (a ! 0)) (as_sequence (a ! 1))))
      else if streq name ''slice'' then text_slice h (a ! 0) (a ! 1) (a ! 2)
      else if streq name ''starts_with'' then text_starts_with h (a ! 0) (a ! 1) None
      else if streq name ''starts_with_at'' then text_starts_with h (a ! 0) (a ! 1) (Some (a ! 2))
      else if streq name ''reverse'' then text_reverse h (a ! 0)
      else if streq name ''is_digit'' \<or> streq name ''is_letter'' \<or> streq name ''is_whitespace'' then
        (if kind (a ! 0) \<noteq> V_STR then fatal ''VM trap: character class requires Str''
         else ret_opt (value_bool h (char_class name (single_byte (a ! 0)))))
      else if streq name ''byte_append'' then byte_append h (a ! 0) (a ! 1)
      else if streq name ''bytes_concat'' then bytes_concat h (a ! 0) (a ! 1)
      else if streq name ''byte_len'' then
        (if kind (a ! 0) \<noteq> V_BYTES then fatal ''VM trap: byte_len requires Bytes''
         else ret_opt (value_size h (length (as_bytes (a ! 0)))))
      else if streq name ''byte_get'' then byte_get h (a ! 0) (a ! 1)
      else if streq name ''utf8_encode'' then
        (if kind (a ! 0) \<noteq> V_STR then fatal ''VM trap: utf8_encode requires Str''
         else ret_opt (value_data h V_BYTES (as_bytes (a ! 0))))
      else if streq name ''utf8_decode'' then
        (if kind (a ! 0) \<noteq> V_BYTES then fatal ''VM trap: utf8_decode requires Bytes''
         else if \<not> utf8 (as_bytes (a ! 0)) then fatal ''VM trap: invalid UTF-8''
         else ret_opt (value_data h V_STR (as_bytes (a ! 0))))
      else if streq name ''nat_from_str'' then nat_from_str h (a ! 0)
      else fatal ''VM trap: unknown builtin'')"

section \<open>The registry is a dictionary\<close>

lemma registry_distinct: "distinct (map bname BUILTINS)"
  by (simp add: BUILTINS_def)

lemma registry_literals: "list_all (\<lambda>e. list_all (\<lambda>c. c \<noteq> CHR 0x00) (bname e)) BUILTINS"
  by (simp add: BUILTINS_def)

lemma registry_kinds: "list_all (\<lambda>e. bcall e = ASYNC_SERVICE \<longrightarrow> \<not> bpure e) BUILTINS"
  by (simp add: BUILTINS_def)

lemma cstr_bname: "e \<in> set BUILTINS \<Longrightarrow> cstr (bname e) = bname e"
  using registry_literals by (auto simp: list_all_iff cstr_def takeWhile_eq_all_conv)

lemma find_builtin_iff:
  "distinct (map bname es) \<Longrightarrow> \<forall>e \<in> set es. cstr (bname e) = bname e \<Longrightarrow>
     find_builtin name es = Some e \<longleftrightarrow> e \<in> set es \<and> cstr name = bname e"
  by (induction es) (auto simp: streq_def strcmp_0_iff rev_image_eqI)

lemma builtin_iff: "builtin name = Some e \<longleftrightarrow> e \<in> set BUILTINS \<and> cstr name = bname e"
  unfolding builtin_def using registry_distinct cstr_bname by (intro find_builtin_iff) auto

lemma async_impure: "builtin name = Some e \<Longrightarrow> builtin_is_async (Some e) \<Longrightarrow> \<not> bpure e"
  using registry_kinds by (auto simp: builtin_iff builtin_is_async_def list_all_iff)

lemma builtin_cstr: "builtin (cstr name) = builtin name"
proof -
  have "builtin (cstr name) = Some e \<longleftrightarrow> builtin name = Some e" for e by (simp add: builtin_iff)
  then show ?thesis by (metis not_Some_eq)
qed

text \<open>
  The linear search over the registry is a dictionary: it finds an entry exactly when the name is
  that entry's name, so no entry is shadowed by an earlier one; and no entry that must be awaited is pure.
\<close>

lemma builtin_registry_exact:
  "(builtin name = Some e \<longleftrightarrow> e \<in> set BUILTINS \<and> cstr name = bname e) \<and>
   \<not> (builtin name = Some e \<and> builtin_is_async (Some e) \<and> bpure e)"
  using builtin_iff async_impure by blast

section \<open>Values stay well formed\<close>

text \<open>An outcome whose value, if it has one, is well formed.\<close>

definition outcome_ok :: "Value outcome \<Rightarrow> bool" where
  "outcome_ok x = (case x of Ret v \<Rightarrow> value_ok v | _ \<Rightarrow> True)"

lemma outcome_ok_simps [simp]:
  "outcome_ok (Ret v) = value_ok v" "outcome_ok (Trap m k)" "outcome_ok NoMemory"
  "outcome_ok (ret_opt x) = (\<forall>v. x = Some v \<longrightarrow> value_ok v)"
  by (auto simp: outcome_ok_def ret_opt_def split: option.splits)

lemma value_new_ok: "value_new h w = Some v \<Longrightarrow> value_ok w \<Longrightarrow> value_ok v"
  by (auto simp: value_new_def split: if_splits)

lemma value_big_ok: "value_big h mk n = Some v \<Longrightarrow> value_ok (mk n) \<Longrightarrow> value_ok v"
  by (auto simp: value_big_def pn_big_copy_eq split: if_splits option.splits)

lemma value_size_ok: "value_size h n = Some v \<Longrightarrow> value_ok v \<and> (\<exists>m. v = VNat m \<and> big_val m = int n)"
  using from_u64_correct [of h n]
  by (auto simp: value_size_def value_big_def pn_big_copy_eq sign_ge_0_iff split: if_splits option.splits)

lemma value_data_ok:
  "value_data h k s = Some v \<Longrightarrow> k = V_STR \<longrightarrow> utf8 s \<Longrightarrow> value_ok v"
  by (auto simp: value_data_def text_ok_def text_data_eq split: if_splits ValueKind.splits)

lemma value_sequence_ok:
  "value_sequence h k vs = Some v \<Longrightarrow> list_all value_ok vs \<Longrightarrow> k = V_MAP \<longrightarrow> even (length vs) \<Longrightarrow> value_ok v"
  by (auto simp: value_sequence_def split: if_splits ValueKind.splits)

lemma value_array_append_ok:
  "value_array_append h vs x = Some v \<Longrightarrow> list_all value_ok vs \<Longrightarrow> value_ok x \<Longrightarrow> value_ok v"
  by (auto simp: value_array_append_def split: if_splits)

lemma bool_value_ok: "value_bool h b = Some v \<Longrightarrow> value_ok v"
  by (auto simp: value_bool_def value_new_def split: if_splits)

lemmas made_ok = value_new_ok value_big_ok value_size_ok value_data_ok value_sequence_ok value_array_append_ok
  bool_value_ok

lemma ok_sequence: "value_ok v \<Longrightarrow> list_all value_ok (as_sequence v)"
  "value_ok v \<Longrightarrow> kind v = V_MAP \<Longrightarrow> even (length (as_sequence v))"
  by (cases v; simp)+

lemma ok_integer: "value_ok v \<Longrightarrow> kind v = V_NAT \<Longrightarrow> big_ok (as_integer v) \<and> 0 \<le> sign (as_integer v)"
  by (cases v) simp_all

lemma ok_rational: "value_ok v \<Longrightarrow> kind v = V_RAT \<Longrightarrow> rat_ok (fst (as_rational v)) (snd (as_rational v))"
  by (cases v) simp_all

lemma ok_text: "value_ok v \<Longrightarrow> kind v = V_STR \<Longrightarrow> text_ok (as_text v) \<and> utf8 (as_bytes v) \<and> data (as_text v) = as_bytes v"
  by (cases v) (simp_all add: text_ok_def)

subsection \<open>Numbers\<close>

lemma divmod_nonneg:
  assumes "big_ok a" "0 \<le> sign a" "big_ok b" "0 \<le> sign b" "pn_big_divmod h a b = Some (q, r)"
  shows "big_ok q \<and> 0 \<le> sign q \<and> big_val q = big_val a div big_val b"
proof -
  note d = divmod_correct [OF assms(1,3,5)]
  have nn: "0 \<le> big_val a" "0 \<le> big_val b" using assms(1-4) by (simp_all add: sign_ge_0_iff)
  with d have pos: "0 < big_val b" using big_val_0_iff [OF assms(3)] by auto
  have "0 \<le> sign r" using d assms(2) by auto
  then have "0 \<le> big_val r" using d by (simp add: sign_ge_0_iff)
  with d nn pos have "big_val a div big_val b = big_val q"
    by (intro div_pos_pos_trivial [THEN trans, rotated 2] int_div_pos_eq [of _ _ _ "big_val r"]) auto
  moreover have "0 \<le> big_val a div big_val b" using nn pos by (simp add: pos_imp_zdiv_nonneg_iff)
  ultimately show ?thesis using d by (simp add: sign_ge_0_iff)
qed

text \<open>The entries of one handler, with their arities.\<close>

definition entries_of :: "Handler \<Rightarrow> (string \<times> nat) list" where
  "entries_of c = map (\<lambda>e. (bname e, arity e)) (filter (\<lambda>e. bcall e = c) BUILTINS)"

lemma entries_known:
  "entries_of NUMERIC = [(''$unit'', 0), (''nat'', 1), (''dec'', 1), (''quotient'', 2)]"
  "entries_of COLLECTIONS = [(''append'', 2), (''map'', 0), (''map_put'', 3), (''map_has'', 2), (''map_get'', 2),
     (''$method_put'', 3), (''$method_has'', 2), (''$method_get'', 2), (''set'', 0), (''set_add'', 2), (''set_has'', 2),
     (''$method_add'', 2), (''bytes'', 0)]"
  "entries_of TEXT = [(''len'', 1), (''concat'', 2), (''slice'', 3), (''starts_with'', 2), (''starts_with_at'', 3),
     (''reverse'', 1), (''is_digit'', 1), (''is_letter'', 1), (''is_whitespace'', 1), (''byte_append'', 2),
     (''bytes_concat'', 2), (''byte_len'', 1), (''byte_get'', 2), (''utf8_encode'', 1), (''utf8_decode'', 1),
     (''nat_from_str'', 1)]"
  by (simp_all add: entries_of_def BUILTINS_def)

lemma builtin_entry: "builtin name = Some e \<Longrightarrow> (cstr name, arity e) \<in> set (entries_of (bcall e))"
  by (auto simp: builtin_iff entries_of_def)

lemma streq_cstr: "streq name s \<longleftrightarrow> cstr name = cstr s"
  by (simp add: streq_def strcmp_0_iff)

lemma args_ok: "list_all value_ok a \<Longrightarrow> i < length a \<Longrightarrow> value_ok (a ! i)"
  by (simp add: list_all_length)

lemma value_nat_ok: "value_big h VNat n = Some v \<Longrightarrow> big_ok n \<Longrightarrow> 0 \<le> sign n \<Longrightarrow> value_ok v"
  using value_big_ok [of h VNat n v] by simp

lemma decimal_outcome_ok:
  "value_ok (VDec a) \<Longrightarrow> value_ok (VDec b) \<Longrightarrow> outcome_ok (decimal_binary_classified h op a b)"
  using decimal_binary_ok [of h op a b] by (cases "decimal_binary_classified h op a b") simp_all

lemma numeric_ok:
  assumes "list_all value_ok a" and "(cstr name, length a) \<in> set (entries_of NUMERIC)"
  shows "outcome_ok (builtins_numeric_call h name a)"
proof -
  note ok = args_ok [OF assms(1)]
  from assms(2) consider "cstr name = ''$unit''" | "cstr name = ''nat''" "length a = 1"
    | "cstr name = ''dec''" "length a = 1" | "cstr name = ''quotient''" "length a = 2"
    by (auto simp: entries_known)
  then show ?thesis
  proof cases
    case 1
    then show ?thesis by (auto simp: builtins_numeric_call_def streq_cstr dest: value_new_ok)
  next
    case 2
    then show ?thesis
      using ok_rational [OF ok [of 0]]
      by (auto simp: builtins_numeric_call_def streq_cstr rat_ok_def split: prod.splits dest!: value_nat_ok)
  next
    case 3
    obtain n d where nd: "as_rational (a ! 0) = (n, d)" by fastforce
    show ?thesis
    proof (cases "kind (a ! 0) = V_RAT")
      case True
      with 3 ok_rational [OF ok [of 0]] nd have "big_ok n" "big_ok d" by (simp_all add: rat_ok_def)
      then have "outcome_ok (decimal_binary_classified h 3 \<lparr>coefficient = n, exponent = 0, negative_zero = False\<rparr>
          \<lparr>coefficient = d, exponent = 0, negative_zero = False\<rparr>)"
        by (intro decimal_outcome_ok) (simp_all add: int32_range_def)
      with 3 True nd show ?thesis by (simp add: builtins_numeric_call_def streq_cstr)
    qed (use 3 in \<open>simp add: builtins_numeric_call_def streq_cstr\<close>)
  next
    case 4
    then show ?thesis
      using ok_integer [OF ok [of 0]] ok_integer [OF ok [of 1]] divmod_nonneg [of "as_integer (a ! 0)" "as_integer (a ! 1)" h]
      by (auto simp: builtins_numeric_call_def streq_cstr split: option.splits dest!: value_nat_ok)
  qed
qed

subsection \<open>Collections\<close>

declare find_key.simps [simp del]

lemma find_key_in: "find_key items key i = Some v \<Longrightarrow> i \<le> length items \<Longrightarrow> v \<in> set items"
  by (induction items key i rule: find_key.induct) (auto simp: find_key.simps split: if_splits)

lemma drop_key_ok: "list_all value_ok items \<Longrightarrow> list_all value_ok (drop_key key items) \<and> even (length (drop_key key items))"
  by (induction key items rule: drop_key.induct) auto

lemma map_put_ok:
  "map_put h items key v = Some m \<Longrightarrow> list_all value_ok items \<Longrightarrow> value_ok key \<Longrightarrow> value_ok v \<Longrightarrow> value_ok m"
  using drop_key_ok [of items key]
  by (auto simp: map_put_def split: if_splits dest!: value_sequence_ok)

lemma set_add_ok: "set_add h items x = Some m \<Longrightarrow> list_all value_ok items \<Longrightarrow> value_ok x \<Longrightarrow> value_ok m"
  by (auto simp: set_add_def split: if_splits dest!: value_sequence_ok)

lemma collections_ok:
  assumes "list_all value_ok a" and "(cstr name, length a) \<in> set (entries_of COLLECTIONS)"
  shows "outcome_ok (builtins_collections_call h name a)"
proof -
  note ok = args_ok [OF assms(1)]
  have get: "find_key (as_sequence (a ! 0)) key (length (as_sequence (a ! 0))) = Some v \<Longrightarrow> 0 < length a \<Longrightarrow> value_ok v"
    for key v using ok [of 0] ok_sequence(1) [of "a ! 0"] find_key_in by (fastforce simp: list_all_iff)
  have s: "0 < length a \<Longrightarrow> list_all value_ok (as_sequence (a ! 0))" using ok [of 0] by (simp add: ok_sequence)
  from assms(2) consider "cstr name = ''append''" "length a = 2"
    | "cstr name = ''map'' \<or> cstr name = ''set'' \<or> cstr name = ''bytes''"
    | "cstr name = ''map_put'' \<or> cstr name = ''$method_put''" "length a = 3"
    | "cstr name = ''map_has'' \<or> cstr name = ''$method_has'' \<or> cstr name = ''set_has''"
    | "cstr name = ''map_get'' \<or> cstr name = ''$method_get''" "length a = 2"
    | "cstr name = ''set_add'' \<or> cstr name = ''$method_add''" "length a = 2"
    by (simp add: entries_known) fast
  then show ?thesis
  proof cases
    case 1
    then show ?thesis
      using s ok [of 1] value_array_append_ok by (simp add: builtins_collections_call_def streq_cstr)
  next
    case 2
    then show ?thesis
      by (elim disjE) (simp_all add: builtins_collections_call_def streq_cstr value_data_def value_sequence_def)
  next
    case 3
    then show ?thesis
      using s ok [of 1] ok [of 2] map_put_ok by (elim disjE) (simp_all add: builtins_collections_call_def streq_cstr)
  next
    case 4
    then show ?thesis
      by (elim disjE)
        (simp_all add: builtins_collections_call_def streq_cstr Let_def value_bool_def value_new_def split: option.splits)
  next
    case 5
    then show ?thesis
      using get by (elim disjE) (auto simp: builtins_collections_call_def streq_cstr Let_def split: option.splits)
  next
    case 6
    then show ?thesis
      using s ok [of 1] set_add_ok by (elim disjE) (simp_all add: builtins_collections_call_def streq_cstr)
  qed
qed

section \<open>Maps and sets\<close>

text \<open>What a client of a persistent map relies on, with keys compared by an equivalence \<open>eq\<close>.\<close>

locale persistent_map =
  fixes invar :: "'m \<Rightarrow> bool" and key :: "'k \<Rightarrow> bool" and eq :: "'k \<Rightarrow> 'k \<Rightarrow> bool"
    and none :: 'm and get :: "'m \<Rightarrow> 'k \<Rightarrow> 'v option" and put :: "'m \<Rightarrow> 'k \<Rightarrow> 'v \<Rightarrow> 'm"
  assumes invar_none: "invar none"
    and get_none: "get none k = None"
    and invar_put: "invar m \<Longrightarrow> key k \<Longrightarrow> invar (put m k v)"
    and get_put: "invar m \<Longrightarrow> key k \<Longrightarrow> key k' \<Longrightarrow> get (put m k v) k' = (if eq k k' then Some v else get m k')"
begin

lemma invar_puts:
  "invar m \<Longrightarrow> \<forall>p \<in> set ps. key (fst p) \<Longrightarrow> invar (fold (\<lambda>(k, v) m. put m k v) ps m)"
  by (induction ps arbitrary: m) (auto simp: invar_put)

lemma get_puts:
  "invar m \<Longrightarrow> \<forall>p \<in> set ps. key (fst p) \<Longrightarrow> key k \<Longrightarrow>
     get (fold (\<lambda>(k, v) m. put m k v) ps m) k =
       (case find (\<lambda>p. eq (fst p) k) (rev ps) of Some p \<Rightarrow> Some (snd p) | None \<Rightarrow> get m k)"
proof (induction ps rule: rev_induct)
  case (snoc p ps)
  with snoc show ?case using invar_puts [of m ps] by (cases p) (auto simp: get_put)
qed simp

lemmas invar_built = invar_puts [OF invar_none]

lemma get_built:
  "\<forall>p \<in> set ps. key (fst p) \<Longrightarrow> key k \<Longrightarrow>
     get (fold (\<lambda>(k, v) m. put m k v) ps none) k = map_option snd (find (\<lambda>p. eq (fst p) k) (rev ps))"
  using get_puts [OF invar_none] by (auto simp: get_none split: option.splits)

end

fun map_keys :: "Value list \<Rightarrow> Value list" where
  "map_keys (k # v # m) = k # map_keys m"
| "map_keys _ = []"

definition map_ok :: "Value list \<Rightarrow> bool" where
  "map_ok m \<longleftrightarrow> even (length m) \<and> (\<forall>k \<in> set (map_keys m). comparable_value k) \<and>
     sorted_wrt (\<lambda>a b. \<not> value_equal a b) (map_keys m)"

definition map_lookup :: "Value list \<Rightarrow> Value \<Rightarrow> Value option" where
  "map_lookup m k = find_key m k (length m)"

definition map_update :: "Value list \<Rightarrow> Value \<Rightarrow> Value \<Rightarrow> Value list" where
  "map_update m k v = drop_key k m @ [k, v]"

lemma find_key_append: "i \<le> length xs \<Longrightarrow> find_key (xs @ ys) k i = find_key xs k i"
proof (induction xs k i rule: find_key.induct)
  case (1 items key i)
  show ?case
  proof (cases "i \<ge> 2")
    case True
    with 1(2) have "i - 2 < length items" "i - 1 < length items" by linarith+
    then have "(items @ ys) ! (i - 2) = items ! (i - 2)" "(items @ ys) ! (i - 1) = items ! (i - 1)"
      by (simp_all only: nth_append if_True)
    with 1 True show ?thesis by (simp add: find_key.simps [of _ _ i])
  qed (simp add: find_key.simps [of _ _ i])
qed

lemma map_lookup_snoc: "map_lookup (m @ [k, v]) k' = (if value_equal k k' then Some v else map_lookup m k')"
  by (simp add: map_lookup_def find_key.simps [of _ _ "Suc (Suc (length m))"] nth_append find_key_append)

lemma map_lookup_Nil [simp]: "map_lookup [] k = None"
  by (simp add: map_lookup_def find_key.simps)

lemma even_snoc_induct [consumes 1, case_names Nil snoc]:
  assumes "even (length m)" and "P []" and "\<And>m k v. even (length m) \<Longrightarrow> P m \<Longrightarrow> P (m @ [k, v])"
  shows "P m"
  using assms(1)
proof (induction "length m" arbitrary: m rule: less_induct)
  case less
  show ?case
  proof (cases "m = []")
    case False
    then obtain n v where n: "m = n @ [v]" by (cases m rule: rev_cases) auto
    with less.prems have "n \<noteq> []" by auto
    then obtain n' k where m: "m = n' @ [k, v]" using n by (cases n rule: rev_cases) auto
    with less have "P n'" "even (length n')" by auto
    with m assms(3) show ?thesis by simp
  qed (use assms(2) in simp)
qed

lemma drop_key_append: "even (length m) \<Longrightarrow> drop_key k (m @ n) = drop_key k m @ drop_key k n"
  by (induction k m rule: drop_key.induct) auto

lemma map_keys_append: "even (length m) \<Longrightarrow> map_keys (m @ n) = map_keys m @ map_keys n"
  by (induction m rule: map_keys.induct) auto

lemma map_keys_drop: "map_keys (drop_key k m) = filter (\<lambda>x. \<not> value_equal x k) (map_keys m)"
  by (induction k m rule: drop_key.induct) auto

lemma drop_key_even: "even (length (drop_key k m))"
  by (induction k m rule: drop_key.induct) auto

lemma map_lookup_drop:
  assumes "map_ok m" and "comparable_value k" and "comparable_value k'" and "\<not> value_equal k k'"
  shows "map_lookup (drop_key k m) k' = map_lookup m k'"
proof -
  from assms(1) have "even (length m)" "\<forall>k \<in> set (map_keys m). comparable_value k" by (simp_all add: map_ok_def)
  then show ?thesis
  proof (induction m rule: even_snoc_induct)
    case (snoc m x v)
    then have x: "comparable_value x" "\<forall>k \<in> set (map_keys m). comparable_value k" by (simp_all add: map_keys_append)
  with snoc assms(2-4) show ?case
    using value_equal_sym [of x k] value_equal_trans [of k x k']
    by (auto simp: drop_key_append map_lookup_snoc)
  qed simp
qed

interpretation pn_map: persistent_map map_ok comparable_value value_equal "[]" map_lookup map_update
proof
  fix m k v assume "map_ok m" "comparable_value k"
  then show "map_ok (map_update m k v)"
    by (auto simp: map_ok_def map_update_def map_keys_append map_keys_drop drop_key_even sorted_wrt_append sorted_wrt_filter)
next
  fix m k k' v assume "map_ok m" "comparable_value k" "comparable_value k'"
  then show "map_lookup (map_update m k v) k' = (if value_equal k k' then Some v else map_lookup m k')"
    by (simp add: map_update_def map_lookup_snoc map_lookup_drop)
qed (simp_all add: map_ok_def)

lemma set_member_append: "set_member (xs @ ys) x \<longleftrightarrow> set_member xs x \<or> set_member ys x"
  by (induction xs) auto

lemma set_member_iff: "set_member xs x \<longleftrightarrow> (\<exists>y \<in> set xs. value_equal y x)"
  by (induction xs) auto

definition lookup_outcome :: "Value list \<Rightarrow> Value \<Rightarrow> Value outcome" where
  "lookup_outcome m k = (case map_lookup m k of Some v \<Rightarrow> Ret v | None \<Rightarrow> request_fault ''VM trap: map key was not found'')"

lemma call_map_get: "builtins_collections_call h ''map_get'' [VMap m, k] = lookup_outcome m k"
  by (simp add: builtins_collections_call_def streq_cstr map_lookup_def lookup_outcome_def Let_def split: option.split)

lemma call_map_put: "builtins_collections_call h ''map_put'' [VMap m, k, v] =
    (if h (Slots (length m + 2)) \<and> h Cell \<and> h (Slots (length (map_update m k v))) then Ret (VMap (map_update m k v)) else NoMemory)"
  by (simp add: builtins_collections_call_def streq_cstr map_put_def map_update_def value_sequence_def)

text \<open>
  A map is persistent and keyed by language equality: after \<open>map_put\<close>, looking up a key returns the new
  value where the key is equal to the one put and what the old map held everywhere else, and the old map
  is what it was; lookups of absent keys are request faults.
\<close>

lemma map_put_then_get:
  assumes "map_ok m" and "comparable_value k" and "comparable_value k'"
    and "builtins_collections_call h ''map_put'' [VMap m, k, v] = Ret w"
  shows "builtins_collections_call h' ''map_get'' [w, k'] =
      (if value_equal k k' then Ret v else builtins_collections_call h' ''map_get'' [VMap m, k']) \<and>
    (builtins_collections_call h' ''map_get'' [VMap m, k'] = request_fault ''VM trap: map key was not found'' \<longleftrightarrow>
       map_lookup m k' = None)"
proof -
  from assms(4) have w: "w = VMap (map_update m k v)" by (auto simp: call_map_put split: if_splits)
  show ?thesis
    unfolding call_map_get w using pn_map.get_put [OF assms(1-3), of v] by (auto simp: lookup_outcome_def split: option.splits)
qed

text \<open>A program's puts one after another on a map, up to the first that does not return.\<close>

fun map_puts :: "heap \<Rightarrow> (Value \<times> Value) list \<Rightarrow> Value \<Rightarrow> Value outcome" where
  "map_puts h [] m = Ret m"
| "map_puts h ((k, v) # ps) m =
     (case builtins_collections_call h ''map_put'' [m, k, v] of Ret w \<Rightarrow> map_puts h ps w | e \<Rightarrow> e)"

lemma map_puts_update:
  "map_puts h ps (VMap m) = Ret (VMap (fold (\<lambda>(k, v) m. map_update m k v) ps m)) \<or> map_puts h ps (VMap m) = NoMemory \<and> \<not> plentiful h"
proof (induction ps arbitrary: m)
  case (Cons p ps)
  obtain k v where p: "p = (k, v)" by (cases p)
  show ?case using Cons [of "map_update m k v"] by (simp add: p call_map_put) (auto simp: plentiful_def)
qed simp

text \<open>
  C26. A program that starts from the empty map of the builtin \<open>map\<close> and puts any sequence of pairs with
  \<open>map_put\<close> gets a map, unless an allocation is refused. The map has whole pairs and no two equal keys, and
  \<open>map_get\<close> returns for every key the value put last under an equal key, and is a request fault where there
  was none.
\<close>

theorem map_holds_last_put:
  assumes "\<forall>p \<in> set ps. comparable_value (fst p)" and "comparable_value k"
    and "builtins_collections_call h ''map'' [] = Ret e"
  shows "(\<exists>m. map_puts h ps e = Ret (VMap m) \<and> even (length m) \<and> sorted_wrt (\<lambda>a b. \<not> value_equal a b) (map_keys m) \<and>
      builtins_collections_call h' ''map_get'' [VMap m, k] =
        (case find (\<lambda>p. value_equal (fst p) k) (rev ps) of
           Some p \<Rightarrow> Ret (snd p) | None \<Rightarrow> request_fault ''VM trap: map key was not found'')) \<or>
    map_puts h ps e = NoMemory \<and> \<not> plentiful h"
proof -
  have e: "e = VMap []"
    using assms(3) by (auto simp: builtins_collections_call_def streq_cstr value_sequence_def split: if_splits)
  let ?m = "fold (\<lambda>(k, v) m. map_update m k v) ps []"
  have "even (length ?m)" "sorted_wrt (\<lambda>a b. \<not> value_equal a b) (map_keys ?m)"
    using pn_map.invar_built [OF assms(1)] by (simp_all add: map_ok_def)
  moreover have "lookup_outcome ?m k = (case find (\<lambda>p. value_equal (fst p) k) (rev ps) of
           Some p \<Rightarrow> Ret (snd p) | None \<Rightarrow> request_fault ''VM trap: map key was not found'')"
    by (simp add: lookup_outcome_def pn_map.get_built [OF assms(1,2)] split: option.split)
  ultimately show ?thesis using map_puts_update [of h ps "[]"] by (auto simp: e call_map_get)
qed

theorem map_holds_last_put_witness:
  "\<exists>m. map_puts (\<lambda>_. True) [(VUnit, VBool True), (VVoid, VVoid), (VUnit, VBool False)] (VMap []) = Ret (VMap m) \<and>
     even (length m) \<and> sorted_wrt (\<lambda>a b. \<not> value_equal a b) (map_keys m) \<and>
     builtins_collections_call (\<lambda>_. True) ''map_get'' [VMap m, VUnit] = Ret (VBool False)"
proof -
  have "builtins_collections_call (\<lambda>_. True) ''map'' [] = Ret (VMap [])" by code_simp
  then show ?thesis
    using map_holds_last_put [of "[(VUnit, VBool True), (VVoid, VVoid), (VUnit, VBool False)]" VUnit "\<lambda>_. True" "VMap []" "\<lambda>_. True"]
    by (simp add: comparable_value_def plentiful_def)
qed

text \<open>
  Adding to a set makes exactly the equal elements members besides the old ones, and a set without two
  equal elements stays one.
\<close>

lemma set_add_member:
  assumes "builtins_collections_call h ''set_add'' [VSet xs, x] = Ret w" and "comparable_value x"
    and "\<forall>y \<in> set xs. comparable_value y"
  shows "\<exists>ys. w = VSet ys \<and> (\<forall>y. comparable_value y \<longrightarrow> set_member ys y = (set_member xs y \<or> value_equal x y)) \<and>
    (sorted_wrt (\<lambda>a b. \<not> value_equal a b) xs \<longrightarrow> sorted_wrt (\<lambda>a b. \<not> value_equal a b) ys)"
proof -
  from assms(1) have w: "set_add h xs x = Some w" by (simp add: builtins_collections_call_def streq_cstr)
  show ?thesis
  proof (cases "set_member xs x")
    case True
    then obtain z where z: "z \<in> set xs" "value_equal z x" by (auto simp: set_member_iff)
    have "set_member xs y" if "comparable_value y" "value_equal x y" for y
      using value_equal_trans [OF _ assms(2) that(1) z(2) that(2)] z(1) assms(3) by (auto simp: set_member_iff)
    with True w show ?thesis by (auto simp: set_add_def)
  next
    case False
    with w have "w = VSet (xs @ [x])" by (auto simp: set_add_def value_sequence_def split: if_splits)
    with False show ?thesis by (auto simp: set_member_append sorted_wrt_append set_member_iff)
  qed
qed

section \<open>Text is a sequence of code points\<close>

text \<open>The string value that holds a list of code points.\<close>

definition str_of :: "nat list \<Rightarrow> Value" where
  "str_of cs = VStr (text_data (encode_text cs))"

lemma text_ok_str: "text_ok s \<Longrightarrow> \<exists>cs. list_all scalar cs \<and> VStr s = str_of cs"
  using utf8_decode_text [of "data s"] by (auto simp: text_ok_def str_of_def)

lemma as_text_str [simp]: "as_text (str_of cs) = text_data (encode_text cs)" "kind (str_of cs) = V_STR"
  "as_bytes (str_of cs) = encode_text cs"
  by (simp_all add: str_of_def text_data_eq)

lemma str_of_ok: "list_all scalar cs \<Longrightarrow> value_ok (str_of cs)"
  by (simp add: str_of_def text_ok_def text_data_eq utf8_encode_text)

lemma data_text_data [simp]: "data (text_data s) = s"
  by (simp add: text_data_eq)

definition byte_offset :: "nat list \<Rightarrow> nat \<Rightarrow> nat" where
  "byte_offset cs i = length (encode_text (take i cs))"

lemma boundary_text:
  assumes "list_all scalar cs"
  shows "boundary (text_data (encode_text cs)) i = (if i \<le> length cs then Some (byte_offset cs i) else None)"
  using utf8_offset_text [OF assms, of i] by (auto simp: byte_offset_def boundary_def)

lemma value_data_str: "value_data h V_STR (encode_text cs) = Some v \<Longrightarrow> v = str_of cs"
  by (auto simp: value_data_def str_of_def split: if_splits)

lemma slice_str:
  assumes "list_all scalar cs" and "value_index i = Some m" and "value_index j = Some n" and "kind i = V_NAT" "kind j = V_NAT"
  shows "text_slice h (str_of cs) i j =
    (if m \<le> n \<and> n \<le> length cs then ret_opt (value_data h V_STR (encode_text (take (n - m) (drop m cs))))
     else request_fault ''VM trap: invalid string slice'')"
proof -
  have c: "characters (text_data (encode_text cs)) = length cs" using utf8_offset_text [OF assms(1)] by simp
  show ?thesis
  proof (cases "m \<le> n \<and> n \<le> length cs")
    case True
    have "take (byte_offset cs n - byte_offset cs m) (drop (byte_offset cs m) (encode_text cs)) =
        encode_text (take (n - m) (drop m cs))"
      using encode_text_slice [of m n cs] True by (simp add: byte_offset_def)
    with True assms c show ?thesis by (simp add: text_slice_def Let_def boundary_text)
  qed (use assms c in \<open>auto simp: text_slice_def Let_def\<close>)
qed

lemma reverse_loop_text: "list_all scalar cs \<Longrightarrow> reverse_loop (encode_text cs) out = encode_text (rev cs) @ out"
proof (induction cs arbitrary: out)
  case (Cons c cs)
  then obtain b t where b: "utf8_encode c = b # t" "char_width b = length (utf8_encode c)"
    using encode_facts [of c] by auto
  have "reverse_loop (encode_text (c # cs)) out = reverse_loop (encode_text cs) (utf8_encode c @ out)"
    using b by (simp add: Let_def)
  also have "\<dots> = encode_text (rev (c # cs)) @ out" using Cons by simp
  finally show ?case .
qed simp

lemma reverse_str:
  "list_all scalar cs \<Longrightarrow> text_reverse h (str_of cs) = Ret v \<Longrightarrow> v = str_of (rev cs)"
  by (auto simp: text_reverse_def reverse_loop_text Let_def dest: value_data_str split: if_splits)

lemma prefix_at_text:
  assumes "list_all scalar cs" and "list_all scalar ps" and "i \<le> length cs"
  shows "prefix_at (encode_text cs) (encode_text ps) (byte_offset cs i) \<longleftrightarrow> (\<exists>es. drop i cs = ps @ es)"
proof -
  have split: "encode_text cs = encode_text (take i cs) @ encode_text (drop i cs)"
    by (metis append_take_drop_id encode_text_simps(3))
  have "prefix_at (encode_text cs) (encode_text ps) (byte_offset cs i) \<longleftrightarrow>
      length (encode_text ps) \<le> length (encode_text (drop i cs)) \<and>
      take (length (encode_text ps)) (encode_text (drop i cs)) = encode_text ps"
    unfolding prefix_at_def byte_offset_def by (subst (1 2) split) simp
  also have "\<dots> \<longleftrightarrow> (\<exists>t. encode_text (drop i cs) = encode_text ps @ t)"
    by (metis append_eq_conv_conj append_take_drop_id le_add1 length_append)
  also have "\<dots> \<longleftrightarrow> (\<exists>es. drop i cs = ps @ es)"
    using assms by (intro encode_text_prefix) (auto simp: list_all_iff dest: in_set_dropD)
  finally show ?thesis .
qed

lemma starts_with_str:
  assumes "list_all scalar cs" and "list_all scalar ps" and "kind i = V_NAT" and "value_index i = Some m"
  shows "text_starts_with h (str_of cs) (str_of ps) (Some i) =
    ret_opt (value_bool h (m \<le> length cs \<and> (\<exists>es. drop m cs = ps @ es)))"
  using prefix_at_text [OF assms(1,2), of m] assms
  by (simp add: text_starts_with_def boundary_text)

subsection \<open>Well-formedness\<close>

lemma value_data_str_ok: "value_data h V_STR s = Some v \<Longrightarrow> utf8 s \<Longrightarrow> value_ok v"
  using value_data_ok [of h V_STR s v] by simp

lemma str_value: "value_ok v \<Longrightarrow> kind v = V_STR \<Longrightarrow> \<exists>cs. list_all scalar cs \<and> v = str_of cs"
  using text_ok_str by (cases v) (auto simp: str_of_def)

lemma slice_ok: "value_ok v \<Longrightarrow> outcome_ok (text_slice h v i j)"
proof (cases "kind v = V_STR \<and> kind i = V_NAT \<and> kind j = V_NAT")
  case True
  moreover assume "value_ok v"
  ultimately obtain cs where cs: "list_all scalar cs" "v = str_of cs" using str_value by blast
  show ?thesis
  proof (cases "value_index i = None \<or> value_index j = None")
    case False
    then obtain m n where "value_index i = Some m" "value_index j = Some n" by auto
    moreover have "list_all scalar (take (n - m) (drop m cs))" for m n
      using cs(1) by (auto simp: list_all_iff dest: in_set_takeD in_set_dropD)
    ultimately show ?thesis
      using slice_str [OF cs(1), of i m j n h] True cs(2) by (auto dest: value_data_str_ok simp: utf8_encode_text)
  qed (use True in \<open>auto simp: text_slice_def split: option.splits\<close>)
qed (auto simp: text_slice_def)

lemma reverse_ok: "value_ok v \<Longrightarrow> outcome_ok (text_reverse h v)"
proof (cases "kind v = V_STR")
  case True
  moreover assume "value_ok v"
  ultimately obtain cs where cs: "list_all scalar cs" "v = str_of cs" using str_value by blast
  then have "list_all scalar (rev cs)" by (simp add: list_all_iff)
  with cs show ?thesis
    using reverse_str [OF cs(1), of h] str_of_ok [of "rev cs"]
    by (cases "text_reverse h v") simp_all
qed (simp add: text_reverse_def)

lemma starts_with_ok: "outcome_ok (text_starts_with h v p i)"
  by (auto simp: text_starts_with_def dest: bool_value_ok split: option.splits)

lemma size_outcome_ok: "outcome_ok (ret_opt (value_size h n))"
  using value_size_ok by auto

lemma bytes_data_ok: "value_data h V_BYTES s = Some v \<Longrightarrow> value_ok v"
  using value_data_ok [of h V_BYTES s v] by simp

lemma nat_from_str_ok: "outcome_ok (nat_from_str h v)"
proof -
  have "value_ok w" if "pn_big_from_digits h s 1 = Some n" "value_big h VNat n = Some w" for s n w
    using from_digits_correct [OF that(1)] that(2) by (intro value_nat_ok) (auto simp: sign_ge_0_iff)
  then show ?thesis by (auto simp: nat_from_str_def split: option.splits)
qed

lemma text_concat_ok:
  "text_concat h xs ys = Some v \<Longrightarrow> list_all value_ok xs \<Longrightarrow> list_all value_ok ys \<Longrightarrow> value_ok v"
  by (auto simp: text_concat_def Let_def split: if_splits dest!: value_sequence_ok)

lemma text_call_ok:
  assumes "list_all value_ok a" and "(cstr name, length a) \<in> set (entries_of TEXT)"
  shows "outcome_ok (builtins_text_call h name a)"
proof -
  note ok = args_ok [OF assms(1)]
  note d = builtins_text_call_def streq_cstr
  have pos: "0 < length a" using assms(2) by (auto simp: entries_known)
  from assms(2) consider "cstr name = ''len''" | "cstr name = ''concat''" "length a = 2"
    | "cstr name = ''slice'' \<or> cstr name = ''reverse'' \<or> cstr name = ''starts_with'' \<or> cstr name = ''starts_with_at''"
    | "cstr name = ''is_digit'' \<or> cstr name = ''is_letter'' \<or> cstr name = ''is_whitespace''"
    | "cstr name = ''byte_append'' \<or> cstr name = ''bytes_concat'' \<or> cstr name = ''utf8_encode'' \<or> cstr name = ''utf8_decode''"
    | "cstr name = ''byte_len'' \<or> cstr name = ''byte_get'' \<or> cstr name = ''nat_from_str''"
    by (simp add: entries_known) fast
  then show ?thesis
  proof cases
    case 1 then show ?thesis by (simp add: d text_len_def size_outcome_ok del: outcome_ok_simps(4))
  next
    case 2
    then show ?thesis
      using ok_sequence(1) [OF ok [of 0]] ok_sequence(1) [OF ok [of 1]] by (auto simp: d dest: text_concat_ok)
  next
    case 3
    then show ?thesis
      using ok [OF pos] by (elim disjE) (simp_all add: d slice_ok reverse_ok starts_with_ok del: outcome_ok_simps(4))
  next
    case 4
    then show ?thesis by (elim disjE) (auto simp: d dest: bool_value_ok)
  next
    case 5
    then show ?thesis
      by (elim disjE) (auto simp: d byte_append_def bytes_concat_def Let_def split: option.splits
          dest: bytes_data_ok value_data_str_ok)
  next
    case 6
    then show ?thesis
      by (elim disjE) (simp_all add: d byte_get_def size_outcome_ok nat_from_str_ok del: outcome_ok_simps(4) split: option.splits)
  qed
qed

text \<open>An outcome that is the value or a refused allocation, and the value when nothing is refused.\<close>

definition answers :: "heap \<Rightarrow> Value outcome \<Rightarrow> Value \<Rightarrow> bool" where
  "answers h r v \<longleftrightarrow> (r = Ret v \<or> r = NoMemory) \<and> (plentiful h \<longrightarrow> r = Ret v)"

lemma answers_data: "answers h (ret_opt (value_data h V_STR (encode_text cs))) (str_of cs)"
  "answers h (ret_opt (value_data h V_STR s)) (VStr (text_data s))" "answers h (ret_opt (value_data h V_BYTES s)) (VBytes s)"
  by (simp_all add: answers_def value_data_def str_of_def ret_opt_def)

lemma answers_bool: "answers h (ret_opt (value_bool h b)) (VBool b)"
  by (simp add: answers_def value_bool_def value_new_def ret_opt_def)

lemma count_limbs_bound: "n < BASE ^ k \<Longrightarrow> count_limbs n \<le> k"
proof (induction k arbitrary: n)
  case (Suc k)
  then have "n div BASE < BASE ^ k" by (simp add: less_mult_imp_div_less mult.commute)
  with Suc.IH show ?case by (simp add: count_limbs.simps [of n])
qed (simp add: count_limbs.simps)

lemma value_size_total:
  assumes "plentiful h" and "n \<le> SIZE_MAX"
  shows "\<exists>v. value_size h n = Some v"
proof -
  have "count_limbs n \<le> 3" using assms(2) by (intro count_limbs_bound) (simp add: c_types)
  then have r: "room h (count_limbs n)" using assms(1) by (intro room_plentiful) (simp_all add: c_types)
  then obtain w where w: "pn_big_from_u64 h n = Some w" using from_u64_total by blast
  have "room h (length (limbs w))"
    using w r by (auto simp: pn_big_from_u64_def resize_eq pn_big_init_def room_def length_fill_limbs split: if_splits)
  with w assms(1) show ?thesis by (simp add: value_size_def value_big_def pn_big_copy_eq)
qed

lemma answers_size:
  assumes "n \<le> SIZE_MAX"
  shows "\<exists>l. big_ok l \<and> big_val l = int n \<and> answers h (ret_opt (value_size h n)) (VNat l)"
proof (cases "value_size h n")
  case None
  obtain v where v: "value_size (\<lambda>_. True) n = Some v" using value_size_total [of "\<lambda>_. True"] assms by auto
  from value_size_ok [OF v] obtain l where "big_ok l" "big_val l = int n" by auto
  moreover have "\<not> plentiful h" using None value_size_total [of h n] assms by auto
  ultimately show ?thesis using None by (auto simp: answers_def)
next
  case (Some v)
  then show ?thesis using value_size_ok [OF Some] by (auto simp: answers_def)
qed

lemma answers_reverse:
  assumes "list_all scalar cs"
  shows "answers h (text_reverse h (str_of cs)) (str_of (rev cs))"
  using answers_data(1) [of h "rev cs"] assms by (auto simp: text_reverse_def reverse_loop_text Let_def answers_def)

lemma unat_char_byte: "unat (char_byte c) = (of_char c :: nat)"
proof -
  have "(of_char (byte_char (char_byte c)) :: nat) = of_char c" by simp
  moreover have "unat (char_byte c) < 256" using unsigned_less [of "char_byte c", where 'a = nat] by simp
  ultimately show ?thesis by (simp add: byte_char_def)
qed

lemma answers_nat_from_str:
  assumes n: "big_ok n" "0 \<le> sign n" "length (limbs n) \<le> SIZE_MAX div 128"
  shows "answers h (nat_from_str h (VStr (text_data (bytes_of (number_text n))))) (VNat n)"
proof -
  have num: "number_text n = show_u (mag (limbs n))" using n(2) by (simp add: number_text_def)
  note dg = show_u_digits [of "mag (limbs n)", folded num]
  have ne: "number_text n \<noteq> []" unfolding num by (simp add: show_u.simps)
  have all: "list_all (\<lambda>b. 48 \<le> unat b \<and> unat b \<le> 57) (bytes_of (number_text n))"
    using dg by (auto simp: list_all_iff is_digit_char_def unat_char_byte)
  have o: "nat_from_str h (VStr (text_data (bytes_of (number_text n)))) =
      (case pn_big_from_digits h (number_text n) 1 of None \<Rightarrow> NoMemory | Some m \<Rightarrow> ret_opt (value_big h VNat m))"
    using ne all by (simp add: nat_from_str_def text_data_eq comp_def)
  have v: "big_val n = int (mag (limbs n))" using n(1,2) by (auto simp: big_val_def big_ok_def)
  have same: "m = n" if "pn_big_from_digits h (number_text n) 1 = Some m" for m
    using from_digits_correct [OF that] dg v n(1) by (intro big_val_inj) simp_all
  have len: "length (number_text n) \<le> SIZE_MAX div 8"
  proof (cases "limbs n = []")
    case False
    have c: "canonical (limbs n)" "small_limbs (limbs n)" using n(1) by (auto simp: big_ok_def canonical_def)
    then have "length (number_text n) \<le> 9 * length (limbs n)"
      using length_mag_digits [OF c(2) False] mag_digits_show_u [OF c(1) False] by (simp add: num)
    then show ?thesis using n(3) by (simp add: c_types)
  qed (simp add: num show_u.simps c_types)
  have "\<exists>m. pn_big_from_digits h (number_text n) 1 = Some m" if "plentiful h"
    using from_digits_total [OF that _ len] dg by blast
  moreover have "room h (length (limbs n))" if "plentiful h"
    using that n(3) by (intro room_plentiful) (auto simp: c_types)
  ultimately show ?thesis
    using same by (auto simp: o answers_def value_big_def pn_big_copy_eq split: option.splits)
qed

section \<open>Properties\<close>

definition sample_nat :: "nat \<Rightarrow> Value" where
  "sample_nat n = VNat \<lparr>sign = (if n = 0 then 0 else 1), limbs = (if n = 0 then [] else [n])\<rparr>"

text \<open>
  C38. The text operations work on code points. On the string of the code points \<open>cs\<close>, \<open>len\<close> counts them;
  \<open>slice\<close> from \<open>m\<close> to \<open>n\<close> returns the code points in between when the bounds are in order and within the text,
  the end included, and is a request fault otherwise; \<open>reverse\<close> reverses them; and \<open>starts_with_at\<close> tells
  whether the other code points begin at the index. Each returns its value unless an allocation is refused.
\<close>

theorem text_operations_exact:
  assumes "list_all scalar cs" and "list_all scalar ps" and "length cs \<le> SIZE_MAX" and "kind i = V_NAT" and "kind j = V_NAT"
    and "value_index i = Some m" and "value_index j = Some n"
  shows "(\<exists>l. big_ok l \<and> big_val l = int (length cs) \<and> answers h (builtins_text_call h ''len'' [str_of cs]) (VNat l)) \<and>
    (if m \<le> n \<and> n \<le> length cs
     then answers h (builtins_text_call h ''slice'' [str_of cs, i, j]) (str_of (take (n - m) (drop m cs)))
     else builtins_text_call h ''slice'' [str_of cs, i, j] = request_fault ''VM trap: invalid string slice'') \<and>
    answers h (builtins_text_call h ''reverse'' [str_of cs]) (str_of (rev cs)) \<and>
    answers h (builtins_text_call h ''starts_with_at'' [str_of cs, str_of ps, i])
      (VBool (m \<le> length cs \<and> (\<exists>es. drop m cs = ps @ es)))"
proof -
  note d = builtins_text_call_def streq_cstr
  have "builtins_text_call h ''len'' [str_of cs] = ret_opt (value_size h (length cs))"
    using utf8_offset_text [OF assms(1)] by (simp add: d text_len_def)
  moreover have "builtins_text_call h ''slice'' [str_of cs, i, j] = text_slice h (str_of cs) i j"
    "builtins_text_call h ''reverse'' [str_of cs] = text_reverse h (str_of cs)"
    "builtins_text_call h ''starts_with_at'' [str_of cs, str_of ps, i] = text_starts_with h (str_of cs) (str_of ps) (Some i)"
    by (simp_all add: d)
  ultimately show ?thesis
    using answers_size [OF assms(3), of h] slice_str [OF assms(1,6,7,4,5), of h] answers_data(1) answers_reverse [OF assms(1), of h]
      starts_with_str [OF assms(1,2,4,6), of h] answers_bool by simp
qed

theorem text_operations_exact_witness:
  "builtins_text_call (\<lambda>_. True) ''slice'' [str_of [0x48, 0x20ac, 0x21], sample_nat 1, sample_nat 3] = Ret (str_of [0x20ac, 0x21]) \<and>
   builtins_text_call (\<lambda>_. True) ''reverse'' [str_of [0x48, 0x20ac, 0x21]] = Ret (str_of [0x21, 0x20ac, 0x48]) \<and>
   builtins_text_call (\<lambda>_. True) ''starts_with_at'' [str_of [0x48, 0x20ac, 0x21], str_of [0x20ac], sample_nat 1] = Ret (VBool True)"
proof -
  have "list_all scalar [0x48, 0x20ac, 0x21]" "list_all scalar [0x20ac]" by (simp_all add: scalar_def)
  moreover have "value_index (sample_nat 1) = Some 1" "value_index (sample_nat 3) = Some 3" "kind (sample_nat 1) = V_NAT" "kind (sample_nat 3) = V_NAT"
    by (simp_all add: sample_nat_def value_index_def pn_big_fits_size_def c_types)
  moreover have "length [0x48, 0x20ac, 0x21 :: nat] \<le> SIZE_MAX" by (simp add: c_types)
  ultimately show ?thesis
    using text_operations_exact [of "[0x48, 0x20ac, 0x21]" "[0x20ac]" "sample_nat 1" "sample_nat 3" 1 3 "\<lambda>_. True"]
    by (simp add: answers_def numeral_3_eq_3)
qed

text \<open>
  C39. Text and bytes convert without loss. \<open>utf8_encode\<close> returns the UTF-8 bytes of a string; \<open>utf8_decode\<close>
  returns the string of every valid sequence of bytes, in particular of those, and traps on every other; and
  \<open>nat_from_str\<close> reads the decimal text of a number back as that number and traps on every text that is not a
  nonempty row of digits. Nothing else fails but a refused allocation.
\<close>

theorem text_conversions_roundtrip:
  assumes "list_all scalar cs" and "big_ok n" and "0 \<le> sign n" and "length (limbs n) \<le> SIZE_MAX div 128"
  shows "answers h (builtins_text_call h ''utf8_encode'' [str_of cs]) (VBytes (encode_text cs)) \<and>
    answers h (builtins_text_call h ''utf8_decode'' [VBytes (encode_text cs)]) (str_of cs) \<and>
    (if utf8 s then answers h (builtins_text_call h ''utf8_decode'' [VBytes s]) (VStr (text_data s))
     else builtins_text_call h ''utf8_decode'' [VBytes s] = fatal ''VM trap: invalid UTF-8'') \<and>
    answers h (builtins_text_call h ''nat_from_str'' [VStr (text_data (bytes_of (number_text n)))]) (VNat n) \<and>
    (builtins_text_call h ''nat_from_str'' [VStr (text_data s)] = fatal ''VM trap: text is not a Nat'' \<longleftrightarrow>
       s = [] \<or> (\<exists>b \<in> set s. \<not> (48 \<le> unat b \<and> unat b \<le> 57)))"
proof (intro conjI)
  note d = builtins_text_call_def streq_cstr
  show "answers h (builtins_text_call h ''utf8_encode'' [str_of cs]) (VBytes (encode_text cs))"
    using answers_data(3) by (simp add: d)
  show "answers h (builtins_text_call h ''utf8_decode'' [VBytes (encode_text cs)]) (str_of cs)"
    using answers_data(1) assms(1) by (simp add: d utf8_encode_text)
  show "if utf8 s then answers h (builtins_text_call h ''utf8_decode'' [VBytes s]) (VStr (text_data s))
     else builtins_text_call h ''utf8_decode'' [VBytes s] = fatal ''VM trap: invalid UTF-8''"
    using answers_data(2) by (simp add: d)
  show "answers h (builtins_text_call h ''nat_from_str'' [VStr (text_data (bytes_of (number_text n)))]) (VNat n)"
    using answers_nat_from_str [OF assms(2-4), of h] by (simp add: d)
  show "builtins_text_call h ''nat_from_str'' [VStr (text_data s)] = fatal ''VM trap: text is not a Nat'' \<longleftrightarrow>
       s = [] \<or> (\<exists>b \<in> set s. \<not> (48 \<le> unat b \<and> unat b \<le> 57))"
    by (auto simp: d nat_from_str_def text_data_eq list_all_iff ret_opt_def split: option.splits)
qed

theorem text_conversions_roundtrip_witness:
  "builtins_text_call (\<lambda>_. True) ''utf8_decode'' [VBytes (encode_text [0x48, 0x20ac])] = Ret (str_of [0x48, 0x20ac]) \<and>
   builtins_text_call (\<lambda>_. True) ''utf8_decode'' [VBytes [0xc0, 0x80]] = fatal ''VM trap: invalid UTF-8'' \<and>
   builtins_text_call (\<lambda>_. True) ''nat_from_str'' [VStr (text_data (bytes_of (number_text \<lparr>sign = 1, limbs = [999999999, 7]\<rparr>)))] =
     Ret (VNat \<lparr>sign = 1, limbs = [999999999, 7]\<rparr>) \<and>
   builtins_text_call (\<lambda>_. True) ''nat_from_str'' [VStr (text_data [0xc0, 0x80])] = fatal ''VM trap: text is not a Nat''"
proof -
  have "list_all scalar [0x48, 0x20ac]" by (simp add: scalar_def)
  moreover have "big_ok \<lparr>sign = 1, limbs = [999999999, 7]\<rparr>" by (simp add: big_ok_def canonical_def)
  moreover have "\<not> utf8 [0xc0, 0x80]" by (simp add: utf8.simps utf8_lead_def utf8_continue_numeral)
  ultimately show ?thesis
    using text_conversions_roundtrip [of "[0x48, 0x20ac]" "\<lparr>sign = 1, limbs = [999999999, 7]\<rparr>" "\<lambda>_. True" "[0xc0, 0x80]"]
    by (simp add: answers_def c_types)
qed

text \<open>
  C40. The native library keeps values well formed: called with well-formed arguments, as many as the
  registry says, a handler for numbers, collections or text returns a well-formed value or none.
\<close>

theorem library_preserves_values:
  assumes "builtin name = Some e" and "length a = arity e" and "list_all value_ok a"
  shows "(bcall e = NUMERIC \<and> builtins_numeric_call h name a = Ret v \<longrightarrow> value_ok v) \<and>
    (bcall e = COLLECTIONS \<and> builtins_collections_call h name a = Ret v \<longrightarrow> value_ok v) \<and>
    (bcall e = TEXT \<and> builtins_text_call h name a = Ret v \<longrightarrow> value_ok v)"
  using builtin_entry [OF assms(1)] assms(2,3)
  by (metis numeric_ok collections_ok text_call_ok outcome_ok_simps(1))

theorem library_preserves_values_witness:
  "value_ok (VSet [VUnit])"
proof -
  have "builtin ''set_add'' = Some \<lparr>bname = ''set_add'', arity = 2, bpure = True, bcall = COLLECTIONS\<rparr>"
    by (simp add: builtin_iff BUILTINS_def)
  from library_preserves_values [OF this, of "[VSet [], VUnit]" "\<lambda>_. True" "VSet [VUnit]"] show ?thesis
    by (simp add: builtins_collections_call_def streq_cstr set_add_def value_sequence_def)
qed

end
