(* ===== verification/Verify.thy ===== *)
theory Verify
  imports Builtins
begin

text \<open>
  The bytecode verifier, \<open>src/vm/verify.c\<close>: the rule for one call edge, the inference of the functions
  that only touch local resources, and the checks on every function and instruction with their
  diagnostics. The C code updates the program in place; here \<open>verify\<close> returns it, with the diagnostic
  of the first check that failed. Opcodes past the last one cannot be expressed by \<open>Instruction\<close>
  (the decoder refuses them), so that half of one guard has no counterpart.
\<close>

section \<open>Definitions\<close>

definition verify_call_edge :: "Function \<Rightarrow> Function option \<Rightarrow> bool \<Rightarrow> bool \<Rightarrow> bool \<Rightarrow> bool \<Rightarrow> bool" where
  "verify_call_edge caller callee builtin_pure builtin_async builtin_local awaited =
     (let async = (case callee of Some f \<Rightarrow> is_async f | None \<Rightarrow> builtin_async);
          pure' = (case callee of Some f \<Rightarrow> pure f | None \<Rightarrow> builtin_pure) in
      if awaited then is_async caller \<and> \<not> pure caller \<and> async
      else
        let local = (case callee of Some f \<Rightarrow> local_effect f | None \<Rightarrow> builtin_local) in
        if pure caller then \<not> async \<and> pure'
        else \<not> async \<and> (\<not> (is_async caller \<or> local_effect caller) \<or> pure' \<or> local))"

text \<open>The function a name is bound to, when it is no builtin.\<close>

definition callee_of :: "Program \<Rightarrow> string \<Rightarrow> Function option" where
  "callee_of p name = (case builtin name of
     Some _ \<Rightarrow> None
   | None \<Rightarrow> map_option (\<lambda>i. functions p ! i) (program_function p name))"

definition call_pure :: "Program \<Rightarrow> string \<Rightarrow> bool" where
  "call_pure p name = (case builtin name of
     Some e \<Rightarrow> bpure e
   | None \<Rightarrow> (case callee_of p name of Some f \<Rightarrow> pure f | None \<Rightarrow> False))"

definition call_resource :: "Program \<Rightarrow> string \<Rightarrow> bool" where
  "call_resource p name = (case builtin name of
     Some e \<Rightarrow> builtin_is_local_state (Some e)
   | None \<Rightarrow> (case callee_of p name of Some f \<Rightarrow> local_effect f | None \<Rightarrow> False))"

text \<open>The inner loop over the instructions: whether all calls are safe, and whether one is local.\<close>

fun scan_calls :: "Program \<Rightarrow> Instruction list \<Rightarrow> bool \<Rightarrow> bool \<times> bool" where
  "scan_calls p [] local = (True, local)"
| "scan_calls p (i # is) local =
     (case i of
        OP_CALL_VALUE _ \<Rightarrow> (False, local)
      | OP_AWAIT_VALUE _ \<Rightarrow> (False, local)
      | OP_AWAIT_CALL _ _ \<Rightarrow> (False, local)
      | OP_CALL name _ \<Rightarrow>
          if call_pure p name \<or> call_resource p name then scan_calls p is (local \<or> call_resource p name)
          else (False, local \<or> call_resource p name)
      | _ \<Rightarrow> scan_calls p is local)"

definition mark_local :: "Program \<Rightarrow> nat \<Rightarrow> Program" where
  "mark_local p i = p\<lparr>functions := (functions p)[i := (functions p ! i)\<lparr>local_effect := True\<rparr>]\<rparr>"

function infer_pass :: "Program \<Rightarrow> nat \<Rightarrow> bool \<Rightarrow> Program \<times> bool" where
  "infer_pass p i changed =
     (if i < length (functions p) then
        let function = functions p ! i in
        if pure function \<or> is_async function \<or> local_effect function then infer_pass p (Suc i) changed
        else if scan_calls p (ins function) False = (True, True) then infer_pass (mark_local p i) (Suc i) True
        else infer_pass p (Suc i) changed
      else (p, changed))"
  by pat_completeness auto
termination
  by (relation "measure (\<lambda>(p, i, changed). length (functions p) - i)") (auto simp: mark_local_def)

declare infer_pass.simps [simp del]

definition unmarked :: "Program \<Rightarrow> nat" where
  "unmarked p = length (filter (\<lambda>f. \<not> local_effect f) (functions p))"

lemma unmarked_mark_local:
  assumes "i < length (functions p)" and "\<not> local_effect (functions p ! i)"
  shows "unmarked (mark_local p i) < unmarked p"
proof -
  from assms(1) have "functions p = take i (functions p) @ functions p ! i # drop (Suc i) (functions p)"
    by (rule id_take_nth_drop)
  moreover from assms(1) have "functions (mark_local p i) =
      take i (functions p) @ (functions p ! i)\<lparr>local_effect := True\<rparr> # drop (Suc i) (functions p)"
    by (simp add: mark_local_def upd_conv_take_nth_drop)
  ultimately have "unmarked p = length (filter (\<lambda>f. \<not> local_effect f) (take i (functions p) @ functions p ! i # drop (Suc i) (functions p)))"
    "unmarked (mark_local p i) = length (filter (\<lambda>f. \<not> local_effect f)
       (take i (functions p) @ (functions p ! i)\<lparr>local_effect := True\<rparr> # drop (Suc i) (functions p)))"
    by (simp_all only: unmarked_def)
  then show ?thesis using assms(2) by simp
qed

text \<open>Induction over a pass: one step marks the function or leaves it, until the table ends.\<close>

definition eligible :: "Program \<Rightarrow> nat \<Rightarrow> bool" where
  "eligible p i \<longleftrightarrow> (let f = functions p ! i in
     \<not> pure f \<and> \<not> is_async f \<and> \<not> local_effect f \<and> scan_calls p (ins f) False = (True, True))"

lemma infer_pass_rec:
  "i < length (functions p) \<Longrightarrow> eligible p i \<Longrightarrow> infer_pass p i c = infer_pass (mark_local p i) (Suc i) True"
  "i < length (functions p) \<Longrightarrow> \<not> eligible p i \<Longrightarrow> infer_pass p i c = infer_pass p (Suc i) c"
  "\<not> i < length (functions p) \<Longrightarrow> infer_pass p i c = (p, c)"
  by (auto simp: infer_pass.simps [of p i] eligible_def Let_def)

lemma infer_pass_steps [consumes 1, case_names mark keep over]:
  assumes "infer_pass p i c = r"
    and "\<And>p i c r. i < length (functions p) \<Longrightarrow> eligible p i \<Longrightarrow> P (mark_local p i) (Suc i) True r \<Longrightarrow> P p i c r"
    and "\<And>p i c r. i < length (functions p) \<Longrightarrow> \<not> eligible p i \<Longrightarrow> P p (Suc i) c r \<Longrightarrow> P p i c r"
    and "\<And>p i c. \<not> i < length (functions p) \<Longrightarrow> P p i c (p, c)"
  shows "P p i c r"
  unfolding assms(1) [symmetric]
proof (induction "length (functions p) - i" arbitrary: p i c)
  case 0
  with assms(4) show ?case by (simp add: infer_pass_rec)
next
  case (Suc n)
  then have i: "i < length (functions p)" by simp
  have "functions (mark_local p i) = (functions p)[i := (functions p ! i)\<lparr>local_effect := True\<rparr>]"
    by (simp add: mark_local_def)
  then have "P (mark_local p i) (Suc i) True (infer_pass (mark_local p i) (Suc i) True)"
    and "P p (Suc i) c (infer_pass p (Suc i) c)" using Suc by simp_all
  then show ?case
    using assms(2) [OF i] assms(3) [OF i] by (cases "eligible p i") (simp_all add: infer_pass_rec(1,2) [OF i])
qed

lemma infer_pass_progress:
  "infer_pass p i c = r \<Longrightarrow> unmarked (fst r) \<le> unmarked p \<and> (snd r \<and> \<not> c \<longrightarrow> unmarked (fst r) < unmarked p)"
proof (induction p i c r rule: infer_pass_steps)
  case (mark p i c r)
  with unmarked_mark_local [of i p] show ?case by (auto simp: eligible_def Let_def)
qed auto

function infer_loop :: "Program \<Rightarrow> Program" where
  "infer_loop p = (let (p', changed) = infer_pass p 0 False in if changed then infer_loop p' else p')"
  by pat_completeness auto
termination
  by (relation "measure unmarked") (auto dest!: sym [of "(_, _)"] dest: infer_pass_progress)

declare infer_loop.simps [simp del]

definition infer_local_effects :: "Program \<Rightarrow> Program" where
  "infer_local_effects p = infer_loop (p\<lparr>functions := map (\<lambda>f. f\<lparr>local_effect := False\<rparr>) (functions p)\<rparr>)"

fun duplicate_params :: "string list \<Rightarrow> bool" where
  "duplicate_params [] = False"
| "duplicate_params (a # ps) = (list_ex (\<lambda>b. strcmp a b = 0) ps \<or> duplicate_params ps)"

definition verify_call :: "Program \<Rightarrow> Function \<Rightarrow> string \<Rightarrow> nat \<Rightarrow> bool \<Rightarrow> string option" where
  "verify_call p function name arity' awaited =
     (let b = builtin name; called = program_function p name in
      if b = None \<and> called = None then Some ''call to unknown function''
      else if arity' \<noteq> (case b of Some e \<Rightarrow> arity e | None \<Rightarrow> length (params (functions p ! the called)))
        then Some ''call arity mismatch''
      else if \<not> verify_call_edge function
            (case b of Some _ \<Rightarrow> None | None \<Rightarrow> Some (functions p ! the called))
            (case b of Some e \<Rightarrow> bpure e | None \<Rightarrow> False)
            (builtin_is_async b) (builtin_is_local_state b) awaited
        then Some (if pure function then ''pure function calls impure function'' else ''invalid async call effect'')
      else None)"

definition verify_instruction :: "Program \<Rightarrow> Function \<Rightarrow> Instruction \<Rightarrow> string option" where
  "verify_instruction p function instruction =
     (let jump = (\<lambda>target. if target \<ge> length (ins function) then Some ''invalid jump target'' else None) in
      case instruction of
        OP_INTERPOLATE parts \<Rightarrow> if parts = [] then Some ''invalid INTERPOLATE operand'' else None
      | OP_ITER_NEXT _ _ target \<Rightarrow> jump target
      | OP_MATCH_VARIANT _ target \<Rightarrow> jump target
      | OP_JUMP_FALSE target \<Rightarrow> jump target
      | OP_JUMP target \<Rightarrow> jump target
      | OP_AWAIT_VALUE _ \<Rightarrow> if \<not> is_async function then Some ''invalid async instruction'' else None
      | OP_CALL name arity' \<Rightarrow> verify_call p function name arity' False
      | OP_AWAIT_CALL name arity' \<Rightarrow> verify_call p function name arity' True
      | _ \<Rightarrow> None)"

fun verify_instructions :: "Program \<Rightarrow> Function \<Rightarrow> Instruction list \<Rightarrow> bool \<Rightarrow> string option" where
  "verify_instructions p function [] returned =
     (if \<not> returned then Some ''bytecode function has no RETURN'' else None)"
| "verify_instructions p function (i # is) returned =
     (case verify_instruction p function i of
        Some e \<Rightarrow> Some e
      | None \<Rightarrow> verify_instructions p function is (returned \<or> i = OP_RETURN))"

definition verify_function :: "Program \<Rightarrow> nat \<Rightarrow> string option" where
  "verify_function p i =
     (let function = functions p ! i in
      if (pure function \<and> is_async function) \<or> cstr (fname function) = [] then Some ''invalid function signature''
      else if i \<noteq> 0 \<and> strcmp (fname (functions p ! (i - 1))) (fname function) \<ge> 0
        then Some ''functions are not in canonical order''
      else if duplicate_params (params function) then Some ''invalid function signature''
      else if ins function = [] then Some ''bytecode function is empty''
      else verify_instructions p function (ins function) False)"

fun verify_each :: "Program \<Rightarrow> nat list \<Rightarrow> string option" where
  "verify_each p [] = None"
| "verify_each p (i # is) = (case verify_function p i of Some e \<Rightarrow> Some e | None \<Rightarrow> verify_each p is)"

definition verify :: "Program \<Rightarrow> Program \<times> string option" where
  "verify p =
     (let p = infer_local_effects (p\<lparr>verified_function_order := False\<rparr>) in
      case program_function p ''main'' of
        None \<Rightarrow> (p, Some ''bytecode has no main function'')
      | Some m \<Rightarrow>
          if params (functions p ! m) \<noteq> [] then (p, Some ''main must not have parameters'')
          else case verify_each p [0..<length (functions p)] of
            Some e \<Rightarrow> (p, Some e)
          | None \<Rightarrow> (p\<lparr>verified_function_order := True\<rparr>, None))"

section \<open>Inference is a least fixed point\<close>

text \<open>
  The specification: a function has only local effects when it is neither pure nor asynchronous, every
  call in it is a direct call of something pure or local, and one of them is local.
\<close>

fun dynamic_call :: "Instruction \<Rightarrow> bool" where
  "dynamic_call (OP_CALL_VALUE _) = True"
| "dynamic_call (OP_AWAIT_VALUE _) = True"
| "dynamic_call (OP_AWAIT_CALL _ _) = True"
| "dynamic_call _ = False"

definition native_local :: "string \<Rightarrow> bool" where
  "native_local name \<longleftrightarrow> (\<exists>e. builtin name = Some e \<and> builtin_is_local_state (Some e))"

definition local_in :: "Program \<Rightarrow> string \<Rightarrow> nat set \<Rightarrow> bool" where
  "local_in p name L \<longleftrightarrow>
     native_local name \<or> (\<exists>k. builtin name = None \<and> program_function p name = Some k \<and> k \<in> L)"

lemma local_in_mono: "L \<subseteq> M \<Longrightarrow> local_in p n L \<longrightarrow> local_in p n M"
  by (auto simp: local_in_def)

inductive_set local_functions :: "Program \<Rightarrow> nat set" for p where
  local: "i < length (functions p) \<Longrightarrow> \<not> pure (functions p ! i) \<Longrightarrow> \<not> is_async (functions p ! i) \<Longrightarrow>
    \<forall>c. c \<in> set (ins (functions p ! i)) \<longrightarrow> \<not> dynamic_call c \<Longrightarrow>
    \<forall>n a. OP_CALL n a \<in> set (ins (functions p ! i)) \<longrightarrow> call_pure p n \<or> local_in p n (local_functions p) \<Longrightarrow>
    \<exists>n a. OP_CALL n a \<in> set (ins (functions p ! i)) \<and> local_in p n (local_functions p) \<Longrightarrow>
    i \<in> local_functions p"
  monos local_in_mono

definition plain :: "Program \<Rightarrow> Program" where
  "plain p = p\<lparr>functions := map (\<lambda>f. f\<lparr>local_effect := False\<rparr>) (functions p)\<rparr>"

definition marked :: "Program \<Rightarrow> nat set" where
  "marked p = {i. i < length (functions p) \<and> local_effect (functions p ! i)}"

text \<open>Programs that differ in their marks only agree on everything the inference reads.\<close>

lemma plain_simps [simp]:
  "functions (plain p) = map (\<lambda>f. f\<lparr>local_effect := False\<rparr>) (functions p)"
  "verified_function_order (plain p) = verified_function_order p"
  "plain (plain p) = plain p"
  by (simp_all add: plain_def)

lemma linear_search_names:
  "map fname fs = map fname gs \<Longrightarrow> linear_search fs n k = linear_search gs n k"
proof (induction fs arbitrary: gs k)
  case (Cons f fs)
  then show ?case by (cases gs) auto
qed simp

lemma binary_search_names:
  "map fname fs = map fname gs \<Longrightarrow> high \<le> length fs \<Longrightarrow> binary_search fs n low high = binary_search gs n low high"
proof (induction fs n low high rule: binary_search.induct)
  case (1 fs n low high)
  have "fname (fs ! m) = fname (gs ! m)" if "m < length fs" for m
    using "1.prems"(1) that by (metis length_map nth_map)
  with 1 show ?case
    by (simp add: binary_search.simps [of fs n low high] binary_search.simps [of gs n low high] Let_def)
qed

lemma program_function_names:
  assumes "function_names p = function_names q" and "verified_function_order p = verified_function_order q"
  shows "program_function p n = program_function q n"
  using assms linear_search_names [of "functions p" "functions q" n 0]
    binary_search_names [of "functions p" "functions q" "length (functions p)" n 0]
  by (auto simp: program_function_def function_names_def dest: map_eq_imp_length_eq)

lemma program_function_range: "program_function p n = Some i \<Longrightarrow> i < length (functions p)"
  using binary_search_Some [of "functions p" n 0 "length (functions p)" i] linear_search_Some [of "functions p" n 0 i]
  by (auto simp: program_function_def split: if_splits)

lemma shape:
  assumes "plain p = plain q"
  shows "length (functions p) = length (functions q)"
    and "program_function p n = program_function q n"
    and "i < length (functions p) \<Longrightarrow> (functions p ! i)\<lparr>local_effect := b\<rparr> = (functions q ! i)\<lparr>local_effect := b\<rparr>"
proof -
  let ?e = "\<lambda>f. f\<lparr>local_effect := False\<rparr>"
  from assms have fs: "map ?e (functions p) = map ?e (functions q)"
    and vo: "verified_function_order p = verified_function_order q" by (metis plain_simps)+
  then show len: "length (functions p) = length (functions q)" by (metis length_map)
  from arg_cong [OF fs, of "map fname"] have "function_names p = function_names q"
    by (simp add: function_names_def comp_def)
  with vo show "program_function p n = program_function q n" by (rule program_function_names [rotated])
  assume i: "i < length (functions p)"
  with len arg_cong [OF fs, of "\<lambda>xs. (xs ! i)\<lparr>local_effect := b\<rparr>"]
  show "(functions p ! i)\<lparr>local_effect := b\<rparr> = (functions q ! i)\<lparr>local_effect := b\<rparr>" by simp
qed

lemma shape_fields:
  assumes "plain p = plain q" and "i < length (functions p)"
  shows "pure (functions p ! i) = pure (functions q ! i)" "is_async (functions p ! i) = is_async (functions q ! i)"
    "ins (functions p ! i) = ins (functions q ! i)" "params (functions p ! i) = params (functions q ! i)"
    "fname (functions p ! i) = fname (functions q ! i)"
  using shape(3) [OF assms, of False] by (metis Function.select_convs Function.surjective Function.update_convs(4))+

lemma shape_call_pure:
  assumes "plain p = plain q"
  shows "call_pure p n = call_pure q n"
  using shape(2) [OF assms, of n] shape_fields(1) [OF assms] program_function_range [of p n]
  by (auto simp: call_pure_def callee_of_def split: option.splits)

lemma local_functions_cong:
  assumes "length (functions p) = length (functions q)"
    and "\<And>i. i < length (functions p) \<Longrightarrow> pure (functions p ! i) = pure (functions q ! i) \<and>
      is_async (functions p ! i) = is_async (functions q ! i) \<and> ins (functions p ! i) = ins (functions q ! i)"
    and "\<And>n. program_function p n = program_function q n" and "\<And>n. call_pure p n = call_pure q n"
  shows "local_functions p \<subseteq> local_functions q"
proof
  fix i assume "i \<in> local_functions p"
  then show "i \<in> local_functions q"
  proof induction
    case (local i)
    have "local_in q n (local_functions q)" if "local_in p n {k \<in> local_functions p. k \<in> local_functions q}" for n
      using that by (auto simp: local_in_def assms(3))
    with local assms(2) [OF local.hyps(1)] show ?case unfolding assms(1,4)
      by (intro local_functions.local) (simp_all, blast+)
  qed
qed

lemma shape_local_functions:
  assumes "plain p = plain q"
  shows "local_functions p = local_functions q"
proof (rule subset_antisym)
  show "local_functions p \<subseteq> local_functions q"
    by (rule local_functions_cong) (use shape [OF assms] shape_fields [OF assms] shape_call_pure [OF assms] in auto)
  show "local_functions q \<subseteq> local_functions p"
    by (rule local_functions_cong)
      (use shape [OF assms [symmetric]] shape_fields [OF assms [symmetric]] shape_call_pure [OF assms [symmetric]] in auto)
qed

text \<open>The loops keep the shape, mark only functions of the specification, and end at a fixed point.\<close>

lemma call_resource_marked:
  "call_resource p n \<longleftrightarrow> local_in p n (marked p)"
  using program_function_range [of p n]
  by (auto simp: call_resource_def local_in_def native_local_def callee_of_def marked_def split: option.splits)

lemma scan_calls_True:
  "scan_calls p is l = (True, True) \<longleftrightarrow>
     (\<forall>c \<in> set is. \<not> dynamic_call c \<and> (\<forall>n a. c = OP_CALL n a \<longrightarrow> call_pure p n \<or> call_resource p n)) \<and>
     (l \<or> (\<exists>n a. OP_CALL n a \<in> set is \<and> call_resource p n))"
proof (induction "is" arbitrary: l)
  case (Cons c "is")
  show ?case by (cases c) (auto simp: Cons.IH)
qed simp

lemma mark_local_shape: "i < length (functions p) \<Longrightarrow> plain (mark_local p i) = plain p"
  by (simp add: plain_def mark_local_def map_update list_update_same_conv)

lemma marked_mark_local: "i < length (functions p) \<Longrightarrow> marked (mark_local p i) = insert i (marked p)"
  by (auto simp: marked_def mark_local_def nth_list_update split: if_splits)

lemma scan_local:
  assumes "i < length (functions p)" and "\<not> pure (functions p ! i)" and "\<not> is_async (functions p ! i)"
    and "scan_calls p (ins (functions p ! i)) False = (True, True)" and "marked p \<subseteq> local_functions p"
  shows "i \<in> local_functions p"
  using assms local_in_mono [OF assms(5)] unfolding scan_calls_True call_resource_marked
  by (intro local_functions.local) blast+

lemma infer_pass_sound:
  "infer_pass p i c = r \<Longrightarrow> marked p \<subseteq> local_functions p \<Longrightarrow>
     plain (fst r) = plain p \<and> marked (fst r) \<subseteq> local_functions p"
proof (induction p i c r rule: infer_pass_steps)
  case (mark p i c r)
  note eq = mark_local_shape [OF mark(1)] marked_mark_local [OF mark(1)]
    shape_local_functions [OF mark_local_shape [OF mark(1)]]
  from scan_local [OF mark(1)] mark(2-4) show ?case by (auto simp: eq eligible_def Let_def)
qed auto

lemma infer_pass_stable:
  "infer_pass p i c = r \<Longrightarrow> \<not> snd r \<Longrightarrow> \<not> c \<and> fst r = p \<and>
     (\<forall>j. i \<le> j \<and> j < length (functions p) \<longrightarrow> \<not> eligible p j)"
proof (induction p i c r rule: infer_pass_steps)
  case (keep p i c r)
  then show ?case by (metis Suc_leI le_neq_implies_less)
qed auto

lemma infer_loop_exact:
  "marked p \<subseteq> local_functions p \<Longrightarrow> plain (infer_loop p) = plain p \<and> marked (infer_loop p) = local_functions p"
proof (induction p rule: infer_loop.induct)
  case (1 p)
  obtain q c where pass: "infer_pass p 0 False = (q, c)" by fastforce
  from infer_pass_sound [OF this "1.prems"]
  have sound: "plain q = plain p" "marked q \<subseteq> local_functions p" by simp_all
  then have eq: "local_functions q = local_functions p" using shape_local_functions by blast
  show ?case
  proof (cases c)
    case True
    with 1 pass sound eq show ?thesis by (simp add: infer_loop.simps [of p])
  next
    case False
    with pass infer_pass_stable [OF pass] have stop: "infer_loop p = p"
      and stable: "\<And>j. j < length (functions p) \<Longrightarrow> \<not> eligible p j" by (simp_all add: infer_loop.simps [of p])
    then have stable: "j \<in> marked p" if "j < length (functions p)" "\<not> pure (functions p ! j)"
        "\<not> is_async (functions p ! j)" "scan_calls p (ins (functions p ! j)) False = (True, True)" for j
      using that by (auto simp: eligible_def marked_def Let_def)
    have "local_functions p \<subseteq> marked p"
    proof
      fix i assume "i \<in> local_functions p"
      then show "i \<in> marked p"
      proof induction
        case (local i)
        have "local_in p n (marked p)" if "local_in p n {k \<in> local_functions p. k \<in> marked p}" for n
          using that by (auto simp: local_in_def)
        with local show ?case
          by (intro stable) (unfold scan_calls_True call_resource_marked, blast+)
      qed
    qed
    with stop "1.prems" show ?thesis by auto
  qed
qed

lemma infer_exact:
  "plain (infer_local_effects p) = plain p" "marked (infer_local_effects p) = local_functions p"
proof -
  let ?p = "p\<lparr>functions := map (\<lambda>f. f\<lparr>local_effect := False\<rparr>) (functions p)\<rparr>"
  have eq: "?p = plain p" by (simp add: plain_def)
  have "marked ?p \<subseteq> local_functions ?p" by (auto simp: marked_def)
  from infer_loop_exact [OF this] shape_local_functions [of "plain p" p]
  show "plain (infer_local_effects p) = plain p" "marked (infer_local_effects p) = local_functions p"
    by (simp_all add: infer_local_effects_def eq)
qed

text \<open>
  C24. The inference of local effects ends, for every program, with exactly the least set of functions
  that is closed under its rule marked, and changes nothing else; marks already present are not trusted.
\<close>

theorem local_effect_inference_least:
  "marked (infer_local_effects p) = local_functions p \<and> plain (infer_local_effects p) = plain p \<and>
   infer_local_effects (infer_local_effects p) = infer_local_effects p"
proof -
  have "infer_local_effects (infer_local_effects p) = infer_local_effects p"
    using infer_exact(1) [of p] by (metis infer_local_effects_def plain_def)
  with infer_exact show ?thesis by blast
qed

section \<open>What a verified program is\<close>

text \<open>Effects in the order of what they may call, and the calls each effect may make.\<close>

datatype Effect = Pure | Local | Ordinary | Async

definition function_effect :: "Function \<Rightarrow> Effect" where
  "function_effect f = (if pure f then Pure else if is_async f then Async else if local_effect f then Local else Ordinary)"

definition native_effect :: "Builtin \<Rightarrow> Effect" where
  "native_effect e = (if bpure e then Pure else if builtin_is_async (Some e) then Async
     else if builtin_is_local_state (Some e) then Local else Ordinary)"

fun may_call :: "Effect \<Rightarrow> Effect set" where
  "may_call Pure = {Pure}"
| "may_call Local = {Pure, Local}"
| "may_call Async = {Pure, Local}"
| "may_call Ordinary = {Pure, Local, Ordinary}"

definition legal_call :: "Effect \<Rightarrow> Effect \<Rightarrow> bool \<Rightarrow> bool" where
  "legal_call caller callee awaited = (if awaited then caller = Async \<and> callee = Async else callee \<in> may_call caller)"

text \<open>What a name calls: a builtin, or else the function of that name.\<close>

datatype Target = Native Builtin | Code Function

definition target_of :: "Program \<Rightarrow> string \<Rightarrow> Target option" where
  "target_of p name = (case builtin name of
     Some e \<Rightarrow> Some (Native e)
   | None \<Rightarrow> map_option (\<lambda>i. Code (functions p ! i)) (program_function p name))"

fun target_arity :: "Target \<Rightarrow> nat" where
  "target_arity (Native e) = arity e"
| "target_arity (Code f) = length (params f)"

fun target_effect :: "Target \<Rightarrow> Effect" where
  "target_effect (Native e) = native_effect e"
| "target_effect (Code f) = function_effect f"

definition valid_call :: "Program \<Rightarrow> Function \<Rightarrow> string \<Rightarrow> nat \<Rightarrow> bool \<Rightarrow> bool" where
  "valid_call p f name n awaited \<longleftrightarrow>
     (\<exists>t. target_of p name = Some t \<and> n = target_arity t \<and> legal_call (function_effect f) (target_effect t) awaited)"

fun valid_instruction :: "Program \<Rightarrow> Function \<Rightarrow> Instruction \<Rightarrow> bool" where
  "valid_instruction p f (OP_INTERPOLATE parts) = (parts \<noteq> [])"
| "valid_instruction p f (OP_ITER_NEXT _ _ target) = (target < length (ins f))"
| "valid_instruction p f (OP_MATCH_VARIANT _ target) = (target < length (ins f))"
| "valid_instruction p f (OP_JUMP_FALSE target) = (target < length (ins f))"
| "valid_instruction p f (OP_JUMP target) = (target < length (ins f))"
| "valid_instruction p f (OP_AWAIT_VALUE _) = is_async f"
| "valid_instruction p f (OP_CALL name n) = valid_call p f name n False"
| "valid_instruction p f (OP_AWAIT_CALL name n) = valid_call p f name n True"
| "valid_instruction p f _ = True"

definition valid_function :: "Program \<Rightarrow> Function \<Rightarrow> bool" where
  "valid_function p f \<longleftrightarrow> \<not> (pure f \<and> is_async f) \<and> cstr (fname f) \<noteq> [] \<and> distinct (map cstr (params f)) \<and>
     OP_RETURN \<in> set (ins f) \<and> (\<forall>i \<in> set (ins f). valid_instruction p f i)"

definition valid_program :: "Program \<Rightarrow> bool" where
  "valid_program p \<longleftrightarrow>
     (\<exists>m \<in> set (functions p). cstr (fname m) = ''main'' \<and> params m = []) \<and>
     ordered_names (function_names p) \<and> (\<forall>f \<in> set (functions p). valid_function p f)"

text \<open>Each check of the verifier decides its part.\<close>

lemma duplicate_params_iff: "duplicate_params ps \<longleftrightarrow> \<not> distinct (map cstr ps)"
  by (induction ps) (auto simp: strcmp_0_iff list_ex_iff image_iff)

lemma edge_native:
  "verify_call_edge f None (bpure e) (builtin_is_async (Some e)) (builtin_is_local_state (Some e)) w =
     legal_call (function_effect f) (native_effect e) w" if "builtin n = Some e"
  using async_impure [of n e] that
  by (auto simp: verify_call_edge_def legal_call_def function_effect_def native_effect_def)

lemma edge_code:
  "verify_call_edge f (Some g) a b c w = legal_call (function_effect f) (function_effect g) w"
    if "\<not> (pure g \<and> is_async g)"
  using that by (auto simp: verify_call_edge_def legal_call_def function_effect_def)

lemma verify_call_iff:
  assumes "\<forall>f \<in> set (functions p). \<not> (pure f \<and> is_async f)"
  shows "verify_call p f name n w = None \<longleftrightarrow> valid_call p f name n w"
proof (cases "builtin name")
  case (Some e)
  with edge_native [OF Some] show ?thesis
    by (auto simp: verify_call_def valid_call_def target_of_def Let_def)
next
  case None
  show ?thesis
  proof (cases "program_function p name")
    case (Some k)
    with program_function_range [of p name] assms have "\<not> (pure (functions p ! k) \<and> is_async (functions p ! k))" by simp
    with None Some edge_code show ?thesis by (auto simp: verify_call_def valid_call_def target_of_def Let_def)
  qed (use None in \<open>simp add: verify_call_def valid_call_def target_of_def Let_def\<close>)
qed

lemma verify_instruction_iff:
  assumes "\<forall>f \<in> set (functions p). \<not> (pure f \<and> is_async f)"
  shows "verify_instruction p f i = None \<longleftrightarrow> valid_instruction p f i"
  using verify_call_iff [OF assms] by (cases i) (auto simp: verify_instruction_def Let_def)

lemma verify_instructions_iff:
  "verify_instructions p f is r = None \<longleftrightarrow>
     (r \<or> OP_RETURN \<in> set is) \<and> (\<forall>i \<in> set is. verify_instruction p f i = None)"
  by (induction "is" arbitrary: r) (auto split: option.splits)

lemma verify_each_iff: "verify_each p is = None \<longleftrightarrow> (\<forall>i \<in> set is. verify_function p i = None)"
  by (induction "is") (auto split: option.splits)

lemma verify_function_iff:
  assumes "\<forall>f \<in> set (functions p). \<not> (pure f \<and> is_async f)"
  shows "verify_function p i = None \<longleftrightarrow> valid_function p (functions p ! i) \<and>
    (i \<noteq> 0 \<longrightarrow> strcmp (fname (functions p ! (i - 1))) (fname (functions p ! i)) < 0)"
  by (auto simp: verify_function_def valid_function_def duplicate_params_iff verify_instructions_iff
      verify_instruction_iff [OF assms] Let_def)

lemma verify_function_signature:
  "verify_function p i = None \<Longrightarrow> \<not> (pure (functions p ! i) \<and> is_async (functions p ! i))"
  by (auto simp: verify_function_def Let_def split: if_splits)

lemma ordered_names_step:
  "ordered_names ns \<longleftrightarrow> (\<forall>i. 0 < i \<and> i < length ns \<longrightarrow> strcmp (ns ! (i - 1)) (ns ! i) < 0)"
proof -
  have "transp (\<lambda>a b. strcmp a b < 0)" by (rule transpI) (simp add: strcmp_less_iff)
  from sorted_wrt_iff_nth_Suc_transp [OF this, of ns]
  have "ordered_names ns \<longleftrightarrow> (\<forall>i. Suc i < length ns \<longrightarrow> strcmp (ns ! i) (ns ! Suc i) < 0)"
    by (simp add: ordered_names_def)
  then show ?thesis by (metis Suc_pred diff_Suc_1 zero_less_Suc)
qed

lemma function_order_step:
  "ordered_names (function_names p) \<longleftrightarrow>
     (\<forall>i. 0 < i \<and> i < length (functions p) \<longrightarrow> strcmp (fname (functions p ! (i - 1))) (fname (functions p ! i)) < 0)"
proof -
  have "map fname (functions p) ! (i - 1) = fname (functions p ! (i - 1))" if "0 < i" "i < length (functions p)" for i
    using that by simp
  then show ?thesis by (auto simp: ordered_names_step function_names_def)
qed

lemma verify_each_valid:
  "verify_each p [0..<length (functions p)] = None \<longleftrightarrow>
     ordered_names (function_names p) \<and> (\<forall>f \<in> set (functions p). valid_function p f)"
proof -
  let ?sig = "\<forall>f \<in> set (functions p). \<not> (pure f \<and> is_async f)"
  have "?sig \<or> verify_each p [0..<length (functions p)] \<noteq> None"
    using verify_function_signature by (auto simp: verify_each_iff in_set_conv_nth)
  moreover have "?sig" if "\<forall>f \<in> set (functions p). valid_function p f"
    using that by (auto simp: valid_function_def)
  ultimately show ?thesis
    using verify_function_iff [of p]
    by (auto simp: verify_each_iff function_order_step all_set_conv_all_nth)
qed

lemma lookup_main:
  assumes "order_honest p" and "distinct (map cstr (function_names p))"
  shows "(\<exists>m. program_function p n = Some m \<and> Q (functions p ! m)) \<longleftrightarrow>
    (\<exists>f \<in> set (functions p). cstr (fname f) = cstr n \<and> Q f)"
  using fns.find_unique [OF assms] by (auto simp: function_names_def in_set_conv_nth Bex_def)

lemma ordered_distinct: "ordered_names ns \<Longrightarrow> distinct (map cstr ns)"
  by (auto simp: ordered_names_def distinct_conv_nth sorted_wrt_iff_nth_less strcmp_less_iff)
    (metis linorder_neqE_nat less_irrefl)

lemma verify_accepts:
  "verify p = (q, None) \<longleftrightarrow>
     (let r = infer_local_effects (p\<lparr>verified_function_order := False\<rparr>) in
      valid_program r \<and> q = r\<lparr>verified_function_order := True\<rparr>)"
proof -
  define r where "r = infer_local_effects (p\<lparr>verified_function_order := False\<rparr>)"
  have "verified_function_order r = False"
    using infer_exact(1) [of "p\<lparr>verified_function_order := False\<rparr>"] unfolding r_def
    by (metis Program.select_convs(2) Program.surjective Program.update_convs(2) plain_simps(2))
  then have honest: "order_honest r" by (simp add: order_honest_def)
  have "valid_program r \<longleftrightarrow> verify_each r [0..<length (functions r)] = None \<and>
      (\<exists>m. program_function r ''main'' = Some m \<and> params (functions r ! m) = [])"
    using lookup_main [OF honest, of "''main''" "\<lambda>f. params f = []"] ordered_distinct
    by (auto simp: valid_program_def verify_each_valid)
  then show ?thesis
    unfolding verify_def r_def [symmetric] Let_def by (auto split: option.splits if_splits)
qed

text \<open>Setting the flag of an ordered table changes no lookup, so it changes nothing that is checked.\<close>

lemma flag_lookup:
  assumes "ordered_names (function_names p)"
  shows "program_function (p\<lparr>verified_function_order := b\<rparr>) n = program_function p n"
proof -
  have honest: "order_honest (p\<lparr>verified_function_order := c\<rparr>)" for c
    using assms by (simp add: order_honest_def function_names_def)
  have honest': "order_honest p" using assms by (simp add: order_honest_def)
  have "program_function (p\<lparr>verified_function_order := b\<rparr>) n = Some i \<longleftrightarrow> program_function p n = Some i" for i
    using fns.find_unique [OF honest] fns.find_unique [OF honest'] ordered_distinct [OF assms]
    by (simp add: function_names_def)
  then show ?thesis by (metis option.exhaust)
qed

lemma flag_target:
  "ordered_names (function_names p) \<Longrightarrow> target_of (p\<lparr>verified_function_order := b\<rparr>) n = target_of p n"
  by (simp add: target_of_def flag_lookup split: option.split)

lemma flag_valid_program: "valid_program (p\<lparr>verified_function_order := b\<rparr>) \<longleftrightarrow> valid_program p"
proof (cases "ordered_names (function_names p)")
  case True
  have "valid_instruction (p\<lparr>verified_function_order := b\<rparr>) f i = valid_instruction p f i" for f i
    by (cases i) (simp_all add: valid_call_def flag_target [OF True])
  then show ?thesis by (simp add: valid_program_def valid_function_def function_names_def)
qed (simp add: valid_program_def function_names_def)

lemma flag_local_functions:
  assumes "ordered_names (function_names p)"
  shows "local_functions (p\<lparr>verified_function_order := b\<rparr>) = local_functions p"
proof -
  have "call_pure (p\<lparr>verified_function_order := b\<rparr>) n = call_pure p n"
    and "local_in (p\<lparr>verified_function_order := b\<rparr>) n L = local_in p n L" for n L
    by (simp_all add: call_pure_def callee_of_def local_in_def flag_lookup [OF assms] split: option.split)
  note same = flag_lookup [OF assms] this(1)
  show ?thesis
    by (rule subset_antisym; rule local_functions_cong) (simp_all add: same)
qed

lemma plain_eq_iff:
  "plain p = plain q \<longleftrightarrow> verified_function_order p = verified_function_order q \<and>
     map (\<lambda>f. f\<lparr>local_effect := False\<rparr>) (functions p) = map (\<lambda>f. f\<lparr>local_effect := False\<rparr>) (functions q)"
  by (cases p; cases q) (auto simp: plain_def)

lemma marked_flag: "marked (p\<lparr>verified_function_order := b\<rparr>) = marked p"
  by (simp add: marked_def)

lemma plain_marked_inject:
  assumes "plain p = plain q" and "marked p = marked q"
  shows "p = q"
proof -
  have "functions p ! i = functions q ! i" if i: "i < length (functions p)" for i
  proof -
    from assms(2) i shape(1) [OF assms(1)] have "local_effect (functions p ! i) = local_effect (functions q ! i)"
      by (auto simp: marked_def set_eq_iff)
    with shape(3) [OF assms(1) i, of False] show ?thesis
      by (cases "functions p ! i"; cases "functions q ! i") simp
  qed
  with shape(1) [OF assms(1)] have "functions p = functions q" by (simp add: nth_equalityI)
  with assms(1) show ?thesis by (simp add: plain_eq_iff)
qed

lemma verified_valid:
  assumes "verify p = (q, None)"
  shows "valid_program q" and "verified_function_order q" and "order_honest q"
  using assms flag_valid_program [of True "infer_local_effects (p\<lparr>verified_function_order := False\<rparr>)"]
  by (auto simp: verify_accepts Let_def order_honest_def valid_program_def)

text \<open>
  C2. The verifier accepts exactly the well-formed programs, and the program it hands on is the one it
  was given with the order flag set and the marks of the least solution: names in strict order, a \<open>main\<close>
  without parameters, every jump inside its function, every call known, with the right arity and an
  effect its caller may have.
\<close>

theorem verify_exact:
  "verify p = (q, None) \<longleftrightarrow>
     plain q = plain (p\<lparr>verified_function_order := True\<rparr>) \<and> marked q = local_functions q \<and> valid_program q"
proof -
  define p0 r where "p0 = p\<lparr>verified_function_order := False\<rparr>" and "r = infer_local_effects p0"
  let ?t = "\<lambda>p :: Program. p\<lparr>verified_function_order := True\<rparr>"
  have r: "plain r = plain p0" "marked r = local_functions r"
    using infer_exact [of p0] shape_local_functions [of r p0] by (simp_all add: r_def)
  then have t: "plain (?t r) = plain (?t p)" by (simp add: plain_eq_iff p0_def)
  have "verify p = (q, None) \<longleftrightarrow> valid_program r \<and> q = ?t r"
    by (simp add: verify_accepts Let_def r_def p0_def)
  also have "\<dots> \<longleftrightarrow> plain q = plain (?t p) \<and> marked q = local_functions q \<and> valid_program q"
  proof
    assume a: "valid_program r \<and> q = ?t r"
    then have "local_functions q = local_functions r" "marked q = marked r"
      using flag_local_functions [of r True] by (simp_all add: valid_program_def marked_def)
    with a t r flag_valid_program [of True r]
    show "plain q = plain (?t p) \<and> marked q = local_functions q \<and> valid_program q" by simp
  next
    assume a: "plain q = plain (?t p) \<and> marked q = local_functions q \<and> valid_program q"
    then have "local_functions (q\<lparr>verified_function_order := False\<rparr>) = local_functions q"
      using flag_local_functions [of q False] by (simp add: valid_program_def)
    moreover from a r(1) have "plain (q\<lparr>verified_function_order := False\<rparr>) = plain r"
      by (simp add: plain_eq_iff p0_def)
    ultimately have "marked q = marked (?t r)" using a r(2) shape_local_functions by (metis marked_flag)
    with a t plain_marked_inject [of q "?t r"] flag_valid_program [of True r]
    show "valid_program r \<and> q = ?t r" by auto
  qed
  finally show ?thesis .
qed

section \<open>Effects stay where they are declared\<close>

text \<open>The builtins a function reaches through chains of direct calls that are not awaited.\<close>

inductive reaches :: "Program \<Rightarrow> Function \<Rightarrow> Builtin \<Rightarrow> bool" for p where
  native: "OP_CALL name n \<in> set (ins f) \<Longrightarrow> target_of p name = Some (Native e) \<Longrightarrow> reaches p f e"
| code: "OP_CALL name n \<in> set (ins f) \<Longrightarrow> target_of p name = Some (Code g) \<Longrightarrow> reaches p g e \<Longrightarrow> reaches p f e"

lemma target_code: "target_of p name = Some (Code g) \<Longrightarrow> g \<in> set (functions p)"
  using program_function_range [of p name] by (auto simp: target_of_def split: option.splits)

lemma may_call_trans: "c \<in> may_call b \<Longrightarrow> b \<in> may_call a \<Longrightarrow> c \<in> may_call a"
  by (cases a; cases b) auto

lemma reaches_may_call:
  assumes "valid_program p"
  shows "reaches p f e \<Longrightarrow> f \<in> set (functions p) \<Longrightarrow> native_effect e \<in> may_call (function_effect f)"
proof (induction rule: reaches.induct)
  case (native name n f e)
  with assms show ?case by (fastforce simp: valid_program_def valid_function_def valid_call_def legal_call_def)
next
  case (code name n f g e)
  then have "function_effect g \<in> may_call (function_effect f)"
    using assms by (fastforce simp: valid_program_def valid_function_def valid_call_def legal_call_def)
  with code target_code may_call_trans show ?case by blast
qed

text \<open>
  C8. In a verified program no chain of direct calls escapes its declared effect: a pure function reaches
  only pure builtins, a local-effect or asynchronous function only pure builtins and ones on local
  resources, and no function reaches an asynchronous service without awaiting it.
\<close>

theorem effects_contained:
  assumes "verify p = (q, None)" and "f \<in> set (functions q)" and "reaches q f e"
  shows "\<not> builtin_is_async (Some e) \<and> (pure f \<longrightarrow> bpure e) \<and>
    (is_async f \<or> local_effect f \<longrightarrow> bpure e \<or> builtin_is_local_state (Some e))"
proof -
  from reaches_may_call [OF verified_valid(1) [OF assms(1)] assms(3,2)] have m: "native_effect e \<in> may_call (function_effect f)" .
  obtain name where "builtin name = Some e"
    using assms(3) by (induction rule: reaches.induct) (auto simp: target_of_def split: option.splits)
  with m async_impure [of name e] show ?thesis
    by (auto simp: native_effect_def function_effect_def split: if_splits)
qed

definition sample_program :: Program where
  "sample_program = \<lparr>functions = [sample_function ''main'' [OP_CALL ''$unit'' 0, OP_RETURN]],
     verified_function_order = False\<rparr>"

definition unit_entry :: Builtin where
  "unit_entry = \<lparr>bname = ''$unit'', arity = 0, bpure = True, bcall = NUMERIC\<rparr>"

lemma builtin_unit: "builtin ''$unit'' = Some unit_entry"
  by (simp add: builtin_iff BUILTINS_def unit_entry_def)

lemma sample_program_verified: "verify sample_program = (sample_program\<lparr>verified_function_order := True\<rparr>, None)"
  by (simp add: verify_def infer_local_effects_def infer_loop.simps infer_pass.simps sample_program_def sample_function_def
      program_function_def strcmp_def cstr_def verify_function_def verify_instruction_def verify_call_def
      verify_call_edge_def builtin_unit unit_entry_def builtin_is_async_def builtin_is_local_state_def
      call_pure_def call_resource_def Let_def)

theorem effects_contained_witness:
  "snd (verify sample_program) = None \<and>
   reaches (sample_program\<lparr>verified_function_order := True\<rparr>) (sample_function ''main'' [OP_CALL ''$unit'' 0, OP_RETURN]) unit_entry \<and>
   \<not> builtin_is_async (Some unit_entry)"
proof -
  let ?q = "sample_program\<lparr>verified_function_order := True\<rparr>"
  let ?f = "sample_function ''main'' [OP_CALL ''$unit'' 0, OP_RETURN]"
  have "reaches ?q ?f unit_entry"
    by (rule reaches.native [of "''$unit''" 0]) (simp_all add: sample_function_def target_of_def builtin_unit)
  with effects_contained [OF sample_program_verified, of ?f unit_entry] show ?thesis
    using sample_program_verified by (simp add: sample_program_def)
qed

end
