(* ===== verification/Coverage.thy ===== *)
theory Coverage
  imports Program
begin

unbundle bit_operations_syntax

text \<open>
  Execution coverage, \<open>src/vm/coverage.c\<close>: saturating counters per function and instruction, and the raw
  record they are written to. A collector borrows a program by its address; the model keeps the
  program with a tag that stands for the address, and a function pointer is the tag with an index.
  An output stream is what was written to it, how many more bytes it takes and its error indicator.
\<close>

section \<open>Definitions\<close>

record VMCoverageCell =
  attempted :: nat
  completed :: nat
  fallthrough :: nat
  branched :: nat

type_synonym function_pointer = "nat \<times> nat"

record VMCoverage =
  cprogram :: Program
  caddress :: nat
  cells :: "VMCoverageCell list"
  offsets :: "nat list"
  entries :: "nat list"
  ccount :: nat
  cbytes :: nat
  ceiling :: nat
  flags :: nat
  terminal :: nat
  started :: bool

definition VM_COVERAGE_MAX_CELLS :: nat where "VM_COVERAGE_MAX_CELLS = 262144"
definition VM_COVERAGE_MAX_IDENTITY :: nat where "VM_COVERAGE_MAX_IDENTITY = 16777216"
definition VM_COVERAGE_MAX_INVENTORY :: nat where "VM_COVERAGE_MAX_INVENTORY = 67108864"
definition VM_COVERAGE_MAX_RAW :: nat where "VM_COVERAGE_MAX_RAW = 134217728"

fun count_cells :: "nat \<Rightarrow> nat \<Rightarrow> Function list \<Rightarrow> nat option" where
  "count_cells cell_limit count [] = Some count"
| "count_cells cell_limit count (f # fs) =
     (if length (ins f) > cell_limit - count then None
      else count_cells cell_limit (count + length (ins f)) fs)"

fun fill_offsets :: "nat \<Rightarrow> Function list \<Rightarrow> nat list" where
  "fill_offsets offset [] = []"
| "fill_offsets offset (f # fs) = offset # fill_offsets (offset + length (ins f)) fs"

definition zero_cell :: VMCoverageCell where
  "zero_cell = \<lparr>attempted = 0, completed = 0, fallthrough = 0, branched = 0\<rparr>"

text \<open>The sizes of the structures are those of a 64-bit platform.\<close>

definition vm_coverage_create :: "heap \<Rightarrow> Program option \<Rightarrow> nat \<Rightarrow> nat \<Rightarrow> nat \<Rightarrow> VMCoverage option" where
  "vm_coverage_create h program address cell_limit ceil =
     (case program of
        None \<Rightarrow> None
      | Some program \<Rightarrow>
          if ceil = 0 \<or> cell_limit = 0 \<or> cell_limit > VM_COVERAGE_MAX_CELLS \<or>
             length (functions program) > VM_COVERAGE_MAX_CELLS then None
          else case count_cells cell_limit 0 (functions program) of
            None \<Rightarrow> None
          | Some count \<Rightarrow>
              let n = max 1 (length (functions program)) in
              if \<not> h Cell then None
              else if \<not> h (Slots (max 1 count)) \<or> \<not> h (Slots n) then None
              else Some \<lparr>cprogram = program, caddress = address, cells = replicate count zero_cell,
                offsets = fill_offsets 0 (functions program), entries = replicate (length (functions program)) 0,
                ccount = count, cbytes = 72 + max 1 count * 32 + n * (8 + 8), ceiling = ceil,
                flags = 0, terminal = 0, started = False\<rparr>)"

definition vm_coverage_gap :: "VMCoverage \<Rightarrow> VMCoverage" where
  "vm_coverage_gap c = c\<lparr>flags := flags c OR 1\<rparr>"

definition vm_coverage_start :: "VMCoverage option \<Rightarrow> nat \<Rightarrow> VMCoverage option" where
  "vm_coverage_start c address = map_option (\<lambda>c.
     (if started c \<or> caddress c \<noteq> address then vm_coverage_gap c else c)\<lparr>started := True\<rparr>) c"

definition vm_coverage_function :: "VMCoverage \<Rightarrow> function_pointer \<Rightarrow> nat \<times> VMCoverage" where
  "vm_coverage_function c function =
     (case find (\<lambda>i. (caddress c, i) = function) [0..<length (functions (cprogram c))] of
        Some i \<Rightarrow> (i, c)
      | None \<Rightarrow> (SIZE_MAX, vm_coverage_gap c))"

text \<open>Incrementing one counter returns its new value with the flags.\<close>

definition increment :: "VMCoverage \<Rightarrow> nat \<Rightarrow> VMCoverage \<times> nat" where
  "increment c v = (if v = ceiling c then (c\<lparr>flags := flags c OR 2\<rparr>, v) else (c, u64 (v + 1)))"

definition vm_coverage_enter :: "VMCoverage \<Rightarrow> nat \<Rightarrow> VMCoverage" where
  "vm_coverage_enter c function =
     (if function < length (functions (cprogram c)) then
        let (c, v) = increment c (entries c ! function) in c\<lparr>entries := (entries c)[function := v]\<rparr>
      else c)"

definition vm_coverage_entries :: "VMCoverage \<Rightarrow> nat \<Rightarrow> nat" where
  "vm_coverage_entries c function =
     (if function < length (functions (cprogram c)) then entries c ! function else 0)"

definition vm_coverage_cell :: "VMCoverage \<Rightarrow> nat \<Rightarrow> nat \<Rightarrow> nat option" where
  "vm_coverage_cell c function pc =
     (if function \<ge> length (functions (cprogram c)) \<or> pc \<ge> length (ins (functions (cprogram c) ! function)) then None
      else Some (offsets c ! function + pc))"

definition vm_coverage_attempt :: "VMCoverage \<Rightarrow> nat \<Rightarrow> nat \<Rightarrow> VMCoverage" where
  "vm_coverage_attempt c function pc =
     (case vm_coverage_cell c function pc of
        Some k \<Rightarrow>
          let (c, v) = increment c (attempted (cells c ! k)) in
          c\<lparr>cells := (cells c)[k := (cells c ! k)\<lparr>attempted := v\<rparr>]\<rparr>
      | None \<Rightarrow> vm_coverage_gap c)"

fun branching :: "Instruction \<Rightarrow> bool" where
  "branching (OP_JUMP_FALSE _) = True"
| "branching (OP_ITER_NEXT _ _ _) = True"
| "branching (OP_MATCH_VARIANT _ _) = True"
| "branching _ = False"

definition vm_coverage_finish :: "VMCoverage \<Rightarrow> nat \<Rightarrow> nat \<Rightarrow> bool \<Rightarrow> VMCoverage" where
  "vm_coverage_finish c function pc branch =
     (case vm_coverage_cell c function pc of
        None \<Rightarrow> vm_coverage_gap c
      | Some k \<Rightarrow>
          let (c, v) = increment c (completed (cells c ! k));
              c = c\<lparr>cells := (cells c)[k := (cells c ! k)\<lparr>completed := v\<rparr>]\<rparr> in
          if branching (ins (functions (cprogram c) ! function) ! pc) then
            if branch then
              let (c, v) = increment c (branched (cells c ! k)) in
              c\<lparr>cells := (cells c)[k := (cells c ! k)\<lparr>branched := v\<rparr>]\<rparr>
            else
              let (c, v) = increment c (fallthrough (cells c ! k)) in
              c\<lparr>cells := (cells c)[k := (cells c ! k)\<lparr>fallthrough := v\<rparr>]\<rparr>
          else c)"

definition vm_coverage_terminal :: "VMCoverage option \<Rightarrow> nat \<Rightarrow> VMCoverage option" where
  "vm_coverage_terminal c t = map_option (\<lambda>c. if t \<le> 3 then c\<lparr>terminal := t\<rparr> else c) c"

definition vm_coverage_raw_size :: "VMCoverage option \<Rightarrow> nat \<Rightarrow> nat \<Rightarrow> nat option" where
  "vm_coverage_raw_size c artifact_size inventory_size =
     (case c of
        None \<Rightarrow> None
      | Some c \<Rightarrow>
          if artifact_size > VM_COVERAGE_MAX_IDENTITY \<or> inventory_size > VM_COVERAGE_MAX_INVENTORY then None
          else
            let size = 29 + artifact_size + inventory_size + length (functions (cprogram c)) * 12 + ccount c * 32 in
            if size > VM_COVERAGE_MAX_RAW then None else Some size)"

section \<open>Output\<close>

record File =
  written :: "byte list"
  accepts :: nat
  ferror :: bool

definition fwrite :: "File \<Rightarrow> byte list \<Rightarrow> File \<times> nat" where
  "fwrite f bs =
     (let n = min (length bs) (accepts f) in
      (f\<lparr>written := written f @ take n bs, accepts := accepts f - n, ferror := ferror f \<or> n < length bs\<rparr>, n))"

fun number_bytes :: "nat \<Rightarrow> nat \<Rightarrow> byte list" where
  "number_bytes 0 v = []"
| "number_bytes (Suc width) v = number_bytes width (drop_bit 8 v) @ [of_nat (v AND 255)]"

text \<open>The writing steps are chained with \<open>&&\<close> and \<open>||\<close>: each runs when the one before succeeded.\<close>

definition put :: "byte list \<Rightarrow> File \<times> bool \<Rightarrow> File \<times> bool" where
  "put bs s = (if snd s then let (f, n) = fwrite (fst s) bs in (f, n = length bs) else s)"

definition write_number :: "nat \<Rightarrow> nat \<Rightarrow> File \<times> bool \<Rightarrow> File \<times> bool" where
  "write_number v width s = put (number_bytes width v) s"

definition write_cell :: "VMCoverage \<Rightarrow> nat \<Rightarrow> nat \<Rightarrow> File \<times> bool \<Rightarrow> File \<times> bool" where
  "write_cell c i pc s =
     (let cell = cells c ! the (vm_coverage_cell c i pc) in
      write_number (branched cell) 8 (write_number (fallthrough cell) 8
        (write_number (completed cell) 8 (write_number (attempted cell) 8 s))))"

definition write_function :: "VMCoverage \<Rightarrow> nat \<Rightarrow> File \<times> bool \<Rightarrow> File \<times> bool" where
  "write_function c i s =
     (let n = length (ins (functions (cprogram c) ! i)) in
      fold (write_cell c i) [0..<n] (write_number n 4 (write_number (entries c ! i) 8 s)))"

definition coverage_magic :: "byte list" where
  "coverage_magic = bytes_of ''PANACKCOV1'' @ [10]"

definition vm_coverage_write :: "VMCoverage option \<Rightarrow> File \<Rightarrow> byte list \<Rightarrow> byte list \<Rightarrow> File \<times> bool" where
  "vm_coverage_write cov out artifact inventory =
     (case (cov, vm_coverage_raw_size cov (length artifact) (length inventory)) of
        (Some c, Some _) \<Rightarrow>
          let count = length (functions (cprogram c));
              s = put coverage_magic (out, True);
              s = put artifact (write_number (length artifact) 4 s);
              s = put inventory (write_number (length inventory) 4 s);
              s = fold (write_function c) [0..<count] (write_number count 4 s);
              s = put (bytes_of ''END'' @ [10]) s;
              s = write_number (flags c) 1 (write_number (terminal c) 1 s) in
          (fst s, snd s \<and> \<not> ferror (fst s))
      | _ \<Rightarrow> (out, False))"

section \<open>Counters as a map\<close>

text \<open>The counters of a collector, by what they count, and the counters one event bumps.\<close>

datatype Counter =
    Entered nat
  | Attempted nat nat
  | Completed nat nat
  | Fell nat nat
  | Branched nat nat

definition in_code :: "Program \<Rightarrow> nat \<Rightarrow> nat \<Rightarrow> bool" where
  "in_code p f pc \<longleftrightarrow> f < length (functions p) \<and> pc < length (ins (functions p ! f))"

fun has_counter :: "Program \<Rightarrow> Counter \<Rightarrow> bool" where
  "has_counter p (Entered f) = (f < length (functions p))"
| "has_counter p (Attempted f pc) = in_code p f pc"
| "has_counter p (Completed f pc) = in_code p f pc"
| "has_counter p (Fell f pc) = in_code p f pc"
| "has_counter p (Branched f pc) = in_code p f pc"

fun counter :: "VMCoverage \<Rightarrow> Counter \<Rightarrow> nat" where
  "counter c (Entered f) = entries c ! f"
| "counter c (Attempted f pc) = attempted (cells c ! (offsets c ! f + pc))"
| "counter c (Completed f pc) = completed (cells c ! (offsets c ! f + pc))"
| "counter c (Fell f pc) = fallthrough (cells c ! (offsets c ! f + pc))"
| "counter c (Branched f pc) = branched (cells c ! (offsets c ! f + pc))"

fun set_counter :: "VMCoverage \<Rightarrow> Counter \<Rightarrow> nat \<Rightarrow> VMCoverage" where
  "set_counter c (Entered f) v = c\<lparr>entries := (entries c)[f := v]\<rparr>"
| "set_counter c (Attempted f pc) v =
     (let k = offsets c ! f + pc in c\<lparr>cells := (cells c)[k := (cells c ! k)\<lparr>attempted := v\<rparr>]\<rparr>)"
| "set_counter c (Completed f pc) v =
     (let k = offsets c ! f + pc in c\<lparr>cells := (cells c)[k := (cells c ! k)\<lparr>completed := v\<rparr>]\<rparr>)"
| "set_counter c (Fell f pc) v =
     (let k = offsets c ! f + pc in c\<lparr>cells := (cells c)[k := (cells c ! k)\<lparr>fallthrough := v\<rparr>]\<rparr>)"
| "set_counter c (Branched f pc) v =
     (let k = offsets c ! f + pc in c\<lparr>cells := (cells c)[k := (cells c ! k)\<lparr>branched := v\<rparr>]\<rparr>)"

definition bump :: "VMCoverage \<Rightarrow> Counter \<Rightarrow> VMCoverage" where
  "bump c k = (let (c', v) = increment c (counter c k) in set_counter c' k v)"

datatype Event = Enter nat | Attempt nat nat | Finish nat nat bool

fun observe :: "VMCoverage \<Rightarrow> Event \<Rightarrow> VMCoverage" where
  "observe c (Enter f) = vm_coverage_enter c f"
| "observe c (Attempt f pc) = vm_coverage_attempt c f pc"
| "observe c (Finish f pc b) = vm_coverage_finish c f pc b"

fun bumps :: "Program \<Rightarrow> Event \<Rightarrow> Counter list" where
  "bumps p (Enter f) = (if f < length (functions p) then [Entered f] else [])"
| "bumps p (Attempt f pc) = (if in_code p f pc then [Attempted f pc] else [])"
| "bumps p (Finish f pc b) =
     (if in_code p f pc then
        Completed f pc # (if branching (ins (functions p ! f) ! pc) then [if b then Branched f pc else Fell f pc] else [])
      else [])"

fun gap_event :: "Program \<Rightarrow> Event \<Rightarrow> bool" where
  "gap_event p (Enter f) = False"
| "gap_event p (Attempt f pc) = (\<not> in_code p f pc)"
| "gap_event p (Finish f pc b) = (\<not> in_code p f pc)"

text \<open>The layout invariant: every instruction of every function has a cell of its own.\<close>

definition laid_out :: "VMCoverage \<Rightarrow> bool" where
  "laid_out c \<longleftrightarrow> (let fs = functions (cprogram c) in
     offsets c = fill_offsets 0 fs \<and> length (entries c) = length fs \<and>
     length (cells c) = sum_list (map (length \<circ> ins) fs) \<and> ccount c = length (cells c))"

lemma nth_fill_offsets:
  "i < length fs \<Longrightarrow> fill_offsets k fs ! i = k + sum_list (map (length \<circ> ins) (take i fs))"
proof (induction fs arbitrary: i k)
  case (Cons f fs)
  then show ?case by (cases i) auto
qed simp

lemma cell_start:
  "in_code p f pc \<Longrightarrow> g < length (functions p) \<Longrightarrow> f < g \<Longrightarrow>
     fill_offsets 0 (functions p) ! f + pc < fill_offsets 0 (functions p) ! g"
proof -
  assume a: "in_code p f pc" "g < length (functions p)" "f < g"
  let ?n = "\<lambda>i. sum_list (map (length \<circ> ins) (take i (functions p)))"
  have "take g (functions p) = take (Suc f) (functions p) @ drop (Suc f) (take g (functions p))"
    using a(3) by (metis Suc_leI append_take_drop_id min.absorb1 take_take)
  then have "?n (Suc f) \<le> ?n g" by (metis le_add1 map_append sum_list_append)
  moreover have "?n (Suc f) = ?n f + length (ins (functions p ! f))"
    using a by (simp add: in_code_def take_Suc_conv_app_nth)
  ultimately show ?thesis using a by (simp add: nth_fill_offsets in_code_def)
qed

lemma cell_distinct:
  assumes "in_code p f pc" and "in_code p g qc"
  shows "fill_offsets 0 (functions p) ! f + pc = fill_offsets 0 (functions p) ! g + qc \<longleftrightarrow> f = g \<and> pc = qc"
  using cell_start [OF assms(1), of g] cell_start [OF assms(2), of f] assms
  by (cases f g rule: linorder_cases) (auto simp: in_code_def)

lemma cell_bound:
  assumes "in_code p f pc"
  shows "fill_offsets 0 (functions p) ! f + pc < sum_list (map (length \<circ> ins) (functions p))"
proof -
  from assms have "functions p = take f (functions p) @ functions p ! f # drop (Suc f) (functions p)"
    by (simp add: in_code_def id_take_nth_drop)
  then have "sum_list (map (length \<circ> ins) (functions p)) =
      sum_list (map (length \<circ> ins) (take f (functions p))) + length (ins (functions p ! f)) +
      sum_list (map (length \<circ> ins) (drop (Suc f) (functions p)))"
    by (metis (no_types, lifting) add.assoc comp_apply list.simps(9) map_append sum_list.Cons sum_list_append)
  with assms show ?thesis by (simp add: in_code_def nth_fill_offsets)
qed

text \<open>Bumping is an update of the map at one counter.\<close>

lemma counter_set:
  assumes "laid_out c" and "has_counter (cprogram c) k" and "has_counter (cprogram c) j"
  shows "counter (set_counter c k v) j = (if j = k then v else counter c j)"
  using assms cell_bound cell_distinct
  by (cases k; cases j) (auto simp: laid_out_def Let_def nth_list_update)

lemma set_counter_frame [simp]:
  "cprogram (set_counter c k v) = cprogram c" "ceiling (set_counter c k v) = ceiling c"
  "flags (set_counter c k v) = flags c" "laid_out (set_counter c k v) = laid_out c"
  by (cases k; simp add: laid_out_def Let_def)+

lemma increment_frame:
  "increment c v = (c', w) \<Longrightarrow> cprogram c' = cprogram c \<and> ceiling c' = ceiling c \<and> laid_out c' = laid_out c \<and>
     counter c' j = counter c j"
  by (cases j) (auto simp: increment_def laid_out_def split: if_splits)

lemma vm_coverage_cell_eq:
  "vm_coverage_cell c f pc = (if in_code (cprogram c) f pc then Some (offsets c ! f + pc) else None)"
  by (auto simp: vm_coverage_cell_def in_code_def)

lemma observe_bumps:
  "observe c e = (if gap_event (cprogram c) e then vm_coverage_gap c else fold (\<lambda>k c. bump c k) (bumps (cprogram c) e) c)"
proof -
  have frame: "cprogram (fst (increment c v)) = cprogram c" "offsets (fst (increment c v)) = offsets c" for c v
    by (simp_all add: increment_def)
  show ?thesis
    by (cases e) (simp_all add: vm_coverage_enter_def vm_coverage_attempt_def vm_coverage_finish_def
        vm_coverage_cell_eq bump_def Let_def case_prod_beta frame)
qed

text \<open>A collector agrees with true counts: each counter is the count capped, and the flag tells of a cap.\<close>

definition agrees :: "VMCoverage \<Rightarrow> (Counter \<Rightarrow> nat) \<Rightarrow> bool" where
  "agrees c n \<longleftrightarrow> laid_out c \<and> ceiling c < 2 ^ 64 \<and>
     (\<forall>k. has_counter (cprogram c) k \<longrightarrow> counter c k = min (ceiling c) (n k)) \<and>
     (bit (flags c) 1 \<longleftrightarrow> (\<exists>k. ceiling c < n k))"

lemma flag_bits:
  "bit (x OR 2) 1" "bit (x OR 2) 0 = bit x 0" "bit (x OR 1) 0" "bit (x OR 1) 1 = bit x 1"
  "bit (x OR 2) (Suc 0)" "bit (x OR Suc 0) 0" "bit (x OR Suc 0) (Suc 0) = bit x (Suc 0)" for x :: nat
  by (simp_all add: bit_simps bit_numeral_rec)

lemma agrees_bump:
  assumes "agrees c n" and "has_counter (cprogram c) k"
  shows "agrees (bump c k) (n(k := Suc (n k)))" and "bit (flags (bump c k)) 0 = bit (flags c) 0"
    and "cprogram (bump c k) = cprogram c"
proof -
  have k: "counter c k = min (ceiling c) (n k)" using assms by (simp add: agrees_def)
  obtain d v where inc: "increment c (counter c k) = (d, v)" by fastforce
  note frame = increment_frame [OF inc]
  have v: "v = min (ceiling c) (Suc (n k))" and b1: "bit (flags d) 1 \<longleftrightarrow> bit (flags c) 1 \<or> ceiling c \<le> n k"
    and b0: "bit (flags d) 0 = bit (flags c) 0"
    using inc k assms(1) by (auto simp: increment_def flag_bits agrees_def u64_id split: if_splits)
  have d: "laid_out d" "cprogram d = cprogram c" "ceiling d = ceiling c"
    using assms(1) frame by (simp_all add: agrees_def)
  have "counter (set_counter d k v) j = min (ceiling c) ((n(k := Suc (n k))) j)" if "has_counter (cprogram c) j" for j
    using counter_set [of d k j v] d assms that frame v by (auto simp: agrees_def)
  moreover have "bit (flags c) 1 \<or> ceiling c \<le> n k \<longleftrightarrow> (\<exists>j. ceiling c < (n(k := Suc (n k))) j)"
    using assms(1) by (auto simp: agrees_def less_Suc_eq_le) (metis le_less)
  ultimately show "agrees (bump c k) (n(k := Suc (n k)))"
    using assms(1) d b1 by (simp add: agrees_def bump_def inc)
  show "bit (flags (bump c k)) 0 = bit (flags c) 0" "cprogram (bump c k) = cprogram c"
    using b0 d by (simp_all add: bump_def inc)
qed

lemma agrees_fold:
  "agrees c n \<Longrightarrow> list_all (has_counter (cprogram c)) ks \<Longrightarrow>
     let d = fold (\<lambda>k c. bump c k) ks c in
     agrees d (\<lambda>k. n k + count_list ks k) \<and> bit (flags d) 0 = bit (flags c) 0 \<and> cprogram d = cprogram c"
proof (induction ks arbitrary: c n)
  case (Cons k ks)
  then have k: "has_counter (cprogram c) k" by simp
  note step = agrees_bump [OF Cons.prems(1) k]
  have "(\<lambda>j. (n(k := Suc (n k))) j + count_list ks j) = (\<lambda>j. n j + count_list (k # ks) j)" by auto
  with Cons.IH [OF step(1)] Cons.prems(2) step(2,3) show ?case by (simp add: Let_def)
qed simp

lemma bumps_counters: "list_all (has_counter p) (bumps p e)"
  by (cases e) simp_all

lemma observe_ceiling: "ceiling (observe c e) = ceiling c"
proof -
  have "ceiling (fold (\<lambda>k c. bump c k) ks c) = ceiling c" for ks
    by (induction ks arbitrary: c) (auto simp: bump_def increment_def)
  then show ?thesis by (simp add: observe_bumps vm_coverage_gap_def)
qed

lemma agrees_gap: "agrees c n \<Longrightarrow> agrees (vm_coverage_gap c) n"
proof -
  have "counter (vm_coverage_gap c) k = counter c k" for k by (cases k) (simp_all add: vm_coverage_gap_def)
  then show "agrees c n \<Longrightarrow> agrees (vm_coverage_gap c) n"
    by (auto simp: agrees_def vm_coverage_gap_def laid_out_def flag_bits)
qed

lemma gap_bumps: "gap_event p e \<Longrightarrow> bumps p e = []"
  by (cases e) auto

lemma agrees_observe:
  "agrees c n \<Longrightarrow> let d = observe c e in
     agrees d (\<lambda>k. n k + count_list (bumps (cprogram c) e) k) \<and> cprogram d = cprogram c \<and>
     (bit (flags d) 0 \<longleftrightarrow> bit (flags c) 0 \<or> gap_event (cprogram c) e)"
proof (cases "gap_event (cprogram c) e")
  case True
  assume "agrees c n"
  with True agrees_gap show ?thesis
    by (simp add: observe_bumps gap_bumps) (simp add: vm_coverage_gap_def flag_bits)
next
  case False
  assume "agrees c n"
  from agrees_fold [OF this bumps_counters] False show ?thesis by (simp add: observe_bumps Let_def)
qed

lemma agrees_events:
  "agrees c n \<Longrightarrow> let d = fold (\<lambda>e c. observe c e) es c in
     agrees d (\<lambda>k. n k + count_list (concat (map (bumps (cprogram c)) es)) k) \<and> cprogram d = cprogram c \<and>
     (bit (flags d) 0 \<longleftrightarrow> bit (flags c) 0 \<or> list_ex (gap_event (cprogram c)) es)"
proof (induction es arbitrary: c n)
  case (Cons e es)
  note step = agrees_observe [OF Cons.prems, of e, unfolded Let_def]
  from Cons.IH [OF step [THEN conjunct1]] step show ?case by (simp add: Let_def count_list_append add.assoc)
qed simp

lemma count_cells_Some: "count_cells l k fs = Some n \<Longrightarrow> n = k + sum_list (map (length \<circ> ins) fs)"
proof (induction fs arbitrary: k)
  case (Cons f fs)
  show ?case using Cons.IH [of "k + length (ins f)"] Cons.prems by (auto split: if_splits)
qed simp

lemma create_agrees:
  assumes "vm_coverage_create h (Some p) a limit ceil = Some c" and "ceil < 2 ^ 64"
  shows "agrees c (\<lambda>k. 0)" and "cprogram c = p" and "flags c = 0" and "ceiling c = ceil" and "laid_out c"
proof -
  from assms(1) obtain count where n: "count_cells limit 0 (functions p) = Some count"
    by (auto simp: vm_coverage_create_def split: option.splits if_splits)
  from assms(1) n have c: "cprogram c = p" "cells c = replicate count zero_cell" "ccount c = count"
      "offsets c = fill_offsets 0 (functions p)" "entries c = replicate (length (functions p)) 0" "flags c = 0"
      "ceiling c = ceil"
    by (auto simp: vm_coverage_create_def Let_def split: if_splits)
  then show lay: "laid_out c" using count_cells_Some [OF n] by (simp add: laid_out_def Let_def)
  have "counter c k = 0" if "has_counter p k" for k
    using that cell_bound count_cells_Some [OF n] by (cases k) (auto simp: c zero_cell_def in_code_def)
  with lay c assms(2) show "agrees c (\<lambda>k. 0)" by (simp add: agrees_def)
  show "cprogram c = p" "flags c = 0" "ceiling c = ceil" using c by simp_all
qed

section \<open>Properties\<close>

text \<open>
  C25. After any sequence of observations each counter holds how often its event happened, capped at the
  ceiling; counters of different functions or instructions never share storage and none wraps. The
  overflow flag tells exactly that some count passed the ceiling, the gap flag that some observation
  was outside the program.
\<close>

theorem coverage_counts_exact:
  assumes "vm_coverage_create h (Some p) a limit ceil = Some c" and "ceil < 2 ^ 64"
    and "d = fold (\<lambda>e c. observe c e) es c"
  shows "(\<forall>k. has_counter p k \<longrightarrow> counter d k = min ceil (count_list (concat (map (bumps p) es)) k)) \<and>
    (bit (flags d) 1 \<longleftrightarrow> (\<exists>k. ceil < count_list (concat (map (bumps p) es)) k)) \<and>
    (bit (flags d) 0 \<longleftrightarrow> (\<exists>e \<in> set es. gap_event p e))"
proof -
  note start = create_agrees [OF assms(1,2)]
  have "ceiling d = ceil" unfolding assms(3) start(4) [symmetric]
    by (induction es arbitrary: c) (simp_all add: observe_ceiling)
  with agrees_events [OF start(1), of es] start show ?thesis
    by (auto simp: assms(3) agrees_def Let_def list_ex_iff)
qed

theorem coverage_counts_exact_witness:
  "\<exists>c. vm_coverage_create (\<lambda>_. True) (Some \<lparr>functions = [sample_function ''main'' [OP_RETURN]], verified_function_order = False\<rparr>)
       0 8 1 = Some c \<and> counter (observe (observe c (Attempt 0 0)) (Attempt 0 0)) (Attempted 0 0) = 1"
proof -
  let ?p = "\<lparr>functions = [sample_function ''main'' [OP_RETURN]], verified_function_order = False\<rparr>"
  obtain c where c: "vm_coverage_create (\<lambda>_. True) (Some ?p) 0 8 1 = Some c"
    by (simp add: vm_coverage_create_def VM_COVERAGE_MAX_CELLS_def sample_function_def Let_def)
  from coverage_counts_exact [OF c _ refl, of "[Attempt 0 0, Attempt 0 0]", THEN conjunct1, rule_format, of "Attempted 0 0"]
  have "counter (observe (observe c (Attempt 0 0)) (Attempt 0 0)) (Attempted 0 0) = 1"
    by (simp add: in_code_def sample_function_def)
  with c show ?thesis by blast
qed

text \<open>The layout of the raw record.\<close>

definition cell_record :: "VMCoverageCell \<Rightarrow> byte list" where
  "cell_record cell = number_bytes 8 (attempted cell) @ number_bytes 8 (completed cell) @
     number_bytes 8 (fallthrough cell) @ number_bytes 8 (branched cell)"

definition function_record :: "VMCoverage \<Rightarrow> nat \<Rightarrow> byte list" where
  "function_record c i = (let n = length (ins (functions (cprogram c) ! i)) in
     number_bytes 8 (entries c ! i) @ number_bytes 4 n @
     concat (map (\<lambda>pc. cell_record (cells c ! (offsets c ! i + pc))) [0..<n]))"

definition coverage_record :: "VMCoverage \<Rightarrow> byte list \<Rightarrow> byte list \<Rightarrow> byte list" where
  "coverage_record c artifact inventory =
     coverage_magic @ number_bytes 4 (length artifact) @ artifact @ number_bytes 4 (length inventory) @ inventory @
     number_bytes 4 (length (functions (cprogram c))) @
     concat (map (function_record c) [0..<length (functions (cprogram c))]) @
     bytes_of ''END'' @ [10] @ number_bytes 1 (terminal c) @ number_bytes 1 (flags c)"

lemma length_number_bytes [simp]: "length (number_bytes n v) = n"
  by (induction n arbitrary: v) auto

text \<open>Writing in steps is writing the concatenation, as far as the stream takes it.\<close>

definition stream :: "File \<Rightarrow> byte list \<Rightarrow> File \<times> bool" where
  "stream f bs = put bs (f, True)"

lemma put_stream: "put cs (stream f bs) = stream f (bs @ cs)"
  by (auto simp: stream_def put_def fwrite_def Let_def min_def split: if_splits)

lemma put_Nil: "(f, True) = stream f []"
  by (simp add: stream_def put_def fwrite_def)

lemma write_cell_stream:
  assumes "in_code (cprogram c) i pc"
  shows "write_cell c i pc (stream f bs) = stream f (bs @ cell_record (cells c ! (offsets c ! i + pc)))"
  using assms by (simp add: write_cell_def write_number_def put_stream vm_coverage_cell_eq cell_record_def Let_def)

lemma fold_stream:
  assumes "\<And>x bs. x \<in> set xs \<Longrightarrow> g x (stream f bs) = stream f (bs @ r x)"
  shows "fold g xs (stream f bs) = stream f (bs @ concat (map r xs))"
  using assms by (induction xs arbitrary: bs) simp_all

lemma write_function_stream:
  assumes "i < length (functions (cprogram c))"
  shows "write_function c i (stream f bs) = stream f (bs @ function_record c i)"
proof -
  let ?n = "length (ins (functions (cprogram c) ! i))"
  have "fold (write_cell c i) [0..<?n] (stream f cs) =
      stream f (cs @ concat (map (\<lambda>pc. cell_record (cells c ! (offsets c ! i + pc))) [0..<?n]))" for cs
    by (rule fold_stream) (use assms in \<open>simp add: write_cell_stream in_code_def\<close>)
  then show ?thesis by (simp add: write_function_def write_number_def put_stream function_record_def Let_def)
qed

lemma length_function_record: "length (function_record c i) = 12 + 32 * length (ins (functions (cprogram c) ! i))"
proof -
  have "length (concat (map (\<lambda>pc. cell_record (cells c ! (offsets c ! i + pc))) [0..<n])) = 32 * n" for n
    by (induction n) (simp_all add: cell_record_def)
  then show ?thesis by (simp add: function_record_def Let_def)
qed

lemma length_coverage_record:
  assumes "laid_out c"
  shows "length (coverage_record c artifact inventory) =
    29 + length artifact + length inventory + length (functions (cprogram c)) * 12 + ccount c * 32"
proof -
  let ?fs = "functions (cprogram c)"
  have "length (concat (map (function_record c) [0..<n])) = n * 12 + 32 * sum_list (map (length \<circ> ins) (take n ?fs))"
    if "n \<le> length ?fs" for n
    using that by (induction n) (simp_all add: length_function_record take_Suc_conv_app_nth)
  from this [of "length ?fs"] assms show ?thesis
    by (simp add: coverage_record_def coverage_magic_def laid_out_def Let_def)
qed

lemma write_stream:
  assumes "vm_coverage_raw_size (Some c) (length artifact) (length inventory) = Some n"
  shows "vm_coverage_write (Some c) out artifact inventory =
    (let s = stream out (coverage_record c artifact inventory) in (fst s, snd s \<and> \<not> ferror (fst s)))"
proof -
  have "fold (write_function c) [0..<length (functions (cprogram c))] (stream out bs) =
      stream out (bs @ concat (map (function_record c) [0..<length (functions (cprogram c))]))" for bs
    by (rule fold_stream) (simp add: write_function_stream)
  then show ?thesis using assms
    by (simp add: vm_coverage_write_def write_number_def put_stream put_Nil coverage_record_def Let_def)
qed

text \<open>
  The size computed before a run is the size of the record written after it: the record goes out
  whole, byte for byte as laid out, exactly when the stream takes that many bytes and had no error.
\<close>

lemma coverage_write_exact:
  assumes "laid_out c" and "vm_coverage_raw_size (Some c) (length artifact) (length inventory) = Some n"
  shows "length (coverage_record c artifact inventory) = n \<and>
    (snd (vm_coverage_write (Some c) out artifact inventory) \<longleftrightarrow> n \<le> accepts out \<and> \<not> ferror out) \<and>
    (n \<le> accepts out \<longrightarrow> written (fst (vm_coverage_write (Some c) out artifact inventory)) =
       written out @ coverage_record c artifact inventory)"
proof -
  have n: "length (coverage_record c artifact inventory) = n"
    using assms by (auto simp: length_coverage_record vm_coverage_raw_size_def Let_def split: if_splits)
  then show ?thesis unfolding write_stream [OF assms(2)] by (auto simp: stream_def put_def fwrite_def Let_def)
qed

end
