(* ===== verification/Machine.thy ===== *)
theory Machine
  imports Render Verify Coverage
begin

text \<open>
  The state of the virtual machine and its primitive operations, \<open>src/vm/vm.h\<close> and the first part of
  \<open>src/vm/execute.c\<close>: operand stacks, locals, frames, constants, and their coverage marks.

  \<^item> The execution record extends the record of the virtual machine it runs on, so that
    \<open>execution->vm->error\<close> is the field \<open>error\<close>. The frame array and each operand stack are lists with
    the top first. A \<open>Function *\<close> is the index of the function in the program.
  \<^item> An iterator is mutable and shared by reference, so its state is in \<open>iterators\<close> under the address
    its value carries; \<open>fresh\<close> is the next address the allocator hands out.
  \<^item> \<open>world\<close> is everything outside the machine. The services that reach it (sockets, files, the console,
    the HTTP runtime, embedder callbacks) are functions of the record \<open>Native\<close>, and so is the allocator,
    whose answers may differ at every tick of \<open>clock\<close>, one tick per dispatched instruction.
\<close>

section \<open>The outside of the machine\<close>

text \<open>Calls that start a native operation and return its handle.\<close>

datatype Opening =
    Console_Write_Start Value bool
  | Root_Read_Start "Value list" bool
  | Tcp_Exchange_Start "Value list"
  | Http_Transport_Start "Value list"
  | Tcp_Server_Start "nat option" Value nat "nat list" bool
  | Tcp_Server_Start_Stream "nat option" Value Value nat "nat list" bool
  | Tcp_Server_Start_Service "nat option" Value Value nat "nat list" bool

text \<open>Calls made for their effect, with the truth value they return.\<close>

datatype Action =
    Tcp_Server_Http_Continue Value
  | Read_Wait Value
  | Print_Wait Value
  | Http_Request_Close Value bool
  | Server_Enable_Filesystem nat
  | Server_Enable_Console nat
  | Server_Set_Ready_Handler nat nat Value bool
  | Install_Stop_Signals
  | Install_Runtime_Stop_Signals
  | Restore_Stop_Signals
  | Tcp_Exchange_Poll nat nat
  | Http_Transport_Poll nat nat
  | Console_Write_Poll nat
  | Root_Read_Poll nat
  | Tcp_Server_Poll nat nat
  | Tcp_Server_Advance nat nat
  | Tcp_Server_Stop nat
  | Tcp_Exchange_Destroy nat
  | Http_Transport_Destroy nat
  | Console_Write_Destroy nat
  | Root_Read_Destroy nat
  | Tcp_Server_Destroy nat
  | Console_Write_Wait nat
  | Root_Read_Wait nat
  | Resources_Destroy
  | Http_Runtime_Create
  | Http_Runtime_Request_Exit
  | Http_Runtime_Stop
  | Http_Runtime_Pump nat nat
  | Http_Runtime_Destroy

text \<open>Questions and results that change nothing.\<close>

datatype Question =
    Http_Runtime_Present
  | Http_Runtime_Active
  | Http_Runtime_Exit_Requested
  | Http_Runtime_Owns_Signals
  | Http_State_Present nat
  | Http_State_Resource nat
  | Tcp_Server_Done nat
  | Service_Stop_Requested

datatype Answer =
    Tcp_Exchange_Result nat
  | Http_Transport_Result nat
  | Console_Write_Result nat
  | Root_Read_Result nat
  | Tcp_Server_Result nat

datatype Failure = Root_Read_Error nat | Tcp_Server_Error nat | Http_Runtime_Error

record 'w Native =
  memory :: "nat \<Rightarrow> heap"
  starting :: "Opening \<Rightarrow> 'w \<Rightarrow> 'w \<times> nat option \<times> string option"
  performing :: "Action \<Rightarrow> 'w \<Rightarrow> 'w \<times> bool \<times> string option"
  asking :: "Question \<Rightarrow> 'w \<Rightarrow> bool"
  answering :: "Answer \<Rightarrow> 'w \<Rightarrow> Value option"
  failing :: "Failure \<Rightarrow> 'w \<Rightarrow> string option"
  http_runtime_exit_status :: "'w \<Rightarrow> nat"
  handling :: "Handler \<Rightarrow> string \<Rightarrow> Value list \<Rightarrow> 'w \<Rightarrow> 'w \<times> Value outcome"
  host_calling :: "string \<Rightarrow> Value list \<Rightarrow> 'w \<Rightarrow> 'w \<times> Value outcome"
  listening :: "Value \<Rightarrow> nat \<Rightarrow> bool \<Rightarrow> bool \<Rightarrow> bool \<Rightarrow> bool \<Rightarrow> 'w \<Rightarrow> 'w \<times> Value outcome"
  connecting :: "Value list \<Rightarrow> 'w \<Rightarrow> 'w \<times> (nat \<times> Value option list) option \<times> string option"

section \<open>State\<close>

record Iterator =
  iterable :: Value
  cursor :: PnBigInt
  iindex :: nat

record Local =
  lname :: string
  lvalue :: Value

record Frame =
  code :: nat
  coverage_function :: nat
  coverage_pending_pc :: nat
  coverage_pending :: bool
  pc :: nat
  stack :: "Value list"
  stack_capacity :: nat
  locals :: "Local list"
  local_capacity :: nat

datatype VMExecutionStatus = VM_YIELDED | VM_COMPLETED | VM_TRAPPED | VM_EXITED | VM_BUSY | VM_WAITING

record 'w VM =
  program :: Program
  program_address :: nat
  error :: "string option"
  fault_kind :: VMFaultKind
  execution :: bool
  coverage_run :: bool
  coverage :: "VMCoverage option"
  iterators :: "nat \<Rightarrow> Iterator option"
  fresh :: nat
  clock :: nat
  world :: 'w

record 'w VMExecution = "'w VM" +
  frames :: "Frame list"
  frame_capacity :: nat
  status :: VMExecutionStatus
  result :: "Value option"
  exit_status :: nat
  running :: bool
  embedded :: bool
  host_call :: bool
  print_wait :: bool
  read_wait :: bool
  waiting_read :: bool
  fake_fail :: bool
  network_enabled :: bool
  server_read_enabled :: bool
  tcp :: "nat option"
  http :: "nat option"
  server :: "nat option"
  root_read :: "nat option"
  console_write :: "nat option"
  console_enabled :: bool
  yield_requested :: bool
  http_waiting :: "Value option"
  owns_stop_signals :: bool
  filesystem_enabled :: bool
  server_enabled :: bool
  runtime_owner :: bool

abbreviation out_of_memory :: string where
  "out_of_memory \<equiv> ''native VM out of memory''"

definition heap_of :: "'w Native \<Rightarrow> ('w, 'm) VM_scheme \<Rightarrow> heap" where
  "heap_of E m = memory E (clock m)"

section \<open>Stacks and locals\<close>

definition stack_push :: "heap \<Rightarrow> Frame \<Rightarrow> Value \<Rightarrow> Frame option" where
  "stack_push h frame v =
     (if length (stack frame) = stack_capacity frame then
        let cap = (if stack_capacity frame \<noteq> 0 then u64 (stack_capacity frame * 2) else 16) in
        if \<not> h (Slots cap) then None
        else Some (frame\<lparr>stack := v # stack frame, stack_capacity := cap\<rparr>)
      else Some (frame\<lparr>stack := v # stack frame\<rparr>))"

definition top_frame :: "'w VMExecution \<Rightarrow> Frame" where
  "top_frame m = hd (frames m)"

definition set_top :: "Frame \<Rightarrow> 'w VMExecution \<Rightarrow> 'w VMExecution" where
  "set_top frame m = m\<lparr>frames := frame # tl (frames m)\<rparr>"

text \<open>Popping from an empty stack records a trap and returns NULL.\<close>

definition stack_pop :: "'w VMExecution \<Rightarrow> 'w VMExecution \<times> Value option" where
  "stack_pop m =
     (case stack (top_frame m) of
        [] \<Rightarrow> (m\<lparr>error := Some ''VM trap: operand stack underflow''\<rparr>, None)
      | v # vs \<Rightarrow> (set_top ((top_frame m)\<lparr>stack := vs\<rparr>) m, Some v))"

definition local_get :: "Frame \<Rightarrow> string \<Rightarrow> Value option" where
  "local_get frame name = map_option lvalue (find (\<lambda>l. streq (lname l) name) (rev (locals frame)))"

fun replace_local :: "Local list \<Rightarrow> string \<Rightarrow> Value \<Rightarrow> Local list option" where
  "replace_local [] name v = None"
| "replace_local (l # ls) name v =
     (if streq (lname l) name then Some (l\<lparr>lvalue := v\<rparr> # ls)
      else map_option ((#) l) (replace_local ls name v))"

definition local_put :: "heap \<Rightarrow> Frame \<Rightarrow> string \<Rightarrow> Value \<Rightarrow> Frame option" where
  "local_put h frame name v =
     (case replace_local (locals frame) name v of
        Some ls \<Rightarrow> Some (frame\<lparr>locals := ls\<rparr>)
      | None \<Rightarrow>
          let full = (length (locals frame) = local_capacity frame);
              cap = (if \<not> full then local_capacity frame
                     else if local_capacity frame \<noteq> 0 then u64 (local_capacity frame * 2) else 16) in
          if full \<and> \<not> h (Chars (u64 (cap * 16))) then None
          else case copy_text h name of
            None \<Rightarrow> None
          | Some name \<Rightarrow>
              Some (frame\<lparr>locals := locals frame @ [\<lparr>lname = name, lvalue = v\<rparr>], local_capacity := cap\<rparr>))"

section \<open>Constants\<close>

definition constant_value :: "heap \<Rightarrow> Constant \<Rightarrow> Value option" where
  "constant_value h c =
     (case c of
        K_NAT n \<Rightarrow> value_big h VNat n
      | K_INT n \<Rightarrow> value_big h VInt n
      | K_DEC negative n e \<Rightarrow>
          (case pn_big_copy h n of
             None \<Rightarrow> None
           | Some n \<Rightarrow> map_option (\<lambda>v.
               if negative \<and> pn_big_is_zero (coefficient (as_decimal v))
               then VDec ((as_decimal v)\<lparr>negative_zero := True\<rparr>) else v) (value_decimal h n e))
      | K_STR s \<Rightarrow> value_data h V_STR (bytes_of s)
      | K_BOOL b \<Rightarrow> value_bool h b
      | K_VOID \<Rightarrow> value_void h)"

section \<open>Frames\<close>

text \<open>
  An argument array may be NULL, and so may its elements. The array a caller passes is as long as the
  parameter list; a shorter list is treated as one that ends in NULL.
\<close>

type_synonym arguments = "Value option list option"

fun install_params :: "heap \<Rightarrow> Frame \<Rightarrow> string list \<Rightarrow> Value option list \<Rightarrow> Frame \<times> string option" where
  "install_params h frame [] args = (frame, None)"
| "install_params h frame (p # ps) (Some v # args) =
     (case local_put h frame p v of
        None \<Rightarrow> (frame, Some out_of_memory)
      | Some frame \<Rightarrow> install_params h frame ps args)"
| "install_params h frame (p # ps) args = (frame, Some ''VM trap: invalid function argument'')"

definition new_frame :: "nat \<Rightarrow> Frame" where
  "new_frame function =
     \<lparr>code = function, coverage_function = 0, coverage_pending_pc = 0, coverage_pending = False, pc = 0,
      stack = [], stack_capacity = 0, locals = [], local_capacity = 0\<rparr>"

definition sizeof_Frame :: nat where "sizeof_Frame = 88"

text \<open>The capacity of the frame array with room for one more frame, unless memory is exhausted.\<close>

definition frame_room :: "'w Native \<Rightarrow> 'w VMExecution \<Rightarrow> nat option" where
  "frame_room E m =
     (if length (frames m) \<noteq> frame_capacity m then Some (frame_capacity m)
      else
        let capacity = (if frame_capacity m \<noteq> 0 then u64 (frame_capacity m * 2) else 8) in
        if capacity < frame_capacity m \<or> capacity > SIZE_MAX div sizeof_Frame then None
        else if \<not> heap_of E m (Chars (capacity * sizeof_Frame)) then None
        else Some capacity)"

definition frame_cover :: "nat \<Rightarrow> 'w VMExecution \<Rightarrow> 'w VMExecution" where
  "frame_cover i m =
     (case coverage m of
        None \<Rightarrow> m
      | Some c \<Rightarrow>
          let (k, c) = vm_coverage_function c (program_address m, i) in
          set_top ((top_frame m)\<lparr>coverage_function := k\<rparr>) (m\<lparr>coverage := Some (vm_coverage_enter c k)\<rparr>))"

definition frame_push ::
  "'w Native \<Rightarrow> 'w VMExecution \<Rightarrow> nat option \<Rightarrow> arguments \<Rightarrow> 'w VMExecution \<times> bool" where
  "frame_push E m function arguments =
     (let fail = (\<lambda>m message. (m\<lparr>error := Some message\<rparr>, False)) in
      case function of
        None \<Rightarrow> fail m ''VM trap: invalid function invocation''
      | Some i \<Rightarrow>
          let f = functions (program m) ! i in
          if params f \<noteq> [] \<and> arguments = None then fail m ''VM trap: invalid function invocation''
          else case frame_room E m of
            None \<Rightarrow> fail m out_of_memory
          | Some capacity \<Rightarrow>
              let (frame, problem) =
                    install_params (heap_of E m) (new_frame i) (params f) (case arguments of Some a \<Rightarrow> a | None \<Rightarrow> []);
                  m = m\<lparr>frames := frame # frames m, frame_capacity := capacity\<rparr> in
              (case problem of
                 Some message \<Rightarrow> fail m message
               | None \<Rightarrow> (frame_cover i m, True)))"

definition coverage_complete_pending :: "'w VMExecution \<Rightarrow> 'w VMExecution" where
  "coverage_complete_pending m =
     (case (coverage m, frames m) of
        (Some c, frame # fs) \<Rightarrow>
          if coverage_pending frame then
            m\<lparr>coverage := Some (vm_coverage_finish c (coverage_function frame) (coverage_pending_pc frame) False),
              frames := frame\<lparr>coverage_pending := False\<rparr> # fs\<rparr>
          else m
      | _ \<Rightarrow> m)"

definition frames_clear :: "'w VMExecution \<Rightarrow> 'w VMExecution" where
  "frames_clear m = m\<lparr>frames := []\<rparr>"

section \<open>Services of the world\<close>

text \<open>Each runs a native call on the world and records the diagnostic it leaves.\<close>

definition note_error :: "string option \<Rightarrow> 'w VMExecution \<Rightarrow> 'w VMExecution" where
  "note_error e m = (case e of None \<Rightarrow> m | Some _ \<Rightarrow> m\<lparr>error := e\<rparr>)"

definition native_open :: "'w Native \<Rightarrow> Opening \<Rightarrow> 'w VMExecution \<Rightarrow> 'w VMExecution \<times> nat option" where
  "native_open E a m = (case starting E a (world m) of (w, handle, e) \<Rightarrow> (note_error e (m\<lparr>world := w\<rparr>), handle))"

definition native_do :: "'w Native \<Rightarrow> Action \<Rightarrow> 'w VMExecution \<Rightarrow> 'w VMExecution \<times> bool" where
  "native_do E a m = (case performing E a (world m) of (w, b, e) \<Rightarrow> (note_error e (m\<lparr>world := w\<rparr>), b))"

text \<open>The result of a native handler: its value, or NULL with what it recorded.\<close>

definition absorb :: "'w VMExecution \<Rightarrow> Value outcome \<Rightarrow> 'w VMExecution \<times> Value option" where
  "absorb m r =
     (case r of
        Ret v \<Rightarrow> (m, Some v)
      | Trap message k \<Rightarrow>
          (m\<lparr>error := Some message, fault_kind := (if k = VM_FAULT_REQUEST then k else fault_kind m)\<rparr>, None)
      | NoMemory \<Rightarrow> (m, None))"

definition builtin_call :: "'w Native \<Rightarrow> 'w VMExecution \<Rightarrow> string \<Rightarrow> Value list \<Rightarrow> 'w VMExecution \<times> Value option" where
  "builtin_call E m name a =
     (case builtin name of
        None \<Rightarrow> absorb m (fatal ''VM trap: unknown builtin'')
      | Some entry \<Rightarrow>
          let h = heap_of E m in
          (case bcall entry of
             NUMERIC \<Rightarrow> absorb m (builtins_numeric_call h name a)
           | COLLECTIONS \<Rightarrow> absorb m (builtins_collections_call h name a)
           | TEXT \<Rightarrow> absorb m (builtins_text_call h name a)
           | ASYNC_SERVICE \<Rightarrow> absorb m async_service_only
           | handler \<Rightarrow>
               (case handling E handler name a (world m) of (w, r) \<Rightarrow> absorb (m\<lparr>world := w\<rparr>) r)))"

end
