(* ===== verification/Services.thy ===== *)
theory Services
  imports Machine
begin

text \<open>
  The builtins the executor intercepts, \<open>execution_builtin\<close> and its helpers in \<open>src/vm/execute.c\<close>:
  asynchronous services that register a wait, exits, and the capability checks of embedded executions.
  Each returns the machine with the value the call produced, NULL being \<open>None\<close>.
\<close>

section \<open>Handlers named by a string\<close>

text \<open>\<open>strlen\<close> and \<open>memcmp\<close> compare the whole name with the bytes of the string.\<close>

definition names_function :: "Function \<Rightarrow> byte list \<Rightarrow> bool" where
  "names_function f s \<longleftrightarrow> bytes_of (cstr (fname f)) = s"

definition candidates :: "Program \<Rightarrow> (Function \<Rightarrow> bool) \<Rightarrow> nat list" where
  "candidates p ok = filter (\<lambda>i. ok (functions p ! i)) [0..<length (functions p)]"

definition first_of :: "nat list \<Rightarrow> nat option" where
  "first_of is = (case is of [] \<Rightarrow> None | i # _ \<Rightarrow> Some i)"

definition execution_handler :: "Program \<Rightarrow> Value \<Rightarrow> nat option" where
  "execution_handler p callable =
     (if kind callable \<noteq> V_STR then None
      else first_of (candidates p (\<lambda>f. builtin (fname f) = None \<and> names_function f (as_bytes callable))))"

definition http_worker_function :: "Program \<Rightarrow> Value \<Rightarrow> nat option" where
  "http_worker_function p name =
     (if kind name \<noteq> V_STR then None
      else first_of (candidates p (\<lambda>f. names_function f (as_bytes name) \<and> is_async f \<and> \<not> pure f \<and> length (params f) = 1)))"

section \<open>Service limits\<close>

text \<open>The fields of a limits record, in the order of the schema.\<close>

fun read_limits :: "string list \<Rightarrow> string list \<Rightarrow> Value list \<Rightarrow> nat list option" where
  "read_limits [] names vals = Some []"
| "read_limits (f # fs) (n # names) (v # vals) =
     (if strcmp n f \<noteq> 0 \<or> kind v \<noteq> V_NAT then None
      else case value_index v of
        None \<Rightarrow> None
      | Some k \<Rightarrow> map_option ((#) k) (read_limits fs names vals))"
| "read_limits (f # fs) names vals = None"

definition limits_record :: "Value \<Rightarrow> string \<Rightarrow> nat \<Rightarrow> bool" where
  "limits_record v name count =
     (case v of VRecord n _ vals \<Rightarrow> strcmp n name = 0 \<and> length vals = count | _ \<Rightarrow> False)"

fun record_names :: "Value \<Rightarrow> string list" where
  "record_names (VRecord _ ns _) = ns"
| "record_names _ = []"

fun named_values :: "Value \<Rightarrow> Value list" where
  "named_values (VRecord _ _ vs) = vs"
| "named_values (VVariant _ vs) = vs"
| "named_values _ = []"

definition granted :: "'w VMExecution \<Rightarrow> bool \<Rightarrow> bool" where
  "granted m enabled \<longleftrightarrow> \<not> embedded m \<or> enabled"

definition trap :: "string \<Rightarrow> 'w VMExecution \<Rightarrow> 'w VMExecution" where
  "trap message m = m\<lparr>error := Some message\<rparr>"

definition service_fields :: "string list" where
  "service_fields = [''concurrency'', ''request_limit'', ''response_limit'', ''client_timeout_ms'', ''drain_ms'']"

definition enable_server :: "'w Native \<Rightarrow> nat \<Rightarrow> 'w VMExecution \<Rightarrow> 'w VMExecution" where
  "enable_server E s m =
     (let m = (if granted m (filesystem_enabled m) then fst (native_do E (Server_Enable_Filesystem s) m) else m) in
      if granted m (console_enabled m) then fst (native_do E (Server_Enable_Console s) m) else m)"

text \<open>
  Whether the execution owns the stop signals. It may have installed them itself, which it remembers in
  \<open>owns_stop_signals\<close>. Another execution may also have installed them in the name of the owner of the HTTP
  runtime; that flag of the owner is then behind the native interface, and only the owner
  (\<open>runtime_owner\<close>, set by \<open>execute\<close>) reads it as its own.
\<close>

definition holds_stop_signals :: "'w Native \<Rightarrow> 'w VMExecution \<Rightarrow> bool" where
  "holds_stop_signals E m \<longleftrightarrow>
     owns_stop_signals m \<or> runtime_owner m \<and> asking E Http_Runtime_Owns_Signals (world m)"

definition install_stop_signals :: "'w Native \<Rightarrow> 'w VMExecution \<Rightarrow> 'w VMExecution \<times> bool" where
  "install_stop_signals E m =
     (let (m, ok) = native_do E Install_Stop_Signals m in
      if ok then (m\<lparr>owns_stop_signals := True\<rparr>, True) else (m, False))"

definition restore_stop_signals :: "'w Native \<Rightarrow> 'w VMExecution \<Rightarrow> 'w VMExecution" where
  "restore_stop_signals E m =
     (if holds_stop_signals E m then (fst (native_do E Restore_Stop_Signals m))\<lparr>owns_stop_signals := False\<rparr> else m)"

text \<open>Announcing the service: its context record, the readiness callback and the stop signals.\<close>

definition configure_ready :: "'w Native \<Rightarrow> nat \<Rightarrow> nat \<Rightarrow> Value list \<Rightarrow> 'w VMExecution \<Rightarrow> 'w VMExecution" where
  "configure_ready E s ready arguments m =
     (let (m, configured) =
        (case named_value (heap_of E m) ''TcpServiceReady'' (Some [''address'', ''port'']) [arguments ! 0, arguments ! 1] of
           None \<Rightarrow> (m, False)
         | Some context \<Rightarrow> native_do E (Server_Set_Ready_Handler s ready context (granted m (console_enabled m))) m);
       (m, configured) = (if configured \<and> \<not> embedded m then install_stop_signals E m else (m, configured)) in
      if configured then m\<lparr>status := VM_WAITING\<rparr>
      else trap ''VM trap: service readiness setup failed'' ((fst (native_do E (Tcp_Server_Destroy s) m))\<lparr>server := None\<rparr>))"

definition service_call :: "'w Native \<Rightarrow> 'w VMExecution \<Rightarrow> Value list \<Rightarrow> 'w VMExecution" where
  "service_call E m arguments =
     (if embedded m \<and> \<not> server_enabled m then trap ''VM trap: TCP service is unavailable in this execution'' m
      else
        let record' = arguments ! 4 in
        if kind (arguments ! 0) \<noteq> V_STR \<or> kind (arguments ! 1) \<noteq> V_NAT \<or> value_index (arguments ! 1) = None \<or>
           \<not> limits_record record' ''TcpServiceLimits'' 5
        then trap ''VM trap: invalid TCP service arguments'' m
        else case read_limits service_fields (record_names record') (named_values record') of
          None \<Rightarrow> trap ''VM trap: invalid TCP service limits'' m
        | Some limits \<Rightarrow>
            let port = the (value_index (arguments ! 1));
                handler = execution_handler (program m) (arguments ! 2);
                ready = execution_handler (program m) (arguments ! 5) in
            (case ready of
               None \<Rightarrow> trap ''VM trap: invalid service readiness callback'' m
             | Some r \<Rightarrow>
                 let f = functions (program m) ! r in
                 if \<not> is_async f \<or> pure f \<or> length (params f) \<noteq> 1
                 then trap ''VM trap: invalid service readiness callback'' m
                 else
                   let (m, s) = native_open E (Tcp_Server_Start_Service handler (arguments ! 3) (arguments ! 0) port limits
                                                 (granted m (network_enabled m))) m;
                       m = m\<lparr>server := s\<rparr> in
                   (case s of
                      None \<Rightarrow> trap out_of_memory m
                    | Some s \<Rightarrow>
                        let m = enable_server E s m in
                        if asking E (Tcp_Server_Done s) (world m) then m\<lparr>status := VM_WAITING\<rparr>
                        else configure_ready E s r arguments m)))"

definition server_fields :: "string list" where
  "server_fields = [''clients'', ''concurrency'', ''request_limit'', ''response_limit'', ''client_timeout_ms'',
     ''admission_timeout_ms'', ''drain_ms'']"

text \<open>This search does not stop at the first match.\<close>

definition last_handler :: "Program \<Rightarrow> Value \<Rightarrow> nat option" where
  "last_handler p callable =
     (if kind callable \<noteq> V_STR then None
      else first_of (rev (candidates p (\<lambda>f. builtin (fname f) = None \<and> names_function f (as_bytes callable)))))"

definition server_call_mode :: "'w Native \<Rightarrow> 'w VMExecution \<Rightarrow> Value list \<Rightarrow> bool \<Rightarrow> 'w VMExecution" where
  "server_call_mode E m arguments streaming =
     (if embedded m \<and> \<not> server_enabled m then trap ''VM trap: TCP server is unavailable in this execution'' m
      else
        let record' = arguments ! (if streaming then 4 else 3) in
        if kind (arguments ! 0) \<noteq> V_STR \<or> kind (arguments ! 1) \<noteq> V_NAT \<or> value_index (arguments ! 1) = None \<or>
           \<not> limits_record record' ''TcpServerLimits'' 7
        then trap ''VM trap: invalid TCP server arguments'' m
        else case read_limits server_fields (record_names record') (named_values record') of
          None \<Rightarrow> trap ''VM trap: invalid TCP server limits'' m
        | Some limits \<Rightarrow>
            let port = the (value_index (arguments ! 1));
                handler = last_handler (program m) (arguments ! 2);
                network = granted m (network_enabled m);
                (m, s) = native_open E
                  (if streaming then Tcp_Server_Start_Stream handler (arguments ! 3) (arguments ! 0) port limits network
                   else Tcp_Server_Start handler (arguments ! 0) port limits network) m;
                m = m\<lparr>server := s\<rparr> in
            (case s of
               None \<Rightarrow> trap out_of_memory m
             | Some s \<Rightarrow> (enable_server E s m)\<lparr>status := VM_WAITING\<rparr>))"

definition server_call :: "'w Native \<Rightarrow> 'w VMExecution \<Rightarrow> Value list \<Rightarrow> 'w VMExecution" where
  "server_call E m arguments = server_call_mode E m arguments False"

section \<open>The intercepted builtins\<close>

definition http_unit_result :: "heap \<Rightarrow> Value option" where
  "http_unit_result h =
     (case value_new h VUnit of None \<Rightarrow> None | Some u \<Rightarrow> named_value h ''Ok'' None [u])"

definition trap_unless :: "string \<Rightarrow> 'w VMExecution \<Rightarrow> 'w VMExecution" where
  "trap_unless message m = (if error m = None then trap message m else m)"

definition wait_read :: "'w VMExecution \<Rightarrow> 'w VMExecution" where
  "wait_read m = m\<lparr>waiting_read := True, status := VM_WAITING\<rparr>"

text \<open>\<open>install_stop_signals\<close> for the owner of the HTTP runtime, unless it has them.\<close>

definition install_runtime_signals :: "'w Native \<Rightarrow> 'w VMExecution \<Rightarrow> 'w VMExecution \<times> bool" where
  "install_runtime_signals E m =
     (if runtime_owner m then if holds_stop_signals E m then (m, True) else install_stop_signals E m
      else if asking E Http_Runtime_Owns_Signals (world m) then (m, True)
      else native_do E Install_Runtime_Stop_Signals m)"

definition http_listen ::
  "'w Native \<Rightarrow> 'w VMExecution \<Rightarrow> bool \<Rightarrow> Value list \<Rightarrow> 'w VMExecution \<times> Value option" where
  "http_listen E m contextual arguments =
     (case http_worker_function (program m) (arguments ! 1) of
        None \<Rightarrow> (trap ''VM trap: invalid HTTP worker'' m, None)
      | Some worker \<Rightarrow>
          if embedded m \<and> \<not> server_enabled m then (trap ''VM trap: listener capability is unavailable'' m, None)
          else
            let (w, r) = listening E (arguments ! 0) worker contextual (granted m (network_enabled m))
                  (granted m (filesystem_enabled m)) (granted m (console_enabled m)) (world m);
                (m, v) = absorb (m\<lparr>world := w\<rparr>) r;
                (m, ok) = (if asking E Http_Runtime_Active (world m) then install_runtime_signals E m else (m, True)) in
            if \<not> ok then (trap ''HTTP signal setup failed'' m, None)
            else (m\<lparr>yield_requested := True\<rparr>, v))"

definition http_shutdown ::
  "'w Native \<Rightarrow> 'w VMExecution \<Rightarrow> bool \<Rightarrow> Value \<Rightarrow> 'w VMExecution \<times> Value option" where
  "http_shutdown E m destroy v =
     (case v of
        VHttpState a \<Rightarrow>
          if \<not> asking E (Http_State_Present a) (world m) then (trap ''VM trap: invalid HTTP shutdown handle'' m, None)
          else
            let (m, ok) = native_do E (Http_Request_Close v destroy) m in
            if \<not> ok then (trap ''VM trap: invalid HTTP shutdown handle'' m, None)
            else if \<not> asking E (Http_State_Resource a) (world m) then (m, http_unit_result (heap_of E m))
            else (m\<lparr>http_waiting := Some v, status := VM_WAITING\<rparr>, None)
      | _ \<Rightarrow> (trap ''VM trap: invalid HTTP shutdown handle'' m, None))"

definition uncovered :: "string list" where
  "uncovered = [''$http_transport_exchange'', ''$tcp_serve'', ''tcp_service'', ''$tcp_serve_stream'', ''process_run'',
     ''run_bytecode'', ''run_bytecode_args'']"

definition host_exit :: "'w Native \<Rightarrow> 'w VMExecution \<Rightarrow> Value list \<Rightarrow> 'w VMExecution \<times> Value option" where
  "host_exit E m arguments =
     (case (if kind (arguments ! 0) \<noteq> V_NAT then None else value_index (arguments ! 0)) of
        None \<Rightarrow> (trap ''VM trap: invalid process status'' m, None)
      | Some n \<Rightarrow>
          let m = m\<lparr>exit_status := n\<rparr> in
          if n > 255 then (trap ''VM trap: invalid process status'' m, None)
          else if embedded m \<or> asking E Http_Runtime_Active (world m) then (m\<lparr>status := VM_EXITED\<rparr>, None)
          else case handling E HOST ''process_exit'' arguments (world m) of (w, r) \<Rightarrow> absorb (m\<lparr>world := w\<rparr>) r)"

definition console_service :: "'w Native \<Rightarrow> 'w VMExecution \<Rightarrow> Value \<Rightarrow> bool \<Rightarrow> 'w VMExecution" where
  "console_service E m v stderr =
     (if embedded m \<and> \<not> console_enabled m then trap ''VM trap: console service is unavailable in this execution'' m
      else
        let (m, s) = native_open E (Console_Write_Start v stderr) m; m = m\<lparr>console_write := s\<rparr> in
        if s = None then trap_unless out_of_memory m else m\<lparr>status := VM_WAITING\<rparr>)"

definition filesystem_service :: "'w Native \<Rightarrow> 'w VMExecution \<Rightarrow> Value list \<Rightarrow> bool \<Rightarrow> 'w VMExecution" where
  "filesystem_service E m arguments identity =
     (if embedded m \<and> \<not> filesystem_enabled m then trap ''VM trap: filesystem service is unavailable in this execution'' m
      else
        let (m, s) = native_open E (Root_Read_Start arguments identity) m; m = m\<lparr>root_read := s\<rparr> in
        if s = None then trap_unless out_of_memory m else m\<lparr>status := VM_WAITING\<rparr>)"

definition server_read :: "'w Native \<Rightarrow> 'w VMExecution \<Rightarrow> Value \<Rightarrow> 'w VMExecution" where
  "server_read E m v =
     (case (if kind v \<noteq> V_NAT then None else value_index v) of
        None \<Rightarrow> trap ''VM trap: TCP server read is unavailable in this execution'' m
      | Some limit \<Rightarrow>
          if limit = 0 \<or> limit > 16384 \<or> \<not> embedded m \<or> \<not> read_wait m \<or> \<not> server_read_enabled m
          then trap ''VM trap: TCP server read is unavailable in this execution'' m
          else
            let (m, ok) = native_do E (Read_Wait v) m in
            if ok then wait_read m else trap_unless ''VM trap: TCP server read registration failed'' m)"

definition tcp_exchange :: "'w Native \<Rightarrow> 'w VMExecution \<Rightarrow> Value list \<Rightarrow> 'w VMExecution" where
  "tcp_exchange E m arguments =
     (if embedded m \<and> \<not> network_enabled m then trap ''VM trap: TCP service is unavailable in this execution'' m
      else
        let (m, s) = native_open E (Tcp_Exchange_Start arguments) m; m = m\<lparr>tcp := s\<rparr> in
        if s = None then trap out_of_memory m else wait_read m)"

definition http_exchange :: "'w Native \<Rightarrow> 'w VMExecution \<Rightarrow> Value list \<Rightarrow> 'w VMExecution" where
  "http_exchange E m arguments =
     (if embedded m \<and> \<not> network_enabled m then trap ''VM trap: HTTP transport is unavailable in this execution'' m
      else
        let (m, s) = native_open E (Http_Transport_Start arguments) m; m = m\<lparr>http := s\<rparr> in
        if s = None then trap out_of_memory m else wait_read m)"

definition fake_read :: "'w Native \<Rightarrow> 'w VMExecution \<Rightarrow> Value \<Rightarrow> 'w VMExecution" where
  "fake_read E m v =
     (case v of
        VBool b \<Rightarrow>
          let (m, ok) = (if \<not> embedded m then (m, True)
                         else if \<not> read_wait m then (m, False)
                         else native_do E (Read_Wait v) m) in
          if ok then (wait_read m)\<lparr>fake_fail := b\<rparr> else trap_unless ''VM trap: async service is unavailable'' m
      | _ \<Rightarrow> trap ''VM trap: fake read requires Bool'' m)"

definition invoke_connection :: "'w Native \<Rightarrow> 'w VMExecution \<Rightarrow> Value list \<Rightarrow> 'w VMExecution \<times> bool" where
  "invoke_connection E m arguments =
     (case connecting E arguments (world m) of
        (w, target, e) \<Rightarrow>
          let m = note_error e (m\<lparr>world := w\<rparr>) in
          (case target of
             None \<Rightarrow> (m, False)
           | Some (handler, args) \<Rightarrow> (fst (frame_push E m (Some handler) (Some args)), True)))"

text \<open>
  The builtins of an embedded execution that no other branch takes: native code without effects on the
  host runs, everything else goes to the embedder, if it supplied the callback.
\<close>

definition embedded_builtin ::
  "'w Native \<Rightarrow> 'w VMExecution \<Rightarrow> Builtin \<Rightarrow> Value list \<Rightarrow> 'w VMExecution \<times> Value option" where
  "embedded_builtin E m entry arguments =
     (if streq (bname entry) ''run_bytecode'' \<or> streq (bname entry) ''run_bytecode_args'' then
        (trap ''VM trap: nested execution is unavailable in resumable mode'' m, None)
      else if print_wait m \<and> streq (bname entry) ''print'' then
        let (m, ok) = native_do E (Print_Wait (arguments ! 0)) m in
        (if ok then m\<lparr>status := VM_WAITING\<rparr> else trap_unless ''VM trap: pending print registration failed'' m, None)
      else if \<not> host_call m then (trap ''VM trap: host service is unavailable in resumable mode'' m, None)
      else case host_calling E (bname entry) arguments (world m) of (w, r) \<Rightarrow> absorb (m\<lparr>world := w\<rparr>) r)"

definition process_exit :: "'w VMExecution \<Rightarrow> Value \<Rightarrow> 'w VMExecution" where
  "process_exit m v =
     (case (if kind v \<noteq> V_NAT then None else value_index v) of
        None \<Rightarrow> trap ''VM trap: invalid process status'' m
      | Some n \<Rightarrow> m\<lparr>exit_status := n, status := VM_EXITED\<rparr>)"

definition execution_builtin ::
  "'w Native \<Rightarrow> 'w VMExecution \<Rightarrow> Builtin \<Rightarrow> Value list \<Rightarrow> 'w VMExecution \<times> Value option \<times> bool" where
  "execution_builtin E m entry arguments =
     (let is_name = streq (bname entry);
          waits = (\<lambda>m. (m, None, False));
          returns = (\<lambda>(m, v). (m, v, False)) in
      if is_name ''http_connection_continue'' then
        (let (m, ok) = native_do E (Tcp_Server_Http_Continue (arguments ! 0)) m in
         waits (if ok then wait_read m else m))
      else if is_name ''http_listen_ordinary'' \<or> is_name ''http_listen_contextual'' then
        returns (http_listen E m (is_name ''http_listen_contextual'') arguments)
      else if is_name ''http_close'' \<or> is_name ''http_destroy'' then
        returns (http_shutdown E m (is_name ''http_destroy'') (arguments ! 0))
      else if is_name ''http_connection_invoke'' then
        (let (m, called) = invoke_connection E m arguments in (m, None, called))
      else
        let m = (if \<not> coverage_run m \<and> list_ex is_name uncovered
                 then m\<lparr>coverage := map_option vm_coverage_gap (coverage m)\<rparr> else m) in
        if is_name ''tcp_service'' then waits (service_call E m arguments)
        else if is_name ''host_arguments_async'' then
          (if embedded m \<and> \<not> console_enabled m
           then waits (trap ''VM trap: invocation service is unavailable in this execution'' m)
           else case handling E HOST ''command_args'' [] (world m) of (w, r) \<Rightarrow> returns (absorb (m\<lparr>world := w\<rparr>) r))
        else if is_name ''host_exit_async'' then returns (host_exit E m arguments)
        else if is_name ''host_stdout_async'' \<or> is_name ''host_stderr_async'' then
          waits (console_service E m (arguments ! 0) (is_name ''host_stderr_async''))
        else if is_name ''fs_read_beneath_async'' \<or> is_name ''fs_root_identity_async'' then
          waits (filesystem_service E m arguments (is_name ''fs_root_identity_async''))
        else if is_name ''$tcp_serve'' then waits (server_call E m arguments)
        else if is_name ''$tcp_serve_stream'' then waits (server_call_mode E m arguments True)
        else if is_name ''$tcp_server_read_chunk'' then waits (server_read E m (arguments ! 0))
        else if is_name ''$tcp_exchange'' then waits (tcp_exchange E m arguments)
        else if is_name ''$http_transport_exchange'' then waits (http_exchange E m arguments)
        else if is_name ''async_fake_read'' then waits (fake_read E m (arguments ! 0))
        else if is_name ''process_exit'' \<and> (embedded m \<or> asking E Http_Runtime_Active (world m)) then
          waits (process_exit m (arguments ! 0))
        else if \<not> embedded m \<or> bpure entry \<or> builtin_is_local_state (Some entry) then
          returns (builtin_call E m (bname entry) arguments)
        else returns (embedded_builtin E m entry arguments))"

end
