(* ===== verification/Dispatch.thy ===== *)
theory Dispatch
  imports Services
begin

text \<open>
  The instruction dispatch of \<open>vm_execution_advance\<close>, \<open>src/vm/execute.c\<close>: one definition per opcode, the
  bookkeeping around a dispatch, and the budgeted loop. \<open>goto oom\<close> is the constructor \<open>Exhausted\<close>.

  A value that is NULL after an operand underflow only ever sits in a frame that the trap discards; where
  an opcode carries on with it, the model has \<open>VVoid\<close> in its place.
\<close>

section \<open>Results of a dispatch\<close>

datatype 'w dispatched = Done "'w VMExecution" bool | Exhausted "'w VMExecution"

definition push_value :: "'w Native \<Rightarrow> 'w VMExecution \<Rightarrow> Value \<Rightarrow> 'w dispatched" where
  "push_value E m v =
     (case stack_push (heap_of E m) (top_frame m) v of
        None \<Rightarrow> Exhausted m
      | Some frame \<Rightarrow> Done (set_top frame m) False)"

text \<open>\<open>if ((!v && !vm->error) || (v && !stack_push(frame, v))) goto oom\<close>\<close>

definition push_result :: "'w Native \<Rightarrow> 'w VMExecution \<times> Value option \<Rightarrow> 'w dispatched" where
  "push_result E r =
     (case r of
        (m, Some v) \<Rightarrow> push_value E m v
      | (m, None) \<Rightarrow> if error m = None then Exhausted m else Done m False)"

text \<open>\<open>if (!v || !stack_push(frame, v)) goto oom\<close>\<close>

definition push_new :: "'w Native \<Rightarrow> 'w VMExecution \<Rightarrow> Value option \<Rightarrow> 'w dispatched" where
  "push_new E m v = (case v of None \<Rightarrow> Exhausted m | Some v \<Rightarrow> push_value E m v)"

definition put_local :: "'w Native \<Rightarrow> 'w VMExecution \<Rightarrow> string \<Rightarrow> Value \<Rightarrow> 'w dispatched" where
  "put_local E m name v =
     (case local_put (heap_of E m) (top_frame m) name v of
        None \<Rightarrow> Exhausted m
      | Some frame \<Rightarrow> Done (set_top frame m) False)"

definition jump :: "nat \<Rightarrow> 'w VMExecution \<Rightarrow> 'w VMExecution" where
  "jump target m = set_top ((top_frame m)\<lparr>pc := target\<rparr>) m"

text \<open>Popping \<open>n\<close> operands into an array, the last one first.\<close>

fun pop_many :: "nat \<Rightarrow> 'w VMExecution \<Rightarrow> 'w VMExecution \<times> Value list" where
  "pop_many 0 m = (m, [])"
| "pop_many (Suc n) m =
     (let (m, v) = stack_pop m; (m, vs) = pop_many n m in
      (m, vs @ [case v of Some v \<Rightarrow> v | None \<Rightarrow> VVoid]))"

definition pop_two :: "'w VMExecution \<Rightarrow> 'w VMExecution \<times> (Value \<times> Value) option" where
  "pop_two m =
     (let (m, b) = stack_pop m; (m, a) = stack_pop m in
      (m, case (a, b) of (Some a, Some b) \<Rightarrow> Some (a, b) | _ \<Rightarrow> None))"

definition caller_function :: "'w VMExecution \<Rightarrow> Function" where
  "caller_function m = functions (program m) ! code (top_frame m)"

section \<open>Opcodes\<close>

definition op_const :: "'w Native \<Rightarrow> Constant \<Rightarrow> 'w VMExecution \<Rightarrow> 'w dispatched" where
  "op_const E c m = push_new E m (constant_value (heap_of E m) c)"

definition op_load :: "'w Native \<Rightarrow> string \<Rightarrow> 'w VMExecution \<Rightarrow> 'w dispatched" where
  "op_load E name m =
     (case local_get (top_frame m) name of
        None \<Rightarrow> Done (trap ''VM trap: uninitialized local'' m) False
      | Some v \<Rightarrow> push_value E m v)"

definition op_store :: "'w Native \<Rightarrow> string \<Rightarrow> 'w VMExecution \<Rightarrow> 'w dispatched" where
  "op_store E name m =
     (case stack_pop m of
        (m, None) \<Rightarrow> Done m False
      | (m, Some v) \<Rightarrow> put_local E m name v)"

definition op_pop :: "'w VMExecution \<Rightarrow> 'w dispatched" where
  "op_pop m = Done (fst (stack_pop m)) False"

text \<open>\<open>value_rat\<close> keeps the diagnostic and drops the fault kind.\<close>

definition value_rat :: "heap \<Rightarrow> PnBigInt \<Rightarrow> PnBigInt \<Rightarrow> Value outcome" where
  "value_rat h n d = (case value_rat_classified h n d of Trap message k \<Rightarrow> Trap message VM_FAULT_FATAL | r \<Rightarrow> r)"

definition unary_value :: "heap \<Rightarrow> nat \<Rightarrow> Value \<Rightarrow> Value outcome" where
  "unary_value h op a =
     (if op = 1 then
        case a of VBool b \<Rightarrow> ret_opt (value_bool h (\<not> b)) | _ \<Rightarrow> fatal ''VM trap: ! requires Bool''
      else case a of
        VDec d \<Rightarrow>
          (case pn_big_copy h (coefficient d) of
             None \<Rightarrow> NoMemory
           | Some n \<Rightarrow> ret_opt (value_decimal h (n\<lparr>sign := - sign n\<rparr>) (exponent d)))
      | VRat n d \<Rightarrow> value_rat h (n\<lparr>sign := - sign n\<rparr>) d
      | VNat n \<Rightarrow>
          (case pn_big_copy h n of None \<Rightarrow> NoMemory | Some n \<Rightarrow> ret_opt (value_big h VInt (n\<lparr>sign := - sign n\<rparr>)))
      | VInt n \<Rightarrow>
          (case pn_big_copy h n of None \<Rightarrow> NoMemory | Some n \<Rightarrow> ret_opt (value_big h VInt (n\<lparr>sign := - sign n\<rparr>)))
      | _ \<Rightarrow> fatal ''VM trap: unary - requires numeric value'')"

definition op_unary :: "'w Native \<Rightarrow> nat \<Rightarrow> 'w VMExecution \<Rightarrow> 'w dispatched" where
  "op_unary E op m =
     (case stack_pop m of
        (m, None) \<Rightarrow> Done m False
      | (m, Some a) \<Rightarrow> push_result E (absorb m (unary_value (heap_of E m) op a)))"

definition op_binary :: "'w Native \<Rightarrow> nat \<Rightarrow> 'w VMExecution \<Rightarrow> 'w dispatched" where
  "op_binary E op m =
     (case pop_two m of
        (m, None) \<Rightarrow> Done m False
      | (m, Some (a, b)) \<Rightarrow> push_result E (absorb m (binary_value_classified (heap_of E m) op a b)))"

definition op_make_range :: "'w Native \<Rightarrow> 'w VMExecution \<Rightarrow> 'w dispatched" where
  "op_make_range E m =
     (case pop_two m of
        (m, None) \<Rightarrow> Done m False
      | (m, Some (a, b)) \<Rightarrow>
          if kind a \<noteq> V_NAT \<or> kind b \<noteq> V_NAT then Done (trap ''VM trap: range bounds require Nat'' m) False
          else
            let h = heap_of E m in
            if \<not> h Cell then Exhausted m
            else case (pn_big_copy h (as_integer a), pn_big_copy h (as_integer b)) of
              (Some s, Some e) \<Rightarrow> push_value E (m\<lparr>fresh := Suc (fresh m)\<rparr>) (VRange (fresh m) s e)
            | _ \<Rightarrow> Exhausted m)"

definition op_make_array :: "'w Native \<Rightarrow> nat \<Rightarrow> 'w VMExecution \<Rightarrow> 'w dispatched" where
  "op_make_array E count m =
     (if count \<noteq> 0 \<and> \<not> heap_of E m (Slots count) then Exhausted m
      else
        let (m, items) = pop_many count m in
        if error m \<noteq> None then Done m False
        else push_new E m (value_sequence (heap_of E m) V_ARRAY items))"

definition index_value :: "heap \<Rightarrow> Value \<Rightarrow> Value \<Rightarrow> Value outcome" where
  "index_value h a b =
     (case value_index b of
        None \<Rightarrow> Trap ''VM trap: invalid index'' (if kind b = V_NAT then VM_FAULT_REQUEST else VM_FAULT_FATAL)
      | Some index \<Rightarrow>
          (case a of
             VArray items \<Rightarrow>
               if index \<ge> length items then request_fault ''VM trap: index is out of bounds'' else Ret (items ! index)
           | VBytes bs \<Rightarrow>
               if index \<ge> length bs then request_fault ''VM trap: index is out of bounds''
               else ret_opt (value_size h (unat (bs ! index)))
           | VStr s \<Rightarrow>
               (case utf8_offset s index of
                  None \<Rightarrow> request_fault ''VM trap: index is out of bounds''
                | Some (start, stop) \<Rightarrow> ret_opt (value_data h V_STR (take (stop - start) (drop start (data s)))))
           | _ \<Rightarrow> fatal ''VM trap: value is not indexable''))"

definition op_index_get :: "'w Native \<Rightarrow> 'w VMExecution \<Rightarrow> 'w dispatched" where
  "op_index_get E m =
     (case pop_two m of
        (m, None) \<Rightarrow> Done m False
      | (m, Some (a, b)) \<Rightarrow> push_result E (absorb m (index_value (heap_of E m) a b)))"

text \<open>Literal parts and rendered values in turn; there is one value less than there are parts.\<close>

fun interpolate :: "heap \<Rightarrow> string list \<Rightarrow> Value list \<Rightarrow> Buffer \<Rightarrow> Buffer option" where
  "interpolate h [] vs b = Some b"
| "interpolate h (p # ps) [] b = (case buffer_text h p b of None \<Rightarrow> None | Some b \<Rightarrow> interpolate h ps [] b)"
| "interpolate h (p # ps) (v # vs) b =
     (case buffer_text h p b of
        None \<Rightarrow> None
      | Some b \<Rightarrow> (case render h v False b of None \<Rightarrow> None | Some b \<Rightarrow> interpolate h ps vs b))"

definition op_interpolate :: "'w Native \<Rightarrow> string list \<Rightarrow> 'w VMExecution \<Rightarrow> 'w dispatched" where
  "op_interpolate E parts m =
     (let h = heap_of E m; count = length parts - 1 in
      if count \<noteq> 0 \<and> \<not> h (Slots count) then Exhausted m
      else
        let (m, vs) = pop_many count m in
        case (if error m = None then interpolate h parts vs empty_buffer else Some empty_buffer) of
          None \<Rightarrow> Exhausted m
        | Some out \<Rightarrow> push_new E m (value_data h V_STR (bytes_of (bdata out))))"

definition op_iter_init :: "'w Native \<Rightarrow> string \<Rightarrow> 'w VMExecution \<Rightarrow> 'w dispatched" where
  "op_iter_init E name m =
     (case stack_pop m of
        (m, None) \<Rightarrow> Done m False
      | (m, Some a) \<Rightarrow>
          let h = heap_of E m in
          if \<not> h Cell then Exhausted m
          else case (case a of VRange _ s _ \<Rightarrow> pn_big_copy h s | _ \<Rightarrow> Some pn_big_init) of
            None \<Rightarrow> Exhausted m
          | Some start \<Rightarrow>
              let i = fresh m;
                  m = m\<lparr>fresh := Suc i, iterators := (iterators m)(i \<mapsto> \<lparr>iterable = a, cursor = start, iindex = 0\<rparr>)\<rparr> in
              put_local E m name (VIter i))"

text \<open>The next element of an iterator: its new state and the element, or the end of the iteration.\<close>

datatype next_item = Item Iterator Value | Finished | Not_Iterable | Next_Exhausted

definition iterator_next :: "heap \<Rightarrow> Iterator \<Rightarrow> next_item" where
  "iterator_next h it =
     (case iterable it of
        VRange _ _ stop \<Rightarrow>
          if pn_big_compare (cursor it) stop \<ge> 0 then Finished
          else
            let b = value_big h VNat (cursor it) in
            (case pn_big_add_small h (cursor it) 1 of
               None \<Rightarrow> Next_Exhausted
             | Some c \<Rightarrow> (case b of None \<Rightarrow> Next_Exhausted | Some b \<Rightarrow> Item (it\<lparr>cursor := c\<rparr>) b))
      | VArray items \<Rightarrow>
          if iindex it \<ge> length items then Finished
          else Item (it\<lparr>iindex := iindex it + 1\<rparr>) (items ! iindex it)
      | VBytes bs \<Rightarrow>
          if iindex it \<ge> length bs then Finished
          else (case value_size h (unat (bs ! iindex it)) of
                  None \<Rightarrow> Next_Exhausted
                | Some b \<Rightarrow> Item (it\<lparr>iindex := iindex it + 1\<rparr>) b)
      | _ \<Rightarrow> Not_Iterable)"

definition op_iter_next :: "'w Native \<Rightarrow> string \<Rightarrow> string \<Rightarrow> nat \<Rightarrow> 'w VMExecution \<Rightarrow> 'w dispatched" where
  "op_iter_next E name name2 target m =
     (case local_get (top_frame m) name of
        Some (VIter i) \<Rightarrow>
          (case iterators m i of
             None \<Rightarrow> Done (trap ''VM trap: invalid iterator'' m) False
           | Some it \<Rightarrow>
               (case iterator_next (heap_of E m) it of
                  Finished \<Rightarrow> Done (jump target m) True
                | Not_Iterable \<Rightarrow> Done (trap ''VM trap: value is not iterable'' m) False
                | Next_Exhausted \<Rightarrow> Exhausted m
                | Item it b \<Rightarrow> put_local E (m\<lparr>iterators := (iterators m)(i \<mapsto> it)\<rparr>) name2 b))
      | _ \<Rightarrow> Done (trap ''VM trap: invalid iterator'' m) False)"

definition op_make_named ::
  "'w Native \<Rightarrow> string \<Rightarrow> string list option \<Rightarrow> nat \<Rightarrow> 'w VMExecution \<Rightarrow> 'w dispatched" where
  "op_make_named E name names count m =
     (if count \<noteq> 0 \<and> \<not> heap_of E m (Slots count) then Exhausted m
      else let (m, vs) = pop_many count m in push_new E m (named_value (heap_of E m) name names vs))"

definition op_make_record :: "'w Native \<Rightarrow> string \<Rightarrow> string list \<Rightarrow> 'w VMExecution \<Rightarrow> 'w dispatched" where
  "op_make_record E name items m = op_make_named E name (Some items) (length items) m"

definition op_make_variant :: "'w Native \<Rightarrow> string \<Rightarrow> nat \<Rightarrow> 'w VMExecution \<Rightarrow> 'w dispatched" where
  "op_make_variant E name2 count m = op_make_named E name2 None count m"

fun field_value :: "string list \<Rightarrow> Value list \<Rightarrow> string \<Rightarrow> Value option" where
  "field_value (n # ns) (v # vs) name = (if streq n name then Some v else field_value ns vs name)"
| "field_value _ _ name = None"

definition op_field_get :: "'w Native \<Rightarrow> string \<Rightarrow> 'w VMExecution \<Rightarrow> 'w dispatched" where
  "op_field_get E name m =
     (case stack_pop m of
        (m, None) \<Rightarrow> Done m False
      | (m, Some a) \<Rightarrow>
          (case a of
             VRecord _ names vals \<Rightarrow>
               (case field_value names vals name of
                  None \<Rightarrow> Done (trap ''VM trap: record has no field'' m) False
                | Some v \<Rightarrow> push_value E m v)
           | _ \<Rightarrow> Done (trap ''VM trap: field access requires a record'' m) False))"

fun push_all :: "'w Native \<Rightarrow> 'w VMExecution \<Rightarrow> Value list \<Rightarrow> 'w dispatched" where
  "push_all E m [] = Done m False"
| "push_all E m (v # vs) =
     (case push_value E m v of Exhausted m \<Rightarrow> Exhausted m | Done m _ \<Rightarrow> push_all E m vs)"

definition op_match_variant :: "'w Native \<Rightarrow> string \<Rightarrow> nat \<Rightarrow> 'w VMExecution \<Rightarrow> 'w dispatched" where
  "op_match_variant E name target m =
     (case stack_pop m of
        (m, None) \<Rightarrow> Done m False
      | (m, Some a) \<Rightarrow>
          (case a of
             VVariant tag vals \<Rightarrow> if strcmp tag name \<noteq> 0 then Done (jump target m) True else push_all E m vals
           | _ \<Rightarrow> Done (trap ''VM trap: match subject is not an enum'' m) False))"

definition op_match_fail :: "'w VMExecution \<Rightarrow> 'w dispatched" where
  "op_match_fail m = Done (trap ''VM trap: enum match was not exhaustive'' m) False"

text \<open>What follows a call of a builtin: its value is pushed unless it suspended or became a frame.\<close>

definition after_builtin :: "'w Native \<Rightarrow> 'w VMExecution \<times> Value option \<times> bool \<Rightarrow> 'w dispatched" where
  "after_builtin E r =
     (case r of (m, v, called) \<Rightarrow>
        if \<not> called \<and> status m = VM_YIELDED then push_result E (m, v) else Done m False)"

definition op_call :: "'w Native \<Rightarrow> string \<Rightarrow> nat \<Rightarrow> bool \<Rightarrow> 'w VMExecution \<Rightarrow> 'w dispatched" where
  "op_call E name n awaited m =
     (let function = caller_function m in
      if n \<noteq> 0 \<and> \<not> heap_of E m (Slots n) then Exhausted m
      else
        let (m, args) = pop_many n m in
        if error m \<noteq> None then Done m False
        else
          let built = builtin name;
              called = (case built of Some _ \<Rightarrow> None | None \<Rightarrow> program_function (program m) name) in
          if (built = None \<and> called = None) \<or>
             n \<noteq> (case built of Some e \<Rightarrow> arity e | None \<Rightarrow> length (params (functions (program m) ! the called))) \<or>
             \<not> verify_call_edge function (map_option (\<lambda>i. functions (program m) ! i) called)
                 (case built of Some e \<Rightarrow> bpure e | None \<Rightarrow> False)
                 (builtin_is_async built) (builtin_is_local_state built) awaited
          then Done (trap ''VM trap: invalid async call effect or signature'' m) False
          else case built of
            Some e \<Rightarrow> after_builtin E (execution_builtin E m e args)
          | None \<Rightarrow> Done (fst (frame_push E m called (Some (map Some args)))) False)"

definition op_jump_false :: "nat \<Rightarrow> 'w VMExecution \<Rightarrow> 'w dispatched" where
  "op_jump_false target m =
     (case stack_pop m of
        (m, None) \<Rightarrow> Done m False
      | (m, Some a) \<Rightarrow>
          (case a of
             VBool b \<Rightarrow> if \<not> b then Done (jump target m) True else Done m False
           | _ \<Rightarrow> Done (trap ''VM trap: conditional requires Bool'' m) False))"

definition op_return :: "'w Native \<Rightarrow> 'w VMExecution \<Rightarrow> 'w dispatched" where
  "op_return E m =
     (let function = caller_function m in
      case stack_pop m of
        (m, None) \<Rightarrow> Done m False
      | (m, Some v) \<Rightarrow>
          if is_async function \<and> streq (fname function) ''main'' \<and> kind v \<noteq> V_UNIT
          then Done (trap ''VM trap: async main must return Unit'' m) False
          else
            let m = m\<lparr>frames := tl (frames m)\<rparr> in
            if frames m = [] then Done (coverage_complete_pending (m\<lparr>result := Some v, status := VM_COMPLETED\<rparr>)) False
            else case push_value E m v of
              Exhausted m \<Rightarrow> Exhausted m
            | Done m _ \<Rightarrow> Done (coverage_complete_pending m) False)"

text \<open>An indirect call: the callable is the string below the arguments.\<close>

definition call_target ::
  "'w Native \<Rightarrow> 'w VMExecution \<Rightarrow> Function \<Rightarrow> byte list \<Rightarrow> Value list \<Rightarrow> bool \<Rightarrow> 'w dispatched" where
  "call_target E m function name args awaited =
     (let callee = chars name; built = builtin callee; called = program_function (program m) callee;
          fails = (\<lambda>message. Done (trap message m) False) in
      if built = None \<and> called = None then fails ''VM trap: indirect call target was not found''
      else if length args \<noteq> (case built of Some e \<Rightarrow> arity e | None \<Rightarrow> length (params (functions (program m) ! the called)))
        then fails ''VM trap: indirect call arity mismatch''
      else if 0 \<in> set name \<or>
          \<not> verify_call_edge function
              (case built of Some _ \<Rightarrow> None | None \<Rightarrow> map_option (\<lambda>i. functions (program m) ! i) called)
              (case built of Some e \<Rightarrow> bpure e | None \<Rightarrow> False)
              (builtin_is_async built) (builtin_is_local_state built) awaited
        then fails (if pure function then ''VM trap: pure function invokes impure callable''
                    else ''VM trap: invalid async callable effect'')
      else case built of
        Some e \<Rightarrow> after_builtin E (execution_builtin E m e args)
      | None \<Rightarrow> Done (fst (frame_push E m called (Some (map Some args)))) False)"

definition op_call_value :: "'w Native \<Rightarrow> nat \<Rightarrow> bool \<Rightarrow> 'w VMExecution \<Rightarrow> 'w dispatched" where
  "op_call_value E n awaited m =
     (let function = caller_function m in
      if n \<noteq> 0 \<and> \<not> heap_of E m (Slots n) then Exhausted m
      else
        let (m, args) = pop_many n m; (m, callable) = stack_pop m in
        if error m \<noteq> None then Done m False
        else case callable of
          Some (VStr s) \<Rightarrow>
            if \<not> heap_of E m (Chars (u64 (length (data s) + 1))) then Exhausted m
            else call_target E m function (data s) args awaited
        | _ \<Rightarrow> Done (trap ''VM trap: indirect call requires a callable'' m) False)"

definition dispatch :: "'w Native \<Rightarrow> Instruction \<Rightarrow> 'w VMExecution \<Rightarrow> 'w dispatched" where
  "dispatch E instruction m =
     (case instruction of
        OP_CONST c \<Rightarrow> op_const E c m
      | OP_LOAD name \<Rightarrow> op_load E name m
      | OP_STORE name \<Rightarrow> op_store E name m
      | OP_POP \<Rightarrow> op_pop m
      | OP_UNARY op \<Rightarrow> op_unary E op m
      | OP_BINARY op \<Rightarrow> op_binary E op m
      | OP_MAKE_RANGE \<Rightarrow> op_make_range E m
      | OP_MAKE_ARRAY count \<Rightarrow> op_make_array E count m
      | OP_INDEX_GET \<Rightarrow> op_index_get E m
      | OP_INTERPOLATE parts \<Rightarrow> op_interpolate E parts m
      | OP_ITER_INIT name \<Rightarrow> op_iter_init E name m
      | OP_ITER_NEXT name name2 target \<Rightarrow> op_iter_next E name name2 target m
      | OP_MAKE_RECORD name items \<Rightarrow> op_make_record E name items m
      | OP_FIELD_GET name \<Rightarrow> op_field_get E name m
      | OP_MAKE_VARIANT name name2 count \<Rightarrow> op_make_variant E name2 count m
      | OP_MATCH_VARIANT name target \<Rightarrow> op_match_variant E name target m
      | OP_MATCH_FAIL \<Rightarrow> op_match_fail m
      | OP_CALL name n \<Rightarrow> op_call E name n False m
      | OP_AWAIT_CALL name n \<Rightarrow> op_call E name n True m
      | OP_JUMP_FALSE target \<Rightarrow> op_jump_false target m
      | OP_JUMP target \<Rightarrow> Done (jump target m) False
      | OP_RETURN \<Rightarrow> op_return E m
      | OP_CALL_VALUE n \<Rightarrow> op_call_value E n False m
      | OP_AWAIT_VALUE n \<Rightarrow> op_call_value E n True m)"

end
