(* ===== verification/Execute.thy ===== *)
theory Execute
  imports Dispatch
begin

text \<open>
  Running and suspending an execution, the rest of \<open>src/vm/execute.c\<close>: the budgeted loop of
  \<open>vm_execution_advance\<close>, creation and destruction, the completions a suspended execution accepts, and
  the synchronous adapter \<open>execute\<close>.
\<close>

section \<open>Advancing\<close>

text \<open>How a turn of the loop ends: at its end, at a \<open>break\<close>, or at the label \<open>oom\<close>.\<close>

datatype 'w turn = Running "'w VMExecution" | Stop "'w VMExecution" | Oom "'w VMExecution"

definition coverage_tail :: "nat \<Rightarrow> nat \<Rightarrow> nat \<Rightarrow> bool \<Rightarrow> 'w VMExecution \<Rightarrow> 'w VMExecution" where
  "coverage_tail coverage_pc function depth branch m =
     (case coverage m of
        Some c \<Rightarrow>
          if error m = None \<and> status m \<noteq> VM_EXITED then
            if length (frames m) > depth \<or> status m = VM_WAITING then
              let i = length (frames m) - depth in
              m\<lparr>frames := (frames m)[i := (frames m ! i)\<lparr>coverage_pending := True, coverage_pending_pc := coverage_pc\<rparr>]\<rparr>
            else m\<lparr>coverage := Some (vm_coverage_finish c function coverage_pc branch)\<rparr>
          else m
      | None \<Rightarrow> m)"

definition tick :: "'w VMExecution \<Rightarrow> 'w VMExecution" where
  "tick m = m\<lparr>clock := Suc (clock m)\<rparr>"

definition turn :: "'w Native \<Rightarrow> 'w VMExecution \<Rightarrow> 'w turn" where
  "turn E m =
     (let frame = top_frame m; function = functions (program m) ! code frame in
      if pc frame \<ge> length (ins function) then Stop (trap ''VM trap: function did not return'' m)
      else
        let coverage_pc = pc frame; depth = length (frames m);
            m = m\<lparr>coverage := map_option (\<lambda>c. vm_coverage_attempt c (coverage_function frame) coverage_pc) (coverage m)\<rparr>;
            m = set_top (frame\<lparr>pc := pc frame + 1\<rparr>) m in
        case dispatch E (ins function ! coverage_pc) m of
          Exhausted m \<Rightarrow> Oom (tick m)
        | Done m branch \<Rightarrow>
            let m = tick (coverage_tail coverage_pc (coverage_function frame) depth branch m) in
            if yield_requested m then Stop (m\<lparr>yield_requested := False\<rparr>) else Running m)"

fun run_turns :: "'w Native \<Rightarrow> nat \<Rightarrow> 'w VMExecution \<Rightarrow> 'w turn" where
  "run_turns E 0 m = Stop m"
| "run_turns E (Suc budget) m =
     (if error m = None \<and> status m = VM_YIELDED then
        case turn E m of Running m \<Rightarrow> run_turns E budget m | stopped \<Rightarrow> stopped
      else Stop m)"

definition fail_trapped :: "'w VMExecution \<Rightarrow> 'w VMExecution" where
  "fail_trapped m = frames_clear (m\<lparr>status := VM_TRAPPED, coverage := vm_coverage_terminal (coverage m) 2\<rparr>)"

definition leave :: "'w VMExecution \<Rightarrow> 'w VMExecution" where
  "leave m =
     (let m = (if error m \<noteq> None then m\<lparr>status := VM_TRAPPED\<rparr> else m);
          m = (if status m \<noteq> VM_YIELDED \<and> status m \<noteq> VM_WAITING then
                 frames_clear (m\<lparr>coverage := vm_coverage_terminal (coverage m)
                   (if status m = VM_COMPLETED then 1 else if status m = VM_TRAPPED then 2 else 3)\<rparr>)
               else m) in
      m\<lparr>running := False\<rparr>)"

text \<open>A pending HTTP shutdown whose resource is gone resumes with its result.\<close>

definition resume_shutdown :: "'w Native \<Rightarrow> 'w VMExecution \<Rightarrow> 'w VMExecution" where
  "resume_shutdown E m =
     (case http_waiting m of
        Some (VHttpState a) \<Rightarrow>
          if status m = VM_WAITING \<and> \<not> asking E (Http_State_Resource a) (world m) then
            (case Option.bind (http_unit_result (heap_of E m)) (stack_push (heap_of E m) (top_frame m)) of
               None \<Rightarrow> fail_trapped (trap out_of_memory m)
             | Some frame \<Rightarrow> coverage_complete_pending (set_top frame (m\<lparr>status := VM_YIELDED\<rparr>)))
            \<lparr>http_waiting := None\<rparr>
          else m
      | _ \<Rightarrow> m)"

definition vm_execution_advance :: "'w Native \<Rightarrow> nat \<Rightarrow> 'w VMExecution \<Rightarrow> 'w VMExecution \<times> VMExecutionStatus" where
  "vm_execution_advance E budget m =
     (if running m then (m, VM_BUSY)
      else
        let m = resume_shutdown E m in
        if status m \<noteq> VM_YIELDED then (m, status m)
        else case run_turns E budget (m\<lparr>running := True\<rparr>) of
          Oom m \<Rightarrow> ((fail_trapped (trap out_of_memory m))\<lparr>running := False\<rparr>, VM_TRAPPED)
        | Stop m \<Rightarrow> (leave m, status (leave m))
        | Running m \<Rightarrow> (leave m, status (leave m)))"

section \<open>Creation and destruction\<close>

definition new_execution :: "'w VM \<Rightarrow> 'w VMExecution" where
  "new_execution vm = VM.extend vm (VMExecution.fields [] 0 VM_YIELDED None 0 False False False False False False
     False False False None None None None None False False None False False False False)"

definition destroy_services :: "'w Native \<Rightarrow> 'w VMExecution \<Rightarrow> 'w VMExecution" where
  "destroy_services E m =
     (let drop = (\<lambda>f (handle :: nat option) m. case handle of None \<Rightarrow> m | Some s \<Rightarrow> fst (native_do E (f s) m));
          m = drop Tcp_Exchange_Destroy (tcp m) m;
          m = drop Http_Transport_Destroy (http m) m;
          m = drop Root_Read_Destroy (root_read m) m;
          m = drop Console_Write_Destroy (console_write m) m;
          m = drop Tcp_Server_Destroy (server m) m;
          m = restore_stop_signals E m in
      fst (native_do E Resources_Destroy m))"

text \<open>Destruction refuses a running execution and otherwise leaves the virtual machine.\<close>

definition vm_execution_destroy :: "'w Native \<Rightarrow> 'w VMExecution \<Rightarrow> 'w VM option" where
  "vm_execution_destroy E m =
     (if running m then None else Some ((VM.truncate (destroy_services E m))\<lparr>execution := False\<rparr>))"

text \<open>The result is the execution, or the virtual machine with a diagnostic.\<close>

definition vm_execution_create ::
  "'w Native \<Rightarrow> 'w VM \<Rightarrow> nat option \<Rightarrow> arguments \<Rightarrow> bool \<Rightarrow> 'w VM \<times> string + 'w VMExecution" where
  "vm_execution_create E vm function arguments callback =
     (if execution vm then Inl (vm, ''VM invocation is already active'')
      else if \<not> heap_of E vm Cell then Inl (vm, out_of_memory)
      else
        let m = (new_execution vm)\<lparr>embedded := True, host_call := callback, error := None, fault_kind := VM_FAULT_FATAL,
              execution := True, coverage := vm_coverage_start (coverage vm) (program_address vm)\<rparr>;
            (m, ok) = frame_push E m function arguments in
        if ok then Inr m
        else
          let m' = m\<lparr>coverage := vm_coverage_terminal (coverage m) 2\<rparr> in
          Inl (the (vm_execution_destroy E m'), the (error m)))"

definition vm_execution_create_pending ::
  "'w Native \<Rightarrow> 'w VM \<Rightarrow> nat option \<Rightarrow> arguments \<Rightarrow> bool \<Rightarrow> 'w VM \<times> string + 'w VMExecution" where
  "vm_execution_create_pending E vm function arguments wait =
     map_sum id (\<lambda>m. m\<lparr>print_wait := wait\<rparr>) (vm_execution_create E vm function arguments False)"

definition vm_execution_create_async ::
  "'w Native \<Rightarrow> 'w VM \<Rightarrow> nat option \<Rightarrow> arguments \<Rightarrow> bool \<Rightarrow> 'w VM \<times> string + 'w VMExecution" where
  "vm_execution_create_async E vm function arguments wait =
     map_sum id (\<lambda>m. m\<lparr>read_wait := wait\<rparr>) (vm_execution_create E vm function arguments False)"

section \<open>Completions\<close>

text \<open>Delivering a value to the suspended frame: a push, a failed push, or no value at all.\<close>

definition deliver :: "'w Native \<Rightarrow> 'w VMExecution \<Rightarrow> Value option \<Rightarrow> 'w VMExecution" where
  "deliver E m v =
     (case Option.bind v (stack_push (heap_of E m) (top_frame m)) of
        None \<Rightarrow> trap out_of_memory m
      | Some frame \<Rightarrow> set_top frame m)"

text \<open>The status after a completion: resumed, or trapped with the frames released.\<close>

definition resume :: "'w VMExecution \<Rightarrow> 'w VMExecution" where
  "resume m = (if error m = None then coverage_complete_pending (m\<lparr>status := VM_YIELDED\<rparr>) else fail_trapped m)"

definition vm_execution_complete_print ::
  "'w Native \<Rightarrow> 'w VMExecution \<Rightarrow> string option \<Rightarrow> 'w VMExecution \<times> bool" where
  "vm_execution_complete_print E m message =
     (if running m \<or> status m \<noteq> VM_WAITING \<or> waiting_read m \<or> server m \<noteq> None \<or> http_waiting m \<noteq> None then (m, False)
      else
        let m = m\<lparr>error := message\<rparr>;
            m = (if message = None then deliver E m (value_void (heap_of E m)) else m) in
        (resume m, True))"

definition vm_fake_read_result_valid :: "Value option \<Rightarrow> bool" where
  "vm_fake_read_result_valid r =
     (case r of
        Some (VVariant tag [payload]) \<Rightarrow>
          (streq tag ''Ok'' \<and> kind payload = V_BYTES) \<or> (streq tag ''Error'' \<and> kind payload = V_STR)
      | _ \<Rightarrow> False)"

definition vm_fake_read_result :: "heap \<Rightarrow> bool \<Rightarrow> Value option" where
  "vm_fake_read_result h fail =
     (let text = (if fail then ''fake I/O error'' else ''fake bytes'') in
      case value_data h (if fail then V_STR else V_BYTES) (bytes_of text) of
        None \<Rightarrow> None
      | Some payload \<Rightarrow> named_value h (if fail then ''Error'' else ''Ok'') None [payload])"

definition vm_execution_complete_read ::
  "'w Native \<Rightarrow> 'w VMExecution \<Rightarrow> Value option \<Rightarrow> 'w VMExecution \<times> bool" where
  "vm_execution_complete_read E m r =
     (if running m \<or> status m \<noteq> VM_WAITING \<or> \<not> waiting_read m \<or> tcp m \<noteq> None \<or> http m \<noteq> None then (m, False)
      else
        let m = m\<lparr>waiting_read := False\<rparr>;
            m = (if \<not> vm_fake_read_result_valid r then
                   trap (if r \<noteq> None then ''VM trap: invalid async completion type'' else out_of_memory) m
                 else deliver E m r) in
        (resume m, True))"

section \<open>Capabilities\<close>

definition may_enable :: "'w VMExecution \<Rightarrow> bool" where
  "may_enable m \<longleftrightarrow> \<not> running m \<and> status m = VM_YIELDED"

definition vm_execution_enable_server_reads :: "'w VMExecution \<Rightarrow> 'w VMExecution \<times> bool" where
  "vm_execution_enable_server_reads m =
     (if \<not> may_enable m \<or> \<not> embedded m \<or> \<not> read_wait m then (m, False) else (m\<lparr>server_read_enabled := True\<rparr>, True))"

definition vm_execution_enable_tcp :: "'w VMExecution \<Rightarrow> 'w VMExecution \<times> bool" where
  "vm_execution_enable_tcp m = (if \<not> may_enable m then (m, False) else (m\<lparr>network_enabled := True\<rparr>, True))"

definition vm_execution_enable_console :: "'w VMExecution \<Rightarrow> 'w VMExecution \<times> bool" where
  "vm_execution_enable_console m = (if \<not> may_enable m then (m, False) else (m\<lparr>console_enabled := True\<rparr>, True))"

definition vm_execution_enable_filesystem :: "'w VMExecution \<Rightarrow> 'w VMExecution \<times> bool" where
  "vm_execution_enable_filesystem m = (if \<not> may_enable m then (m, False) else (m\<lparr>filesystem_enabled := True\<rparr>, True))"

definition vm_execution_enable_server :: "'w VMExecution \<Rightarrow> 'w VMExecution \<times> bool" where
  "vm_execution_enable_server m = (if \<not> may_enable m then (m, False) else (m\<lparr>server_enabled := True\<rparr>, True))"

section \<open>Polling native operations\<close>

definition vm_execution_poll_tcp :: "'w Native \<Rightarrow> 'w VMExecution \<Rightarrow> nat \<Rightarrow> 'w VMExecution \<times> bool" where
  "vm_execution_poll_tcp E m max_wait_ms =
     (case tcp m of
        None \<Rightarrow> (m, False)
      | Some s \<Rightarrow>
          if running m \<or> status m \<noteq> VM_WAITING then (m, False)
          else
            let (m, ready) = native_do E (Tcp_Exchange_Poll s max_wait_ms) m in
            if ready then
              let m = fst (vm_execution_complete_read E (m\<lparr>tcp := None\<rparr>) (answering E (Tcp_Exchange_Result s) (world m))) in
              (fst (native_do E (Tcp_Exchange_Destroy s) m), True)
            else (m, True))"

definition vm_execution_poll_http :: "'w Native \<Rightarrow> 'w VMExecution \<Rightarrow> nat \<Rightarrow> 'w VMExecution \<times> bool" where
  "vm_execution_poll_http E m max_wait_ms =
     (case http m of
        None \<Rightarrow> (m, False)
      | Some s \<Rightarrow>
          if running m \<or> status m \<noteq> VM_WAITING then (m, False)
          else
            let (m, ready) = native_do E (Http_Transport_Poll s max_wait_ms) m in
            if ready then
              let m = fst (vm_execution_complete_read E (m\<lparr>http := None\<rparr>) (answering E (Http_Transport_Result s) (world m))) in
              (fst (native_do E (Http_Transport_Destroy s) m), True)
            else (m, True))"

definition vm_execution_poll_console :: "'w Native \<Rightarrow> 'w VMExecution \<Rightarrow> 'w VMExecution \<times> bool" where
  "vm_execution_poll_console E m =
     (case console_write m of
        None \<Rightarrow> (m, False)
      | Some s \<Rightarrow>
          if running m \<or> status m \<noteq> VM_WAITING then (m, False)
          else
            let (m, ready) = native_do E (Console_Write_Poll s) m in
            if \<not> ready then (m, True)
            else
              let m = deliver E m (answering E (Console_Write_Result s) (world m));
                  m = (fst (native_do E (Console_Write_Destroy s) m))\<lparr>console_write := None\<rparr> in
              (resume m, True))"

definition vm_execution_poll_filesystem :: "'w Native \<Rightarrow> 'w VMExecution \<Rightarrow> 'w VMExecution \<times> bool" where
  "vm_execution_poll_filesystem E m =
     (case root_read m of
        None \<Rightarrow> (m, False)
      | Some s \<Rightarrow>
          if running m \<or> status m \<noteq> VM_WAITING then (m, False)
          else
            let (m, ready) = native_do E (Root_Read_Poll s) m in
            if \<not> ready then (m, True)
            else
              let r = answering E (Root_Read_Result s) (world m);
                  m = m\<lparr>error := failing E (Root_Read_Error s) (world m)\<rparr>;
                  m = (if error m = None then deliver E m r else m);
                  m = (fst (native_do E (Root_Read_Destroy s) m))\<lparr>root_read := None\<rparr> in
              (resume m, True))"

definition vm_execution_poll_network :: "'w Native \<Rightarrow> 'w VMExecution \<Rightarrow> nat \<Rightarrow> 'w VMExecution \<times> bool" where
  "vm_execution_poll_network E m max_wait_ms =
     (if console_write m \<noteq> None then vm_execution_poll_console E m
      else if root_read m \<noteq> None then vm_execution_poll_filesystem E m
      else if tcp m \<noteq> None then vm_execution_poll_tcp E m max_wait_ms
      else if http m \<noteq> None then vm_execution_poll_http E m max_wait_ms
      else (m, False))"

definition vm_execution_stop_server :: "'w Native \<Rightarrow> 'w VMExecution \<Rightarrow> 'w VMExecution \<times> bool" where
  "vm_execution_stop_server E m =
     (case server m of
        None \<Rightarrow> (m, False)
      | Some s \<Rightarrow> if running m then (m, False) else (fst (native_do E (Tcp_Server_Stop s) m), True))"

definition finish_server :: "'w Native \<Rightarrow> nat \<Rightarrow> 'w VMExecution \<Rightarrow> 'w VMExecution" where
  "finish_server E s m =
     (let m = m\<lparr>error := failing E (Tcp_Server_Error s) (world m)\<rparr>;
          m = (if error m = None then deliver E m (answering E (Tcp_Server_Result s) (world m)) else m);
          m = (fst (native_do E (Tcp_Server_Destroy s) m))\<lparr>server := None\<rparr> in
      resume (restore_stop_signals E m))"

definition vm_execution_pump_server :: "'w Native \<Rightarrow> 'w VMExecution \<Rightarrow> nat \<Rightarrow> nat \<Rightarrow> 'w VMExecution \<times> bool" where
  "vm_execution_pump_server E m budget max_wait_ms =
     (case server m of
        None \<Rightarrow> (m, False)
      | Some s \<Rightarrow>
          if running m \<or> status m \<noteq> VM_WAITING then (m, False)
          else
            let m = m\<lparr>running := True\<rparr>;
                m = (if holds_stop_signals E m \<and> asking E Service_Stop_Requested (world m)
                     then fst (native_do E (Tcp_Server_Stop s) m) else m);
                m = fst (native_do E (Tcp_Server_Poll s max_wait_ms) m);
                m = fst (native_do E (Tcp_Server_Advance s budget) m);
                m = (if asking E (Tcp_Server_Done s) (world m) then finish_server E s m else m) in
            (m\<lparr>running := False\<rparr>, True))"

section \<open>The synchronous adapter\<close>

datatype 'w round = Again "'w VMExecution" | Leave "'w VMExecution"

text \<open>The HTTP runtime's share of a round; \<open>Leave\<close> is its error.\<close>

definition runtime_round :: "'w Native \<Rightarrow> bool \<Rightarrow> 'w VMExecution \<Rightarrow> 'w round" where
  "runtime_round E owns m =
     (if owns \<and> asking E Http_Runtime_Active (world m) then
        let m = (if holds_stop_signals E m \<and> asking E Service_Stop_Requested (world m)
                 then fst (native_do E Http_Runtime_Stop (fst (native_do E Http_Runtime_Request_Exit m))) else m);
            m = (if status m = VM_EXITED \<or> asking E Http_Runtime_Exit_Requested (world m)
                 then fst (native_do E Http_Runtime_Stop m) else m);
            m = fst (native_do E (Http_Runtime_Pump 1024 (if status m = VM_YIELDED then 0 else 1)) m) in
        (case failing E Http_Runtime_Error (world m) of
           None \<Rightarrow> Again m
         | Some message \<Rightarrow> Leave (trap message m))
      else Again m)"

text \<open>What a round does with the status \<open>vm_execution_advance\<close> returned.\<close>

definition serve_wait :: "'w Native \<Rightarrow> bool \<Rightarrow> bool \<Rightarrow> VMExecutionStatus \<Rightarrow> 'w VMExecution \<Rightarrow> 'w round" where
  "serve_wait E owns active st m =
     (if st = VM_YIELDED then Again m
      else if (st = VM_COMPLETED \<or> st = VM_EXITED) \<and> owns \<and> asking E Http_Runtime_Active (world m) then Again m
      else if st = VM_WAITING \<and> http_waiting m \<noteq> None then Again m
      else if st = VM_WAITING \<and> server m \<noteq> None then
        Again (fst (vm_execution_pump_server E m 1024 (if active then 1 else 10)))
      else if st = VM_WAITING \<and> console_write m \<noteq> None then
        Again (fst (vm_execution_poll_console E
          (if active then m else fst (native_do E (Console_Write_Wait (the (console_write m))) m))))
      else if st = VM_WAITING \<and> root_read m \<noteq> None then
        Again (fst (vm_execution_poll_filesystem E
          (if active then m else fst (native_do E (Root_Read_Wait (the (root_read m))) m))))
      else if st \<noteq> VM_WAITING \<or> \<not> waiting_read m then Leave m
      else if tcp m \<noteq> None \<or> http m \<noteq> None then
        Again (fst (vm_execution_poll_network E m (if active then 1 else 1000)))
      else Again (fst (vm_execution_complete_read E m (vm_fake_read_result (heap_of E m) (fake_fail m)))))"

definition execute_round :: "'w Native \<Rightarrow> bool \<Rightarrow> 'w VMExecution \<Rightarrow> 'w round" where
  "execute_round E owns m =
     (case runtime_round E owns m of
        Leave m \<Rightarrow> Leave m
      | Again m \<Rightarrow>
          let active = (owns \<and> asking E Http_Runtime_Active (world m)) in
          if status m = VM_COMPLETED \<or> status m = VM_EXITED \<or> (owns \<and> asking E Http_Runtime_Exit_Requested (world m))
          then if active then Again m else Leave m
          else case vm_execution_advance E (if active then 1024 else SIZE_MAX) m of
            (m, st) \<Rightarrow> serve_wait E owns active st m)"

partial_function (option) execute_loop :: "'w Native \<Rightarrow> bool \<Rightarrow> 'w VMExecution \<Rightarrow> 'w VMExecution option" where
  [code]: "execute_loop E owns m =
     (case execute_round E owns m of
        Leave m \<Rightarrow> Some m
      | Again m \<Rightarrow> execute_loop E owns m)"

definition execute_end :: "'w Native \<Rightarrow> bool \<Rightarrow> 'w VMExecution \<Rightarrow> 'w VM \<times> Value option" where
  "execute_end E owns m =
     (let m = (if error m \<noteq> None then m\<lparr>coverage := vm_coverage_terminal (coverage m) 2\<rparr> else m);
          exits = (owns \<and> (status m = VM_EXITED \<or> asking E Http_Runtime_Exit_Requested (world m)));
          exit_code = (if asking E Http_Runtime_Exit_Requested (world m) then http_runtime_exit_status E (world m)
                       else exit_status m);
          m = (if owns then fst (native_do E Http_Runtime_Destroy m) else m);
          m = (frames_clear (destroy_services E m))\<lparr>execution := False\<rparr>;
          m = (if exits \<and> error m = None then
                 case value_size (heap_of E m) exit_code of
                   None \<Rightarrow> trap out_of_memory m
                 | Some c \<Rightarrow> (case handling E HOST ''process_exit'' [c] (world m) of (w, r) \<Rightarrow> fst (absorb (m\<lparr>world := w\<rparr>) r))
               else m) in
      (VM.truncate m, result m))"

text \<open>\<open>None\<close> is a run that never ends. A virtual machine that is active is left as it is.\<close>

definition execute :: "'w Native \<Rightarrow> 'w VM \<Rightarrow> nat option \<Rightarrow> arguments \<Rightarrow> ('w VM \<times> Value option) option" where
  "execute E vm function arguments =
     (if execution vm then Some (vm, None)
      else
        let owns = (\<not> asking E Http_Runtime_Present (world vm));
            m = (new_execution vm)\<lparr>execution := True, fault_kind := VM_FAULT_FATAL\<rparr>;
            m = (if owns then (fst (native_do E Http_Runtime_Create m))\<lparr>runtime_owner := True\<rparr> else m);
            m = m\<lparr>coverage := vm_coverage_start (coverage m) (program_address m)\<rparr>;
            (m, ok) = frame_push E m function arguments in
        map_option (execute_end E owns) (if ok then execute_loop E owns m else Some m))"

end
