(* ===== verification/Steps.thy ===== *)
theory Steps
  imports Execute
begin

text \<open>
  What one dispatch may change. Opcodes other than calls and returns stay inside the top frame; a service
  leaves the frames alone; a call enters one function. The invariants of the later theories rest on these
  facts, not on the opcodes one by one.
\<close>

named_theorems quiet_rules

section \<open>Opcodes that stay inside their frame\<close>

text \<open>
  What an opcode other than a call or a return may change: the top frame apart from its function and its
  coverage marks, the iterators, and the diagnostic. Everything else, the world in particular, is as before.
\<close>

definition same_frame :: "Frame \<Rightarrow> Frame \<Rightarrow> bool" where
  "same_frame f g \<longleftrightarrow> code g = code f \<and> coverage_function g = coverage_function f \<and>
     coverage_pending_pc g = coverage_pending_pc f \<and> coverage_pending g = coverage_pending f"

definition quiet :: "'w VMExecution \<Rightarrow> 'w VMExecution \<Rightarrow> bool" where
  "quiet a m \<longleftrightarrow> frames a \<noteq> [] \<and> frames m \<noteq> [] \<and> tl (frames m) = tl (frames a) \<and>
     same_frame (hd (frames a)) (hd (frames m)) \<and>
     m\<lparr>error := error a, fault_kind := fault_kind a, fresh := fresh a, iterators := iterators a, frames := frames a\<rparr> = a"

fun outcome_machine :: "'w dispatched \<Rightarrow> 'w VMExecution" where
  "outcome_machine (Done m b) = m"
| "outcome_machine (Exhausted m) = m"

abbreviation quiet_result :: "'w VMExecution \<Rightarrow> 'w dispatched \<Rightarrow> bool" where
  "quiet_result a d \<equiv> quiet a (outcome_machine d)"

lemma quiet_refl: "frames m \<noteq> [] \<Longrightarrow> quiet m m"
  by (simp add: quiet_def same_frame_def)

lemma quiet_update:
  assumes "quiet a m" and "same_frame (hd (frames m)) f"
  shows "quiet a (m\<lparr>error := e, fault_kind := k, fresh := i, iterators := its, frames := f # tl (frames m)\<rparr>)"
  using assms by (auto simp: quiet_def same_frame_def)

lemma same_frame_refl [simp]: "same_frame f f"
  by (simp add: same_frame_def)

lemma quiet_frames: "quiet a m \<Longrightarrow> frames m \<noteq> []"
  by (simp add: quiet_def)

lemma quiet_set_top [quiet_rules]: "quiet a m \<Longrightarrow> same_frame (top_frame m) f \<Longrightarrow> quiet a (set_top f m)"
  by (auto simp: quiet_def same_frame_def set_top_def top_frame_def)

lemma quiet_trap [quiet_rules]: "quiet a m \<Longrightarrow> quiet a (trap e m)"
  by (auto simp: quiet_def trap_def)

lemma quiet_error [quiet_rules]: "quiet a m \<Longrightarrow> quiet a (m\<lparr>error := e\<rparr>)"
  by (auto simp: quiet_def)

lemma quiet_fault [quiet_rules]: "quiet a m \<Longrightarrow> quiet a (m\<lparr>error := e, fault_kind := k\<rparr>)"
  by (auto simp: quiet_def)

lemma quiet_fresh [quiet_rules]:
  "quiet a m \<Longrightarrow> quiet a (m\<lparr>fresh := i\<rparr>)" "quiet a m \<Longrightarrow> quiet a (m\<lparr>iterators := its\<rparr>)"
  "quiet a m \<Longrightarrow> quiet a (m\<lparr>iterators := its, fresh := i\<rparr>)"
  by (auto simp: quiet_def)

lemma same_frame_update [simp]:
  "same_frame f (g\<lparr>stack := s\<rparr>) = same_frame f g" "same_frame f (g\<lparr>pc := p\<rparr>) = same_frame f g"
  "same_frame f (g\<lparr>locals := l\<rparr>) = same_frame f g"
  "same_frame f (g\<lparr>stack_capacity := c\<rparr>) = same_frame f g"
  "same_frame f (g\<lparr>local_capacity := c\<rparr>) = same_frame f g"
  by (simp_all add: same_frame_def)

lemma same_frame_push: "stack_push h f v = Some g \<Longrightarrow> same_frame f g"
  by (auto simp: stack_push_def Let_def split: if_splits)

lemma same_frame_put: "local_put h f n v = Some g \<Longrightarrow> same_frame f g"
  by (auto simp: local_put_def Let_def split: if_splits option.splits)

lemma quiet_pop [quiet_rules]: "quiet a m \<Longrightarrow> quiet a (fst (stack_pop m))"
  by (auto simp: stack_pop_def split: list.split intro!: quiet_rules)

lemma quiet_pop_two [quiet_rules]: "quiet a m \<Longrightarrow> quiet a (fst (pop_two m))"
  by (simp add: pop_two_def split_beta quiet_pop)

lemma quiet_pop_many [quiet_rules]: "quiet a m \<Longrightarrow> quiet a (fst (pop_many n m))"
  by (induction n arbitrary: m) (simp_all add: split_beta quiet_pop)

lemma quiet_absorb [quiet_rules]: "quiet a m \<Longrightarrow> quiet a (fst (absorb m r))"
  by (auto simp: absorb_def split: outcome.split intro!: quiet_rules)

lemma quiet_jump [quiet_rules]: "quiet a m \<Longrightarrow> quiet a (jump t m)"
  by (auto simp: jump_def intro!: quiet_rules)

lemma quiet_push_value [quiet_rules]: "quiet a m \<Longrightarrow> quiet_result a (push_value E m v)"
  by (auto simp: push_value_def split: option.splits intro!: quiet_rules dest: same_frame_push)

lemma quiet_push_result [quiet_rules]: "quiet a (fst r) \<Longrightarrow> quiet_result a (push_result E r)"
  by (cases r) (auto simp: push_result_def split: option.split intro: quiet_rules)

lemma quiet_push_new [quiet_rules]: "quiet a m \<Longrightarrow> quiet_result a (push_new E m v)"
  by (auto simp: push_new_def split: option.splits intro!: quiet_rules)

lemma quiet_put_local [quiet_rules]: "quiet a m \<Longrightarrow> quiet_result a (put_local E m n v)"
  by (auto simp: put_local_def split: option.splits intro!: quiet_rules dest: same_frame_put)

lemma quiet_push_all: "quiet a m \<Longrightarrow> quiet_result a (push_all E m vs)"
proof (induction vs arbitrary: m)
  case (Cons v vs)
  with quiet_push_value [OF Cons.prems, of E v] show ?case by (auto split: dispatched.split)
qed simp

fun calls :: "Instruction \<Rightarrow> bool" where
  "calls (OP_CALL _ _) = True"
| "calls (OP_AWAIT_CALL _ _) = True"
| "calls (OP_CALL_VALUE _) = True"
| "calls (OP_AWAIT_VALUE _) = True"
| "calls OP_RETURN = True"
| "calls _ = False"

lemma quiet_simple_ops:
  assumes "frames m \<noteq> []"
  shows "quiet_result m (op_const E c m)" "quiet_result m (op_load E n m)" "quiet_result m (op_store E n m)"
    "quiet_result m (op_pop m)" "quiet_result m (op_unary E u m)" "quiet_result m (op_binary E u m)"
    "quiet_result m (op_make_array E k m)" "quiet_result m (op_index_get E m)"
    "quiet_result m (op_make_named E n ns k m)" "quiet_result m (op_match_fail m)"
    "quiet_result m (Done (jump t m) b)" "quiet_result m (op_interpolate E ps m)"
  using quiet_refl [OF assms]
  by (auto simp: op_const_def op_load_def op_store_def op_pop_def op_unary_def op_binary_def op_make_array_def
      op_index_get_def op_make_named_def op_match_fail_def op_interpolate_def Let_def split_beta
      split: option.split intro: quiet_rules)

lemma quiet_value_ops:
  assumes "frames m \<noteq> []"
  shows "quiet_result m (op_make_range E m)" "quiet_result m (op_iter_init E n m)"
    "quiet_result m (op_iter_next E n n2 t m)" "quiet_result m (op_field_get E n m)"
    "quiet_result m (op_match_variant E n t m)" "quiet_result m (op_jump_false t m)"
proof -
  note m = quiet_refl [OF assms]
  show "quiet_result m (op_make_range E m)"
    using m by (auto simp: op_make_range_def Let_def split_beta split: option.split intro: quiet_rules)
  show "quiet_result m (op_iter_init E n m)"
    using m by (auto simp: op_iter_init_def Let_def split_beta split: option.split intro: quiet_rules)
  have iter: "quiet_result m (case v of VIter i \<Rightarrow> f i | _ \<Rightarrow> Done (trap e m) False)" if "\<And>i. quiet_result m (f i)" for v f e
    using m that by (cases v) (auto intro: quiet_rules)
  have item: "quiet_result m (case x of Finished \<Rightarrow> Done (jump t m) True | Not_Iterable \<Rightarrow> Done (trap e m) False
      | Next_Exhausted \<Rightarrow> Exhausted m | Item it b \<Rightarrow> put_local E (m\<lparr>iterators := its it\<rparr>) n2 b)" for x e its
    using m by (cases x) (auto intro: quiet_rules)
  show "quiet_result m (op_iter_next E n n2 t m)"
    using m by (auto simp: op_iter_next_def split: option.split intro!: iter item intro: quiet_rules)
  have pick: "quiet_result m (case v of VRecord x y z \<Rightarrow> f x y z | _ \<Rightarrow> Done (trap e m') False)"
    if "quiet m m'" "\<And>x y z. quiet_result m (f x y z)" for v m' f e
    using that by (cases v) (auto intro: quiet_rules)
  show "quiet_result m (op_field_get E n m)"
    using m by (auto simp: op_field_get_def split_beta split: option.split intro!: pick quiet_rules)
  have pick: "quiet_result m (case v of VVariant x y \<Rightarrow> f x y | _ \<Rightarrow> Done (trap e m') False)"
    if "quiet m m'" "\<And>x y. quiet_result m (f x y)" for v m' f e
    using that by (cases v) (auto intro: quiet_rules)
  show "quiet_result m (op_match_variant E n t m)"
    using m by (auto simp: op_match_variant_def split_beta split: option.split intro!: pick quiet_rules quiet_push_all)
  have pick: "quiet_result m (case v of VBool x \<Rightarrow> f x | _ \<Rightarrow> Done (trap e m') False)"
    if "quiet m m'" "\<And>x. quiet_result m (f x)" for v m' f e
    using that by (cases v) (auto intro: quiet_rules)
  show "quiet_result m (op_jump_false t m)"
    using m by (auto simp: op_jump_false_def split_beta split: option.split intro!: pick quiet_rules)
qed

lemma quiet_dispatch:
  assumes "frames m \<noteq> []" and "\<not> calls i"
  shows "quiet_result m (dispatch E i m)"
  using assms(2) quiet_jump [OF quiet_refl [OF assms(1)]]
  by (cases i) (simp_all add: dispatch_def op_make_record_def op_make_variant_def
      quiet_simple_ops [OF assms(1)] quiet_value_ops [OF assms(1)])

named_theorems service_rules

section \<open>Services leave the frames alone\<close>

text \<open>
  What a service may change: the world, the diagnostic, the coverage flags, the wait it registers and the
  status, which it may only turn into a wait or an exit. Without the server capability an embedded
  execution is never asked to yield.
\<close>

definition serviced :: "'w VMExecution \<Rightarrow> 'w VMExecution \<Rightarrow> bool" where
  "serviced a m \<longleftrightarrow> status m \<in> {status a, VM_WAITING, VM_EXITED} \<and>
     (embedded a \<and> \<not> server_enabled a \<longrightarrow> yield_requested m = yield_requested a) \<and>
     m\<lparr>world := world a, error := error a, fault_kind := fault_kind a, coverage := coverage a, status := status a,
       exit_status := exit_status a, waiting_read := waiting_read a, fake_fail := fake_fail a, tcp := tcp a,
       http := http a, server := server a, root_read := root_read a, console_write := console_write a,
       yield_requested := yield_requested a, http_waiting := http_waiting a, owns_stop_signals := owns_stop_signals a\<rparr> = a"

lemma serviced_refl [simp]: "serviced m m"
  by (simp add: serviced_def)

lemma serviced_updates [service_rules]:
  "serviced a m \<Longrightarrow> serviced a (m\<lparr>world := w\<rparr>)" "serviced a m \<Longrightarrow> serviced a (m\<lparr>error := e\<rparr>)"
  "serviced a m \<Longrightarrow> serviced a (m\<lparr>error := e, fault_kind := k\<rparr>)" "serviced a m \<Longrightarrow> serviced a (m\<lparr>coverage := c\<rparr>)"
  "serviced a m \<Longrightarrow> serviced a (m\<lparr>status := VM_WAITING\<rparr>)" "serviced a m \<Longrightarrow> serviced a (m\<lparr>status := VM_EXITED\<rparr>)"
  "serviced a m \<Longrightarrow> serviced a (m\<lparr>exit_status := n\<rparr>)" "serviced a m \<Longrightarrow> serviced a (m\<lparr>waiting_read := b\<rparr>)"
  "serviced a m \<Longrightarrow> serviced a (m\<lparr>fake_fail := b\<rparr>)" "serviced a m \<Longrightarrow> serviced a (m\<lparr>tcp := s\<rparr>)"
  "serviced a m \<Longrightarrow> serviced a (m\<lparr>http := s\<rparr>)" "serviced a m \<Longrightarrow> serviced a (m\<lparr>server := s\<rparr>)"
  "serviced a m \<Longrightarrow> serviced a (m\<lparr>root_read := s\<rparr>)" "serviced a m \<Longrightarrow> serviced a (m\<lparr>console_write := s\<rparr>)"
  "serviced a m \<Longrightarrow> serviced a (m\<lparr>http_waiting := v\<rparr>)"
  "serviced a m \<Longrightarrow> serviced a (m\<lparr>owns_stop_signals := b\<rparr>)"
  "serviced a m \<Longrightarrow> serviced a (m\<lparr>status := VM_WAITING, waiting_read := b\<rparr>)"
  "serviced a m \<Longrightarrow> serviced a (m\<lparr>status := VM_WAITING, http_waiting := v\<rparr>)"
  "serviced a m \<Longrightarrow> serviced a (m\<lparr>status := VM_EXITED, exit_status := n\<rparr>)"
  by (auto simp: serviced_def)

lemma serviced_yield [service_rules]:
  assumes "serviced a m" and "\<not> (embedded m \<and> \<not> server_enabled m)"
  shows "serviced a (m\<lparr>yield_requested := b\<rparr>)"
  using assms by (auto simp: serviced_def dest: arg_cong [of _ _ embedded] arg_cong [of _ _ server_enabled])

lemma native_granted [simp]:
  "embedded (fst (native_do E x m)) = embedded m" "server_enabled (fst (native_do E x m)) = server_enabled m"
  "embedded (fst (absorb m r)) = embedded m" "server_enabled (fst (absorb m r)) = server_enabled m"
  by (simp_all add: native_do_def absorb_def note_error_def split_beta split: option.split outcome.split)

lemma serviced_trap [service_rules]: "serviced a m \<Longrightarrow> serviced a (trap e m)"
  "serviced a m \<Longrightarrow> serviced a (trap_unless e m)" "serviced a m \<Longrightarrow> serviced a (wait_read m)"
  by (auto simp: trap_def trap_unless_def wait_read_def intro!: serviced_updates)

lemma serviced_native [service_rules]:
  "serviced a m \<Longrightarrow> serviced a (fst (native_do E x m))" "serviced a m \<Longrightarrow> serviced a (fst (native_open E y m))"
  "serviced a m \<Longrightarrow> serviced a (fst (absorb m r))"
  by (auto simp: native_do_def native_open_def absorb_def note_error_def
      split: prod.split option.split outcome.split intro!: serviced_updates)

lemma serviced_signals [service_rules]:
  "serviced a m \<Longrightarrow> serviced a (fst (install_stop_signals E m))" "serviced a m \<Longrightarrow> serviced a (restore_stop_signals E m)"
  "serviced a m \<Longrightarrow> serviced a (enable_server E s m)"
  by (auto simp: install_stop_signals_def restore_stop_signals_def enable_server_def split_beta Let_def
      intro!: service_rules)

lemma serviced_runtime_signals [service_rules]: "serviced a m \<Longrightarrow> serviced a (fst (install_runtime_signals E m))"
  by (auto simp: install_runtime_signals_def intro!: service_rules)

lemma install_granted [simp]:
  "embedded (fst (install_runtime_signals E m)) = embedded m" "server_enabled (fst (install_runtime_signals E m)) = server_enabled m"
  by (simp_all add: install_runtime_signals_def install_stop_signals_def split_beta Let_def)

lemma serviced_ready [service_rules]: "serviced a m \<Longrightarrow> serviced a (configure_ready E s r args m)"
  by (auto simp: configure_ready_def split_beta Let_def split: option.split intro!: service_rules)

lemma serviced_servers [service_rules]:
  "serviced a m \<Longrightarrow> serviced a (service_call E m args)" "serviced a m \<Longrightarrow> serviced a (server_call_mode E m args b)"
  "serviced a m \<Longrightarrow> serviced a (server_call E m args)"
  by (auto simp: service_call_def server_call_def server_call_mode_def split_beta Let_def split: option.split
      intro!: service_rules)

lemma serviced_services [service_rules]:
  "serviced a m \<Longrightarrow> serviced a (console_service E m v b)" "serviced a m \<Longrightarrow> serviced a (filesystem_service E m args b)"
  "serviced a m \<Longrightarrow> serviced a (server_read E m v)" "serviced a m \<Longrightarrow> serviced a (tcp_exchange E m args)"
  "serviced a m \<Longrightarrow> serviced a (http_exchange E m args)" "serviced a m \<Longrightarrow> serviced a (process_exit m v)"
  "serviced a m \<Longrightarrow> serviced a (fst (host_exit E m args))"
  by (auto simp: console_service_def filesystem_service_def server_read_def tcp_exchange_def http_exchange_def
      process_exit_def host_exit_def split_beta Let_def split: option.split intro!: service_rules)

lemma serviced_fake_read [service_rules]: "serviced a m \<Longrightarrow> serviced a (fake_read E m v)"
  by (cases v) (auto simp: fake_read_def split_beta Let_def intro!: service_rules)

lemma serviced_http [service_rules]:
  "serviced a m \<Longrightarrow> serviced a (fst (http_listen E m b args))"
  "serviced a m \<Longrightarrow> serviced a (fst (embedded_builtin E m e args))"
  "serviced a m \<Longrightarrow> serviced a (fst (builtin_call E m n args))"
  by (auto simp: http_listen_def embedded_builtin_def builtin_call_def split_beta Let_def
      split: option.split Handler.split intro!: service_rules)

lemma serviced_shutdown [service_rules]: "serviced a m \<Longrightarrow> serviced a (fst (http_shutdown E m b v))"
  by (cases v) (auto simp: http_shutdown_def split_beta Let_def intro!: service_rules)

section \<open>Entering functions\<close>

definition entered :: "'w VMExecution \<Rightarrow> nat option \<Rightarrow> 'w VMExecution \<Rightarrow> bool" where
  "entered a fn m \<longleftrightarrow>
     m\<lparr>error := error a, coverage := coverage a, frames := frames a, frame_capacity := frame_capacity a\<rparr> = a \<and>
     (frames m = frames a \<and> error m \<noteq> None \<or> (\<exists>i f. fn = Some i \<and> frames m = f # frames a \<and> code f = i))"

lemma code_install_params: "code (fst (install_params h f ps args)) = code f"
proof (induction h f ps args rule: install_params.induct)
  case (2 h frame p ps v args)
  then show ?case
    by (auto split: option.split dest!: same_frame_put simp: same_frame_def)
qed auto

text \<open>The three ways a function is entered: refused, entered with a bad argument, entered.\<close>

lemma frame_push_cases:
  obtains (refused) e where "frame_push E m fn args = (m\<lparr>error := Some e\<rparr>, False)"
    | (argument) i f c e where "fn = Some i" "code f = i"
        "frame_push E m fn args = (m\<lparr>frames := f # frames m, frame_capacity := c, error := Some e\<rparr>, False)"
    | (entered) i f c where "fn = Some i" "code f = i"
        "frame_push E m fn args = (frame_cover i (m\<lparr>frames := f # frames m, frame_capacity := c\<rparr>), True)"
proof (cases fn)
  case None
  then show thesis by (intro refused) (simp add: frame_push_def)
next
  case (Some i)
  let ?f = "functions (program m) ! i" and ?a = "case args of Some a \<Rightarrow> a | None \<Rightarrow> []"
  obtain f p where inst: "install_params (heap_of E m) (new_frame i) (params ?f) ?a = (f, p)" by fastforce
  have code: "code f = i"
    using code_install_params [of "heap_of E m" "new_frame i" "params ?f" ?a] unfolding inst by (simp add: new_frame_def)
  show thesis
  proof (cases "params ?f \<noteq> [] \<and> args = None \<or> frame_room E m = None")
    case True
    then have "\<exists>e. frame_push E m fn args = (m\<lparr>error := Some e\<rparr>, False)"
      by (cases "params ?f \<noteq> [] \<and> args = None") (auto simp: frame_push_def Some Let_def)
    then show thesis using refused by blast
  next
    case False
    then obtain c where "frame_room E m = Some c" by auto
    with False inst have "frame_push E m fn args =
        (case p of Some e \<Rightarrow> (m\<lparr>frames := f # frames m, frame_capacity := c, error := Some e\<rparr>, False)
         | None \<Rightarrow> (frame_cover i (m\<lparr>frames := f # frames m, frame_capacity := c\<rparr>), True))"
      by (auto simp: frame_push_def Some split: option.split)
    then show thesis using argument [OF Some code] entered [OF Some code] by (cases p) simp_all
  qed
qed

lemma frame_cover_fields:
  "(frame_cover i m)\<lparr>error := e, coverage := c, frames := fs, frame_capacity := k\<rparr> =
     m\<lparr>error := e, coverage := c, frames := fs, frame_capacity := k\<rparr>"
  "error (frame_cover i m) = error m"
  "frames m = f # fs \<Longrightarrow> \<exists>k. frames (frame_cover i m) = f\<lparr>coverage_function := k\<rparr> # fs"
  by (auto simp: frame_cover_def set_top_def top_frame_def split_beta Let_def split: option.split
      intro: exI [of _ "coverage_function f"])

lemma frame_push_entered: "entered m fn (fst (frame_push E m fn args))"
proof (rule frame_push_cases [of E m fn args])
  fix i f c assume a: "fn = Some i" "code f = i"
    "frame_push E m fn args = (frame_cover i (m\<lparr>frames := f # frames m, frame_capacity := c\<rparr>), True)"
  obtain k where "frames (frame_cover i (m\<lparr>frames := f # frames m, frame_capacity := c\<rparr>)) =
      f\<lparr>coverage_function := k\<rparr> # frames m"
    using frame_cover_fields(3) [of "m\<lparr>frames := f # frames m, frame_capacity := c\<rparr>"] by auto
  with a show ?thesis by (auto simp: entered_def frame_cover_fields(1))
qed (auto simp: entered_def)

lemma frame_push_ok:
  assumes "snd (frame_push E m fn args)"
  shows "error (fst (frame_push E m fn args)) = error m" and "frames (fst (frame_push E m fn args)) \<noteq> []"
proof -
  obtain i f c where p: "frame_push E m fn args = (frame_cover i (m\<lparr>frames := f # frames m, frame_capacity := c\<rparr>), True)"
    using assms by (cases rule: frame_push_cases [of E m fn args]) auto
  then show "error (fst (frame_push E m fn args)) = error m" by (simp add: frame_cover_fields(2))
  show "frames (fst (frame_push E m fn args)) \<noteq> []"
    using frame_cover_fields(3) [of "m\<lparr>frames := f # frames m, frame_capacity := c\<rparr>" f "frames m" i] p by auto
qed

lemma invoke_connection_cases:
  "invoke_connection E m args = (m', called) \<Longrightarrow>
     if called then \<exists>m1 i as. serviced m m1 \<and> status m1 = status m \<and> m' = fst (frame_push E m1 (Some i) (Some as)) \<and>
       (\<exists>w e. connecting E args (world m) = (w, Some (i, as), e) \<and> m1 = note_error e (m\<lparr>world := w\<rparr>))
     else serviced m m'"
proof -
  obtain w t e where c: "connecting E args (world m) = (w, t, e)" by (metis prod_cases3)
  have "serviced m (note_error e (m\<lparr>world := w\<rparr>))" "status (note_error e (m\<lparr>world := w\<rparr>)) = status m"
    by (auto simp: note_error_def split: option.split intro!: service_rules)
  then show "invoke_connection E m args = (m', called) \<Longrightarrow> ?thesis"
    by (auto simp: invoke_connection_def c Let_def split: option.splits)
qed

definition only_serviced :: "'w VMExecution \<Rightarrow> 'w VMExecution \<times> Value option \<times> bool \<Rightarrow> bool" where
  "only_serviced a r \<longleftrightarrow> serviced a (fst r) \<and> \<not> snd (snd r)"

lemma only_serviced_rules:
  "only_serviced a r \<Longrightarrow> only_serviced a s \<Longrightarrow> only_serviced a (if c then r else s)"
  "serviced a m \<Longrightarrow> only_serviced a (m, v, False)"
  "serviced a (fst p) \<Longrightarrow> only_serviced a (case p of (m, v) \<Rightarrow> (m, v, False))"
  "serviced a (fst q) \<Longrightarrow> only_serviced a (case q of (m, ok) \<Rightarrow> (if ok then wait_read m else m, None, False))"
  "(\<And>w r. only_serviced a (f w r)) \<Longrightarrow> only_serviced a (case z of (w, r) \<Rightarrow> f w r)"
  by (auto simp: only_serviced_def split_beta intro: service_rules)

lemma serviced_gap: "serviced m (if c then m\<lparr>coverage := x\<rparr> else m)"
  by (simp add: serviced_updates)

lemma execution_builtin_serviced:
  assumes "\<not> streq (bname e) ''http_connection_invoke''"
  shows "only_serviced m (execution_builtin E m e args)"
  unfolding execution_builtin_def Let_def if_not_P [OF assms]
  by (intro only_serviced_rules service_rules serviced_gap serviced_refl)

text \<open>A builtin either enters a frame, which only an HTTP connection does, or is a service.\<close>

lemma execution_builtin_cases:
  assumes "execution_builtin E m e args = (m', v, called)"
  obtains (frame) m1 i as where "called" "serviced m m1" "status m1 = status m"
      "m' = fst (frame_push E m1 (Some i) (Some as))" "\<exists>w x. connecting E args (world m) = (w, Some (i, as), x) \<and> m1 = note_error x (m\<lparr>world := w\<rparr>)"
      "streq (bname e) ''http_connection_invoke''"
    | (service) "\<not> called" "serviced m m'"
proof (cases "streq (bname e) ''http_connection_invoke'' \<and> called")
  case True
  then have "\<not> streq (bname e) ''http_connection_continue''" "\<not> streq (bname e) ''http_listen_ordinary''"
    "\<not> streq (bname e) ''http_listen_contextual''" "\<not> streq (bname e) ''http_close''" "\<not> streq (bname e) ''http_destroy''"
    by (auto simp: streq_cstr)
  with True assms have "invoke_connection E m args = (m', called)"
    by (auto simp: execution_builtin_def Let_def split_beta prod_eq_iff)
  from invoke_connection_cases [OF this] True frame show thesis by auto
next
  case False
  have "\<not> called \<and> serviced m m'"
  proof (cases "streq (bname e) ''http_connection_invoke''")
    case True
    with False assms have "\<not> called" by blast
    from True have "\<not> streq (bname e) ''http_connection_continue''" "\<not> streq (bname e) ''http_listen_ordinary''"
      "\<not> streq (bname e) ''http_listen_contextual''" "\<not> streq (bname e) ''http_close''" "\<not> streq (bname e) ''http_destroy''"
      by (auto simp: streq_cstr)
    with True assms have "invoke_connection E m args = (m', called)"
      by (auto simp: execution_builtin_def Let_def split_beta prod_eq_iff)
    from invoke_connection_cases [OF this] \<open>\<not> called\<close> show ?thesis by simp
  next
    case False
    from execution_builtin_serviced [OF this, of m E args] assms show ?thesis by (simp add: only_serviced_def)
  qed
  with service show thesis by blast
qed

section \<open>Calls\<close>

lemma stack_pop_from:
  assumes "stack_pop m = (m', Some v)" and "frames m \<noteq> []"
  shows "error m' = error m" and "set (stack (top_frame m)) = insert v (set (stack (top_frame m')))"
  using assms by (auto simp: stack_pop_def set_top_def top_frame_def split: list.splits)

lemma stack_pop_error: "stack_pop m = (m', None) \<Longrightarrow> error m' \<noteq> None"
  by (auto simp: stack_pop_def split: list.splits)

lemma stack_pop_frames: "frames m \<noteq> [] \<Longrightarrow> frames (fst (stack_pop m)) \<noteq> []"
  by (auto simp: stack_pop_def set_top_def split: list.split)

lemma pop_many_length: "length (snd (pop_many n m)) = n"
  by (induction n arbitrary: m) (simp_all add: split_beta Let_def)

lemma pop_many_error: "error m \<noteq> None \<Longrightarrow> error (fst (pop_many n m)) \<noteq> None"
proof (induction n arbitrary: m)
  case (Suc n)
  have "error (fst (stack_pop m)) \<noteq> None"
    using Suc.prems by (auto simp: stack_pop_def set_top_def split: list.split)
  with Suc.IH show ?case by (simp add: split_beta Let_def)
qed simp

lemma pop_many_from:
  assumes "frames m \<noteq> []" and "error (fst (pop_many n m)) = None"
  shows "set (snd (pop_many n m)) \<subseteq> set (stack (top_frame m)) \<and>
    set (stack (top_frame (fst (pop_many n m)))) \<subseteq> set (stack (top_frame m))"
  using assms
proof (induction n arbitrary: m)
  case (Suc n)
  obtain m1 x where pop: "stack_pop m = (m1, x)" by fastforce
  have e: "error (fst (pop_many n m1)) = None" using Suc.prems(2) pop by (simp add: split_beta Let_def)
  then obtain v where x: "x = Some v" using pop stack_pop_error [of m m1] pop_many_error [of m1 n] by (cases x) auto
  note src = stack_pop_from [OF pop [unfolded x] Suc.prems(1)]
  have "frames m1 \<noteq> []" using stack_pop_frames [OF Suc.prems(1)] pop by simp
  from Suc.IH [OF this e] src(2) show ?case by (auto simp: pop x split_beta Let_def)
qed simp

text \<open>
  A call is refused inside its frame, runs a builtin, or enters a function; in the last two cases the
  call edge is legal and the operands come from the stack.
\<close>

definition native_call :: "'w VMExecution \<Rightarrow> bool \<Rightarrow> Builtin \<Rightarrow> Value list \<Rightarrow> 'w VMExecution \<Rightarrow> bool" where
  "native_call m awaited e args m1 \<longleftrightarrow> quiet m m1 \<and> error m1 = None \<and> e \<in> set BUILTINS \<and> length args = arity e \<and>
     set args \<subseteq> set (stack (top_frame m)) \<and>
     verify_call_edge (caller_function m) None (bpure e) (builtin_is_async (Some e)) (builtin_is_local_state (Some e)) awaited"

definition code_call :: "'w VMExecution \<Rightarrow> bool \<Rightarrow> nat \<Rightarrow> Value list \<Rightarrow> 'w VMExecution \<Rightarrow> bool" where
  "code_call m awaited i args m1 \<longleftrightarrow> quiet m m1 \<and> error m1 = None \<and> i < length (functions (program m)) \<and>
     length args = length (params (functions (program m) ! i)) \<and> set args \<subseteq> set (stack (top_frame m)) \<and>
     verify_call_edge (caller_function m) (Some (functions (program m) ! i)) False False False awaited"

lemma quiet_program: "quiet a m \<Longrightarrow> program m = program a"
  by (auto simp: quiet_def dest: arg_cong [of _ _ program])

lemma edge_code_flags: "verify_call_edge f (Some g) a b c w = verify_call_edge f (Some g) False False False w"
  by (simp add: verify_call_edge_def)

lemma op_call_cases:
  assumes "frames m \<noteq> []"
  obtains (refused) "quiet_result m (op_call E name n w m)"
    | (native) e args m1 where "native_call m w e args m1"
        "op_call E name n w m = after_builtin E (execution_builtin E m1 e args)"
    | (code) i args m1 where "code_call m w i args m1"
        "op_call E name n w m = Done (fst (frame_push E m1 (Some i) (Some (map Some args)))) False"
proof (cases "n \<noteq> 0 \<and> \<not> heap_of E m (Slots n)")
  case True
  then show thesis using refused quiet_refl [OF assms] by (simp add: op_call_def Let_def)
next
  case False
  obtain m1 args where pop: "pop_many n m = (m1, args)" by fastforce
  note q = quiet_pop_many [OF quiet_refl [OF assms], of n, unfolded pop fst_conv]
  show thesis
  proof (cases "error m1 = None")
    case False
    with \<open>\<not> (n \<noteq> 0 \<and> _)\<close> q show thesis by (intro refused) (auto simp: op_call_def Let_def pop)
  next
    case ok: True
    note src = pop_many_from [OF assms, of n, unfolded pop fst_conv snd_conv, OF ok, THEN conjunct1]
      pop_many_length [of n m, unfolded pop snd_conv]
    note p = quiet_program [OF q]
    let ?bad = "op_call E name n w m = Done (trap ''VM trap: invalid async call effect or signature'' m1) False"
    show thesis
    proof (cases "builtin name")
      case (Some e)
      with False ok pop have "?bad \<or> n = arity e \<and>
          verify_call_edge (caller_function m) None (bpure e) (builtin_is_async (Some e)) (builtin_is_local_state (Some e)) w \<and>
          op_call E name n w m = after_builtin E (execution_builtin E m1 e args)"
        by (auto simp: op_call_def Let_def)
      then show thesis
        using refused quiet_trap [OF q] native [of e args m1] q ok src Some builtin_iff [of name e]
        by (auto simp: native_call_def)
    next
      case None
      with False ok pop have "?bad \<or> (\<exists>i. program_function (program m1) name = Some i \<and>
          n = length (params (functions (program m1) ! i)) \<and>
          verify_call_edge (caller_function m) (Some (functions (program m1) ! i)) False (builtin_is_async None)
            (builtin_is_local_state None) w \<and>
          op_call E name n w m = Done (fst (frame_push E m1 (Some i) (Some (map Some args)))) False)"
        by (cases "program_function (program m1) name") (auto simp: op_call_def Let_def)
      then show thesis
      proof (elim disjE exE conjE)
        assume ?bad
        then show thesis using refused quiet_trap [OF q] by simp
      next
        fix i assume "program_function (program m1) name = Some i" "n = length (params (functions (program m1) ! i))"
          "verify_call_edge (caller_function m) (Some (functions (program m1) ! i)) False (builtin_is_async None)
            (builtin_is_local_state None) w"
          "op_call E name n w m = Done (fst (frame_push E m1 (Some i) (Some (map Some args)))) False"
        with q ok src p show thesis
          using program_function_range by (intro code) (auto simp: code_call_def intro: edge_code_flags [THEN iffD1])
      qed
    qed
  qed
qed

lemma call_target_cases:
  assumes "quiet m m1" and "error m1 = None" and "set args \<subseteq> set (stack (top_frame m))" and "f = caller_function m"
  obtains (refused) "quiet_result m (call_target E m1 f name args w)"
    | (native) e where "native_call m w e args m1"
        "call_target E m1 f name args w = after_builtin E (execution_builtin E m1 e args)"
    | (code) i where "code_call m w i args m1"
        "call_target E m1 f name args w = Done (fst (frame_push E m1 (Some i) (Some (map Some args)))) False"
proof -
  note p = quiet_program [OF assms(1)]
  have bad: "quiet_result m (Done (trap e m1) False)" for e using quiet_trap [OF assms(1)] by simp
  show thesis
  proof (cases "builtin (chars name)")
    case (Some e)
    then have "(\<exists>x. call_target E m1 f name args w = Done (trap x m1) False) \<or> length args = arity e \<and>
        verify_call_edge f None (bpure e) (builtin_is_async (Some e)) (builtin_is_local_state (Some e)) w \<and>
        call_target E m1 f name args w = after_builtin E (execution_builtin E m1 e args)"
      by (auto simp: call_target_def Let_def)
    then show thesis
      using refused bad native [of e] assms Some builtin_iff [of "chars name" e] by (auto simp: native_call_def)
  next
    case None
    then have "(\<exists>x. call_target E m1 f name args w = Done (trap x m1) False) \<or>
        (\<exists>i. program_function (program m1) (chars name) = Some i \<and> length args = length (params (functions (program m1) ! i)) \<and>
          verify_call_edge f (Some (functions (program m1) ! i)) False (builtin_is_async None)
            (builtin_is_local_state None) w \<and>
          call_target E m1 f name args w = Done (fst (frame_push E m1 (Some i) (Some (map Some args)))) False)"
      by (cases "program_function (program m1) (chars name)") (auto simp: call_target_def Let_def)
    then show thesis
    proof (elim disjE exE conjE)
      fix x assume "call_target E m1 f name args w = Done (trap x m1) False"
      then show thesis using refused bad by simp
    next
      fix i assume "program_function (program m1) (chars name) = Some i"
        "length args = length (params (functions (program m1) ! i))"
        "verify_call_edge f (Some (functions (program m1) ! i)) False (builtin_is_async None) (builtin_is_local_state None) w"
        "call_target E m1 f name args w = Done (fst (frame_push E m1 (Some i) (Some (map Some args)))) False"
      with assms p show thesis
        using program_function_range by (intro code) (auto simp: code_call_def intro: edge_code_flags [THEN iffD1])
    qed
  qed
qed

lemma op_call_value_cases:
  assumes "frames m \<noteq> []"
  obtains (refused) "quiet_result m (op_call_value E n w m)"
    | (native) e args m1 where "native_call m w e args m1"
        "op_call_value E n w m = after_builtin E (execution_builtin E m1 e args)"
    | (code) i args m1 where "code_call m w i args m1"
        "op_call_value E n w m = Done (fst (frame_push E m1 (Some i) (Some (map Some args)))) False"
proof (cases "n \<noteq> 0 \<and> \<not> heap_of E m (Slots n)")
  case True
  then show thesis using refused quiet_refl [OF assms] by (simp add: op_call_value_def Let_def)
next
  case False
  obtain m0 args where pop: "pop_many n m = (m0, args)" by fastforce
  obtain m1 callable where pop1: "stack_pop m0 = (m1, callable)" by fastforce
  have q0: "quiet m m0" using quiet_pop_many [OF quiet_refl [OF assms], of n] pop by simp
  have q: "quiet m m1" using quiet_pop [OF q0] pop1 by simp
  show thesis
  proof (cases "error m1 = None")
    case False
    with \<open>\<not> (n \<noteq> 0 \<and> _)\<close> q show thesis by (intro refused) (auto simp: op_call_value_def Let_def pop pop1)
  next
    case ok: True
    then obtain v where v: "callable = Some v" using pop1 stack_pop_error [of m0 m1] by (cases callable) auto
    have "error m0 = None" using stack_pop_from(1) [OF pop1 [unfolded v] quiet_frames [OF q0]] ok by simp
    then have src: "set args \<subseteq> set (stack (top_frame m))" using pop_many_from [OF assms, of n] pop by simp
    show thesis
    proof (cases "\<exists>s. v = VStr s \<and> heap_of E m1 (Chars (u64 (length (data s) + 1)))")
      case True
      then obtain s where s: "v = VStr s" "heap_of E m1 (Chars (u64 (length (data s) + 1)))" by blast
      have eq: "op_call_value E n w m = call_target E m1 (caller_function m) (data s) args w"
        using False ok v s by (auto simp: op_call_value_def Let_def pop pop1)
      show thesis
        by (rule call_target_cases [OF q ok src refl, of E "data s" w]) (use refused native code eq in auto)
    next
      case bad: False
      have "quiet_result m (op_call_value E n w m)"
        using False ok v bad q quiet_trap [OF q]
        by (cases v) (auto simp: op_call_value_def Let_def pop pop1)
      then show thesis by (rule refused)
    qed
  qed
qed

text \<open>The three shapes for any calling opcode, and what a return does.\<close>

fun awaits :: "Instruction \<Rightarrow> bool" where
  "awaits (OP_AWAIT_CALL _ _) = True"
| "awaits (OP_AWAIT_VALUE _) = True"
| "awaits _ = False"

lemma dispatch_cases:
  assumes "frames m \<noteq> []"
  obtains (quiet) "i \<noteq> OP_RETURN" "quiet_result m (dispatch E i m)"
    | (native) e args m1 where "native_call m (awaits i) e args m1"
        "dispatch E i m = after_builtin E (execution_builtin E m1 e args)"
    | (code) k args m1 where "code_call m (awaits i) k args m1"
        "dispatch E i m = Done (fst (frame_push E m1 (Some k) (Some (map Some args)))) False"
    | (return) "i = OP_RETURN" "dispatch E i m = op_return E m"
proof (cases i)
  case (OP_CALL n k)
  show thesis
    by (rule op_call_cases [OF assms, of E n k False]) (use OP_CALL quiet native code in \<open>auto simp: dispatch_def\<close>)
next
  case (OP_AWAIT_CALL n k)
  show thesis
    by (rule op_call_cases [OF assms, of E n k True]) (use OP_AWAIT_CALL quiet native code in \<open>auto simp: dispatch_def\<close>)
next
  case (OP_CALL_VALUE k)
  show thesis
    by (rule op_call_value_cases [OF assms, of E k False]) (use OP_CALL_VALUE quiet native code in \<open>auto simp: dispatch_def\<close>)
next
  case (OP_AWAIT_VALUE k)
  show thesis
    by (rule op_call_value_cases [OF assms, of E k True]) (use OP_AWAIT_VALUE quiet native code in \<open>auto simp: dispatch_def\<close>)
next
  case OP_RETURN
  then show thesis using return by (simp add: dispatch_def)
qed (use quiet quiet_dispatch [OF assms, of i E] in simp_all)

text \<open>A return from the last frame completes the execution; another delivers its value to the caller.\<close>

lemma op_return_cases:
  assumes "frames m \<noteq> []"
  obtains (refused) "quiet_result m (op_return E m)"
    | (last) v m1 where "quiet m m1" "v \<in> set (stack (top_frame m))" "tl (frames m) = []" "error m1 = error m"
        "is_async (caller_function m) \<and> streq (fname (caller_function m)) ''main'' \<longrightarrow> kind v = V_UNIT"
        "op_return E m = Done (m1\<lparr>frames := [], result := Some v, status := VM_COMPLETED\<rparr>) False"
    | (caller) v m1 where "quiet m m1" "v \<in> set (stack (top_frame m))" "tl (frames m) \<noteq> []" "error m1 = error m"
        "op_return E m = (case push_value E (m1\<lparr>frames := tl (frames m)\<rparr>) v of
           Exhausted m \<Rightarrow> Exhausted m | Done m b \<Rightarrow> Done (coverage_complete_pending m) False)"
proof -
  obtain m1 x where pop: "stack_pop m = (m1, x)" by fastforce
  have q: "quiet m m1" using quiet_pop [OF quiet_refl [OF assms]] pop by (metis fst_conv)
  then have tl: "tl (frames m1) = tl (frames m)" by (simp add: quiet_def)
  show thesis
  proof (cases x)
    case None
    then show thesis using q by (intro refused) (simp add: op_return_def pop Let_def)
  next
    case (Some v)
    note src = stack_pop_from [OF pop [unfolded Some] assms]
    let ?main = "is_async (caller_function m) \<and> streq (fname (caller_function m)) ''main''"
    consider "?main \<and> kind v \<noteq> V_UNIT" | "\<not> (?main \<and> kind v \<noteq> V_UNIT)" "tl (frames m) = []"
      | "\<not> (?main \<and> kind v \<noteq> V_UNIT)" "tl (frames m) \<noteq> []" by blast
    then show thesis
    proof cases
      case 1
      then show thesis using quiet_trap [OF q] by (intro refused) (simp add: op_return_def pop Some Let_def)
    next
      case 2
      then show thesis using q src tl
        by (intro last [of m1 v]) (auto simp: op_return_def pop Some Let_def coverage_complete_pending_def split: option.split)
    next
      case 3
      then show thesis using q src tl
        by (intro caller [of m1 v]) (auto simp: op_return_def pop Some Let_def)
    qed
  qed
qed

end
