(* ===== verification/Advance.thy ===== *)
theory Advance
  imports Steps
begin

text \<open>
  The contract of \<open>vm_execution_advance\<close>, and invariants of executions. A property of the running machine
  that every dispatch keeps is kept by every budgeted run; the locale states what has to be shown of it.
\<close>

section \<open>What no dispatch changes\<close>

definition config where
  "config m = ((program m, program_address m, execution m, coverage_run m, clock m, running m, embedded m),
     host_call m, print_wait m, read_wait m, network_enabled m, server_read_enabled m, console_enabled m,
     filesystem_enabled m, server_enabled m)"

lemma config_eqD:
  assumes "config m = config a"
  shows "program m = program a" "clock m = clock a" "running m = running a" "embedded m = embedded a"
    "server_enabled m = server_enabled a"
  using assms by (simp_all add: config_def)

lemma config_quiet: "quiet a m \<Longrightarrow> config m = config a"
  by (auto simp: quiet_def config_def dest: arg_cong [of _ _ config])

lemma config_serviced: "serviced a m \<Longrightarrow> config m = config a"
  unfolding serviced_def by (elim conjE, drule arg_cong [where f = config]) (simp add: config_def)

lemma config_entered: "entered a fn m \<Longrightarrow> config m = config a"
  by (auto simp: entered_def config_def dest: arg_cong [of _ _ config])

lemma config_updates [simp]:
  "config (m\<lparr>frames := fs\<rparr>) = config m" "config (m\<lparr>result := r\<rparr>) = config m" "config (m\<lparr>status := s\<rparr>) = config m"
  "config (m\<lparr>coverage := c\<rparr>) = config m" "config (m\<lparr>yield_requested := b\<rparr>) = config m" "config (m\<lparr>error := e\<rparr>) = config m"
  "config (set_top f m) = config m" "config (coverage_complete_pending m) = config m"
  "config (coverage_tail p n d b m) = config m" "config (trap x m) = config m"
  by (auto simp: config_def set_top_def coverage_complete_pending_def coverage_tail_def trap_def Let_def
      split: option.split list.split)

lemma frames_serviced: "serviced a m \<Longrightarrow> frames m = frames a"
  unfolding serviced_def by (elim conjE, drule arg_cong [where f = frames]) simp

text \<open>After a builtin, the machine is the one it left, or that with the value pushed.\<close>

lemma after_builtin_cases:
  assumes "frames m \<noteq> []"
  obtains (left) "outcome_machine (after_builtin E (m, v, called)) = m"
    | (pushed) x where "v = Some x" "\<not> called" "status m = VM_YIELDED"
        "after_builtin E (m, v, called) = push_value E m x"
  by (cases "\<not> called \<and> status m = VM_YIELDED"; cases v) (auto simp: after_builtin_def push_result_def)

lemma after_builtin_quiet:
  "frames m \<noteq> [] \<Longrightarrow> quiet m (outcome_machine (after_builtin E (m, v, called)))"
  by (rule after_builtin_cases [of m E v called]) (auto intro: quiet_refl quiet_push_value)

lemma entered_frames: "entered a fn m \<Longrightarrow> frames a \<noteq> [] \<Longrightarrow> frames m \<noteq> []"
  by (auto simp: entered_def)

lemma frame_push_kept:
  "config (fst (frame_push E m fn args)) = config m"
  "frames m \<noteq> [] \<Longrightarrow> frames (fst (frame_push E m fn args)) \<noteq> []"
  using config_entered [OF frame_push_entered] entered_frames [OF frame_push_entered] by blast+

lemma push_value_status:
  "status (outcome_machine (push_value E m v)) = status m"
  by (simp add: push_value_def set_top_def split: option.split)

lemma quiet_status: "quiet a m \<Longrightarrow> status m = status a"
  by (auto simp: quiet_def dest: arg_cong [of _ _ status])

lemma entered_status: "entered a fn m \<Longrightarrow> status m = status a \<and> result m = result a"
  by (auto simp: entered_def dest: arg_cong [of _ _ status] arg_cong [of _ _ result])

lemma serviced_status: "serviced a m \<Longrightarrow> status m \<in> {status a, VM_WAITING, VM_EXITED} \<and> result m = result a"
  unfolding serviced_def by (elim conjE, drule arg_cong [where f = result]) simp

section \<open>Invariants of a dispatch\<close>

text \<open>
  What has to be shown of a property for every dispatch to keep it: opcodes inside a frame, services, the
  two ways to enter a function, and the two ways to return from one.
\<close>

locale dispatch_invariant =
  fixes E :: "'w Native" and I :: "'w VMExecution \<Rightarrow> bool"
  assumes quiet: "quiet a b \<Longrightarrow> I a \<Longrightarrow> status a = VM_YIELDED \<Longrightarrow> I b"
    and native: "native_call m w x args a \<Longrightarrow> I m \<Longrightarrow> I a \<Longrightarrow> status a = VM_YIELDED \<Longrightarrow> serviced a b \<Longrightarrow>
      execution_builtin E a x args = (b, r, False) \<Longrightarrow> I b"
    and invoked: "native_call m w x args a \<Longrightarrow> streq (bname x) ''http_connection_invoke'' \<Longrightarrow> I m \<Longrightarrow> I a \<Longrightarrow>
      status a = VM_YIELDED \<Longrightarrow> serviced a b \<Longrightarrow> status b = VM_YIELDED \<Longrightarrow>
      \<exists>u y. connecting E args (world a) = (u, Some (k, as), y) \<and> b = note_error y (a\<lparr>world := u\<rparr>) \<Longrightarrow>
      I (fst (frame_push E b (Some k) (Some as)))"
    and code: "code_call m w k args a \<Longrightarrow> I m \<Longrightarrow> I a \<Longrightarrow> status a = VM_YIELDED \<Longrightarrow>
      I (fst (frame_push E a (Some k) (Some (map Some args))))"
    and last: "I a \<Longrightarrow> status a = VM_YIELDED \<Longrightarrow> error a = None \<Longrightarrow>
      I (a\<lparr>frames := [], result := Some v, status := VM_COMPLETED\<rparr>)"
    and caller: "I a \<Longrightarrow> status a = VM_YIELDED \<Longrightarrow> tl (frames a) \<noteq> [] \<Longrightarrow> I (a\<lparr>frames := tl (frames a)\<rparr>)"
    and delivered: "I a \<Longrightarrow> I (coverage_complete_pending a)"
begin

lemma builtin_kept:
  assumes "native_call m w x args a" and "I m" and "status m = VM_YIELDED"
  shows "I (outcome_machine (after_builtin E (execution_builtin E a x args)))"
proof -
  obtain b v c where b: "execution_builtin E a x args = (b, v, c)" by (metis prod_cases3)
  have q: "quiet m a" using assms(1) by (simp add: native_call_def)
  note a = quiet [OF q assms(2,3)] quiet_status [OF q, unfolded assms(3)] quiet_frames [OF q]
  have "I b \<and> frames b \<noteq> []"
    using b
  proof (cases rule: execution_builtin_cases)
    case (frame n k as)
    with invoked [OF assms(1) frame(6) assms(2) a(1,2) frame(2) _ frame(5)] a frames_serviced [OF frame(2)] show ?thesis
      by (simp add: frame_push_kept)
  next
    case service
    with native [OF assms(1,2) a(1,2)] b a(3) frames_serviced [of a b] show ?thesis by auto
  qed
  with quiet [OF after_builtin_quiet] show ?thesis
    by (cases "status b = VM_YIELDED") (auto simp: b after_builtin_def)
qed

lemma return_kept:
  assumes "frames m \<noteq> []" and "I m" and "status m = VM_YIELDED" and "error m = None"
  shows "I (outcome_machine (op_return E m))"
  using assms(1)
proof (cases rule: op_return_cases [where E = E])
  case refused
  then show ?thesis using quiet assms(2,3) by blast
next
  case (last v a)
  then show ?thesis
    using dispatch_invariant.last [OF dispatch_invariant_axioms quiet [OF last(1) assms(2,3)]] quiet_status [OF last(1)] assms(3,4)
    by simp
next
  case (caller v a)
  let ?n = "a\<lparr>frames := tl (frames m)\<rparr>"
  have tl: "tl (frames a) = tl (frames m)" using caller(1) by (simp add: quiet_def)
  have a: "status a = VM_YIELDED" using quiet_status [OF caller(1)] assms(3) by simp
  have "I ?n"
    using dispatch_invariant.caller [OF dispatch_invariant_axioms quiet [OF caller(1) assms(2,3)] a] caller(3) tl by simp
  then have "I (outcome_machine (push_value E ?n v))"
    using quiet [OF quiet_push_value [OF quiet_refl]] caller(3) a by simp
  with delivered show ?thesis by (cases "push_value E ?n v") (simp_all add: caller(5))
qed

lemma dispatch_kept:
  assumes "frames m \<noteq> []" and "I m" and "status m = VM_YIELDED" and "error m = None"
  shows "I (outcome_machine (dispatch E i m))"
  using assms(1)
proof (cases rule: dispatch_cases [where i = i and E = E])
  case (code k args a)
  have q: "quiet m a" using code(1) by (simp add: code_call_def)
  show ?thesis
    using dispatch_invariant.code [OF dispatch_invariant_axioms code(1) assms(2) quiet [OF q assms(2,3)]] quiet_status [OF q] assms(3)
    by (simp add: code(2))
qed (use dispatch_invariant.quiet [OF dispatch_invariant_axioms] builtin_kept return_kept assms in auto)

end

text \<open>The configuration of an execution is such a property.\<close>

interpretation config_kept: dispatch_invariant E "\<lambda>m. config m = c"
  by unfold_locales (simp_all add: config_quiet config_serviced frame_push_kept)

lemmas dispatch_config = config_kept.dispatch_kept [OF _ refl]

text \<open>An exhausted allocator is noticed before the status changes.\<close>

lemma after_builtin_exhausted:
  "after_builtin E (m, v, c) = Exhausted n \<Longrightarrow> n = m \<and> status m = VM_YIELDED"
  by (auto simp: after_builtin_def push_result_def push_value_def split: if_splits option.splits)

lemma dispatch_exhausted:
  assumes "frames m \<noteq> []" and "status m = VM_YIELDED" and x: "dispatch E i m = Exhausted n"
  shows "status n = VM_YIELDED"
  using assms(1)
proof (cases rule: dispatch_cases [where i = i and E = E])
  case quiet
  then show ?thesis using assms by (simp add: quiet_status)
next
  case (native e args m1)
  obtain m2 v c where b: "execution_builtin E m1 e args = (m2, v, c)" by (metis prod_cases3)
  then show ?thesis using native(2) x after_builtin_exhausted [of E m2 v c n] by simp
next
  case (code k args m1)
  then show ?thesis using x by simp
next
  case return
  show ?thesis
    using assms(1)
  proof (cases rule: op_return_cases [where E = E])
    case refused
    then show ?thesis using assms return(2) by (simp add: quiet_status)
  next
    case (last v m1)
    then show ?thesis using x return(2) by simp
  next
    case (caller v m1)
    then show ?thesis
      using x return(2) push_value_status [of E "m1\<lparr>frames := tl (frames m)\<rparr>" v] quiet_status [of m m1] assms(2)
      by (cases "push_value E (m1\<lparr>frames := tl (frames m)\<rparr>) v") auto
  qed
qed

section \<open>A turn of the loop\<close>

fun turn_machine :: "'w turn \<Rightarrow> 'w VMExecution" where
  "turn_machine (Running m) = m"
| "turn_machine (Stop m) = m"
| "turn_machine (Oom m) = m"

text \<open>The machine an instruction is dispatched on, and what follows its dispatch.\<close>

definition attempt_noted :: "'w VMExecution \<Rightarrow> VMCoverage option" where
  "attempt_noted m = map_option (\<lambda>c. vm_coverage_attempt c (coverage_function (top_frame m)) (pc (top_frame m))) (coverage m)"

definition entering :: "'w VMExecution \<Rightarrow> 'w VMExecution" where
  "entering m = set_top ((top_frame m)\<lparr>pc := pc (top_frame m) + 1\<rparr>) (m\<lparr>coverage := attempt_noted m\<rparr>)"

definition settling :: "'w VMExecution \<Rightarrow> bool \<Rightarrow> 'w VMExecution \<Rightarrow> 'w VMExecution" where
  "settling m b n = tick (coverage_tail (pc (top_frame m)) (coverage_function (top_frame m)) (length (frames m)) b n)"

definition runs_out :: "'w VMExecution \<Rightarrow> bool" where
  "runs_out m \<longleftrightarrow> pc (top_frame m) \<ge> length (ins (caller_function m))"

definition fetched :: "'w VMExecution \<Rightarrow> Instruction" where
  "fetched m = ins (caller_function m) ! pc (top_frame m)"

lemma coverage_tail_fields [simp]:
  "clock (coverage_tail p n d b m) = clock m" "yield_requested (coverage_tail p n d b m) = yield_requested m"
  "status (coverage_tail p n d b m) = status m" "error (coverage_tail p n d b m) = error m"
  "result (coverage_tail p n d b m) = result m" "world (coverage_tail p n d b m) = world m"
  "frames (coverage_tail p n d b m) = [] \<longleftrightarrow> frames m = []"
  by (auto simp: coverage_tail_def Let_def split: option.split)

lemma tick_fields [simp]:
  "clock (tick m) = Suc (clock m)" "frames (tick m) = frames m" "status (tick m) = status m" "world (tick m) = world m"
  "error (tick m) = error m" "yield_requested (tick m) = yield_requested m" "result (tick m) = result m"
  by (simp_all add: tick_def)

lemma entering_fields [simp]:
  "status (entering m) = status m" "error (entering m) = error m" "frames (entering m) \<noteq> []" "config (entering m) = config m"
  "yield_requested (entering m) = yield_requested m"
  by (simp_all add: entering_def) (simp_all add: set_top_def)

lemma turn_cases:
  "turn E m =
     (if runs_out m then Stop (trap ''VM trap: function did not return'' m)
      else case dispatch E (fetched m) (entering m) of
        Exhausted n \<Rightarrow> Oom (tick n)
      | Done n b \<Rightarrow>
          if yield_requested n then Stop ((settling m b n)\<lparr>yield_requested := False\<rparr>) else Running (settling m b n))"
  by (simp add: turn_def Let_def runs_out_def fetched_def entering_def settling_def caller_function_def attempt_noted_def
      split: dispatched.split)

lemma run_turns_stops: "run_turns E n m \<noteq> Running m'"
  by (induction n arbitrary: m) (auto split: turn.split)

section \<open>Invariants of a run\<close>

text \<open>\<open>I\<close> holds inside the loop, \<open>K\<close> between calls of \<open>vm_execution_advance\<close>.\<close>

locale run_invariant = dispatch_invariant E I for E :: "'w Native" and I +
  fixes K :: "'w VMExecution \<Rightarrow> bool"
  assumes start: "K m \<Longrightarrow> status m = VM_YIELDED \<Longrightarrow> \<not> running m \<Longrightarrow> I (m\<lparr>running := True\<rparr>)"
    and shutdown: "K m \<Longrightarrow> K (resume_shutdown E m)"
    and live: "I m \<Longrightarrow> status m = VM_YIELDED \<Longrightarrow> frames m \<noteq> []"
    and counted: "I m \<Longrightarrow> frames m \<noteq> [] \<Longrightarrow> I (set_top ((top_frame m)\<lparr>pc := p\<rparr>) m)"
    and covered: "I m \<Longrightarrow> I (m\<lparr>coverage := c\<rparr>)"
    and marked: "I m \<Longrightarrow> k < length (frames m) \<Longrightarrow>
      I (m\<lparr>frames := (frames m)[k := (frames m ! k)\<lparr>coverage_pending := True, coverage_pending_pc := p\<rparr>]\<rparr>)"
    and ticked: "I m \<Longrightarrow> I (tick m)"
    and resumed: "I m \<Longrightarrow> I (m\<lparr>yield_requested := False\<rparr>)"
    and trapped: "I m \<Longrightarrow> status m = VM_YIELDED \<Longrightarrow> I (trap e m)"
    and left: "I m \<Longrightarrow> K (leave m)"
    and exhausted: "I m \<Longrightarrow> status m = VM_YIELDED \<Longrightarrow> K ((fail_trapped (trap out_of_memory m))\<lparr>running := False\<rparr>)"
begin

lemma tail_kept: "I m \<Longrightarrow> I (coverage_tail p f d b m)"
proof -
  assume m: "I m"
  have "I (m\<lparr>frames := (frames m)[k := (frames m ! k)\<lparr>coverage_pending := True, coverage_pending_pc := p\<rparr>]\<rparr>)" for k
    using marked [OF m] m by (cases "k < length (frames m)") (simp_all add: list_update_beyond)
  with m covered show ?thesis by (auto simp: coverage_tail_def Let_def split: option.split)
qed

lemma turn_kept:
  assumes "I m" and "status m = VM_YIELDED" and "error m = None"
  shows "I (turn_machine (turn E m))" and "turn E m = Oom n \<Longrightarrow> status n = VM_YIELDED"
proof -
  have e: "I (entering m)" unfolding entering_def
    using counted [OF covered [OF assms(1)], of "attempt_noted m"] live [OF assms(1,2)] by (simp add: top_frame_def)
  then have "I (outcome_machine (dispatch E (fetched m) (entering m)))" using assms by (intro dispatch_kept) simp_all
  then show "I (turn_machine (turn E m))"
    using trapped [OF assms(1,2)] ticked resumed [OF ticked [OF tail_kept]] ticked [OF tail_kept]
    by (cases "dispatch E (fetched m) (entering m)") (auto simp: turn_cases settling_def)
  show "turn E m = Oom n \<Longrightarrow> status n = VM_YIELDED"
    using dispatch_exhausted [of "entering m" E "fetched m"] assms
    by (auto simp: turn_cases split: if_splits dispatched.splits)
qed

lemma turns_kept:
  "I m \<Longrightarrow> I (turn_machine (run_turns E n m)) \<and> (\<forall>m'. run_turns E n m = Oom m' \<longrightarrow> status m' = VM_YIELDED)"
proof (induction n arbitrary: m)
  case (Suc n)
  show ?case
  proof (cases "error m = None \<and> status m = VM_YIELDED")
    case True
    with turn_kept [OF Suc.prems] Suc.IH show ?thesis by (cases "turn E m") auto
  qed (use Suc.prems in auto)
qed simp

lemma advance_kept:
  assumes "K m"
  shows "K (fst (vm_execution_advance E n m))"
proof (cases "running m \<or> status (resume_shutdown E m) \<noteq> VM_YIELDED")
  case True
  then show ?thesis using assms shutdown by (auto simp: vm_execution_advance_def Let_def)
next
  case False
  let ?m = "(resume_shutdown E m)\<lparr>running := True\<rparr>"
  have "\<not> running (resume_shutdown E m)"
    using False by (auto simp: resume_shutdown_def fail_trapped_def frames_clear_def trap_def set_top_def
        coverage_complete_pending_def split: option.split Value.split list.split)
  then have "I ?m" using start [OF shutdown [OF assms]] False by simp
  from turns_kept [OF this, of n] False left exhausted show ?thesis
    by (cases "run_turns E n ?m") (auto simp: vm_execution_advance_def Let_def)
qed

end

end
