(* ===== verification/Lifecycle.thy ===== *)
theory Lifecycle
  imports Advance
begin

text \<open>
  The life of an execution as its embedder sees it: what each status means, in every state the interface
  can reach, and what a budget does.
\<close>

section \<open>What a status means\<close>

text \<open>
  Between calls of the interface, the status of an execution determines what it holds: frames as long as it
  may run again, a result when it completed, a diagnostic when it trapped.
\<close>

definition settled :: "'w VMExecution \<Rightarrow> bool" where
  "settled m \<longleftrightarrow> \<not> running m \<and>
     (case status m of
        VM_YIELDED \<Rightarrow> frames m \<noteq> [] \<and> error m = None \<and> result m = None
      | VM_WAITING \<Rightarrow> frames m \<noteq> [] \<and> error m = None \<and> result m = None
      | VM_COMPLETED \<Rightarrow> frames m = [] \<and> error m = None \<and> result m \<noteq> None
      | VM_TRAPPED \<Rightarrow> frames m = [] \<and> error m \<noteq> None \<and> result m = None
      | VM_EXITED \<Rightarrow> frames m = [] \<and> error m = None \<and> result m = None
      | VM_BUSY \<Rightarrow> False)"

definition underway :: "'w VMExecution \<Rightarrow> bool" where
  "underway m \<longleftrightarrow>
     (case status m of
        VM_YIELDED \<Rightarrow> frames m \<noteq> [] \<and> result m = None
      | VM_WAITING \<Rightarrow> frames m \<noteq> [] \<and> result m = None
      | VM_COMPLETED \<Rightarrow> frames m = [] \<and> error m = None \<and> result m \<noteq> None
      | VM_EXITED \<Rightarrow> result m = None
      | _ \<Rightarrow> False)"

lemma quiet_underway: "quiet a m \<Longrightarrow> underway a \<Longrightarrow> status a = VM_YIELDED \<Longrightarrow> underway m"
  using quiet_status [of a m] by (auto simp: quiet_def underway_def dest: arg_cong [of _ _ result])

lemma serviced_underway: "serviced a m \<Longrightarrow> underway a \<Longrightarrow> status a = VM_YIELDED \<Longrightarrow> underway m"
  using serviced_status [of a m] frames_serviced [of a m] by (auto simp: underway_def split: VMExecutionStatus.split)

lemma entered_underway: "entered a fn m \<Longrightarrow> underway a \<Longrightarrow> status a = VM_YIELDED \<Longrightarrow> underway m"
  using entered_status [of a fn m] entered_frames [of a fn m] by (auto simp: underway_def)

lemma pending_underway: "underway m \<Longrightarrow> underway (coverage_complete_pending m)"
  by (auto simp: underway_def coverage_complete_pending_def split: VMExecutionStatus.split option.split list.split)

lemma resume_shutdown_settled: "settled m \<Longrightarrow> settled (resume_shutdown E m)"
  by (auto simp: resume_shutdown_def settled_def set_top_def coverage_complete_pending_def fail_trapped_def frames_clear_def
      trap_def split: option.split Value.split list.split)

lemma leave_settled: "underway m \<Longrightarrow> settled (leave m)"
  by (auto simp: underway_def settled_def leave_def Let_def frames_clear_def split: VMExecutionStatus.splits)

interpretation settling_run: run_invariant E underway settled
proof unfold_locales
  fix a m :: "'a VMExecution" and w x args b r k as
  assume c: "native_call m w x args a" and u: "underway a" "status a = VM_YIELDED" and s: "serviced a b"
  from serviced_underway [OF s u] show "underway b" .
  show "status b = VM_YIELDED \<Longrightarrow> underway (fst (frame_push E b (Some k) (Some as)))"
    using entered_underway [OF frame_push_entered serviced_underway [OF s u]] .
next
  fix a :: "'a VMExecution" and k as
  show "underway a \<Longrightarrow> status a = VM_YIELDED \<Longrightarrow> underway (fst (frame_push E a (Some k) (Some (map Some as))))"
    using entered_underway [OF frame_push_entered] by blast
next
  fix m :: "'a VMExecution" and e p k
  assume u: "underway m"
  then show "frames m \<noteq> [] \<Longrightarrow> underway (set_top ((top_frame m)\<lparr>pc := p\<rparr>) m)"
    "k < length (frames m) \<Longrightarrow>
      underway (m\<lparr>frames := (frames m)[k := (frames m ! k)\<lparr>coverage_pending := True, coverage_pending_pc := p\<rparr>]\<rparr>)"
    by (simp_all add: underway_def set_top_def split: VMExecutionStatus.splits)
  show "status m = VM_YIELDED \<Longrightarrow> underway (trap e m)"
    "status m = VM_YIELDED \<Longrightarrow> settled ((fail_trapped (trap out_of_memory m))\<lparr>running := False\<rparr>)"
    using u by (simp_all add: underway_def settled_def fail_trapped_def trap_def frames_clear_def)
qed (simp_all add: resume_shutdown_settled leave_settled pending_underway quiet_underway,
    simp_all add: settled_def underway_def split: VMExecutionStatus.splits)

section \<open>The interface of an execution\<close>

text \<open>
  Everything an embedder may do with an execution between two of its calls, and the world may change at any
  time as well.
\<close>

inductive embedder_step :: "'w Native \<Rightarrow> 'w VMExecution \<Rightarrow> 'w VMExecution \<Rightarrow> bool" for E where
  advance: "embedder_step E m (fst (vm_execution_advance E budget m))"
| complete_print: "embedder_step E m (fst (vm_execution_complete_print E m message))"
| complete_read: "embedder_step E m (fst (vm_execution_complete_read E m r))"
| enable_server_reads: "embedder_step E m (fst (vm_execution_enable_server_reads m))"
| enable_tcp: "embedder_step E m (fst (vm_execution_enable_tcp m))"
| enable_console: "embedder_step E m (fst (vm_execution_enable_console m))"
| enable_filesystem: "embedder_step E m (fst (vm_execution_enable_filesystem m))"
| enable_server: "embedder_step E m (fst (vm_execution_enable_server m))"
| poll_tcp: "embedder_step E m (fst (vm_execution_poll_tcp E m wait))"
| poll_http: "embedder_step E m (fst (vm_execution_poll_http E m wait))"
| poll_console: "embedder_step E m (fst (vm_execution_poll_console E m))"
| poll_filesystem: "embedder_step E m (fst (vm_execution_poll_filesystem E m))"
| poll_network: "embedder_step E m (fst (vm_execution_poll_network E m wait))"
| stop_server: "embedder_step E m (fst (vm_execution_stop_server E m))"
| pump_server: "embedder_step E m (fst (vm_execution_pump_server E m budget wait))"
| elsewhere: "embedder_step E m (m\<lparr>world := w\<rparr>)"

text \<open>The native calls that can leave a diagnostic; the others have no access to the virtual machine.\<close>

fun reports :: "Action \<Rightarrow> bool" where
  "reports (Tcp_Server_Http_Continue _) = True"
| "reports (Read_Wait _) = True"
| "reports (Print_Wait _) = True"
| "reports _ = False"

definition silent :: "'w Native \<Rightarrow> bool" where
  "silent E \<longleftrightarrow> (\<forall>a w. \<not> reports a \<longrightarrow> snd (snd (performing E a w)) = None)"

lemma native_silent:
  "silent E \<Longrightarrow> \<not> reports a \<Longrightarrow> fst (native_do E a m) = m\<lparr>world := fst (performing E a (world m))\<rparr>"
  by (simp add: silent_def native_do_def note_error_def split_beta)

lemma settled_updates [simp]:
  "settled (m\<lparr>world := w\<rparr>) = settled m" "settled (m\<lparr>server_read_enabled := b\<rparr>) = settled m"
  "settled (m\<lparr>network_enabled := b\<rparr>) = settled m" "settled (m\<lparr>console_enabled := b\<rparr>) = settled m"
  "settled (m\<lparr>filesystem_enabled := b\<rparr>) = settled m" "settled (m\<lparr>server_enabled := b\<rparr>) = settled m"
  by (simp_all add: settled_def cong: VMExecutionStatus.case_cong)

text \<open>A waiting execution resumes or traps, whatever was delivered and whatever handles it gives up.\<close>

definition resumable :: "'w VMExecution \<Rightarrow> bool" where
  "resumable m \<longleftrightarrow> frames m \<noteq> [] \<and> result m = None"

lemma resumable_updates [simp]:
  "resumable (m\<lparr>error := e\<rparr>) = resumable m" "resumable (m\<lparr>world := w\<rparr>) = resumable m"
  "resumable (m\<lparr>tcp := h\<rparr>) = resumable m" "resumable (m\<lparr>http := h\<rparr>) = resumable m" "resumable (m\<lparr>server := h\<rparr>) = resumable m"
  "resumable (m\<lparr>root_read := h\<rparr>) = resumable m" "resumable (m\<lparr>console_write := h\<rparr>) = resumable m"
  "resumable (m\<lparr>waiting_read := b\<rparr>) = resumable m" "resumable (m\<lparr>running := b\<rparr>) = resumable m"
  "resumable (m\<lparr>owns_stop_signals := b\<rparr>) = resumable m"
  by (simp_all add: resumable_def)

lemma resumable_native [simp]: "resumable (fst (native_do E a m)) = resumable m"
  by (simp add: native_do_def note_error_def split_beta split: option.split)

lemma resumable_deliver: "resumable m \<Longrightarrow> resumable (deliver E m v)"
  by (auto simp: deliver_def trap_def set_top_def resumable_def split: option.split)

lemma resumable_trap [simp]: "resumable (trap e m) = resumable m"
  by (simp add: trap_def)

lemma settled_resumable: "settled m \<Longrightarrow> status m = VM_WAITING \<Longrightarrow> resumable m"
  by (simp add: settled_def resumable_def)

lemma resume_settled: "resumable m \<Longrightarrow> settled ((resume m)\<lparr>running := False\<rparr>)"
  by (auto simp: resumable_def resume_def settled_def coverage_complete_pending_def fail_trapped_def frames_clear_def
      split: option.split list.split)

lemma resume_settled_idle: "resumable m \<Longrightarrow> \<not> running m \<Longrightarrow> settled (resume m)"
  by (auto simp: resumable_def resume_def settled_def coverage_complete_pending_def fail_trapped_def frames_clear_def
      split: option.split list.split)

lemma idle_updates [simp]:
  "running (fst (native_do E a m)) = running m" "running (deliver E m v) = running m"
  "running (trap e m) = running m"
  by (simp_all add: native_do_def note_error_def deliver_def trap_def set_top_def split_beta split: option.split)

lemma complete_settled:
  "settled m \<Longrightarrow> settled (fst (vm_execution_complete_print E m message))"
  "settled m \<Longrightarrow> settled (fst (vm_execution_complete_read E m r))"
  using settled_resumable [of m]
  by (auto simp: vm_execution_complete_print_def vm_execution_complete_read_def Let_def
      intro!: resume_settled_idle resumable_deliver)

lemma poll_handle_settled:
  assumes "silent E" and "settled m"
  shows "settled (fst (vm_execution_poll_console E m))" and "settled (fst (vm_execution_poll_filesystem E m))"
  using assms(2) settled_resumable [OF assms(2)] native_silent [OF assms(1), of "Console_Write_Poll s" m for s]
    native_silent [OF assms(1), of "Root_Read_Poll s" m for s]
  by (auto simp: vm_execution_poll_console_def vm_execution_poll_filesystem_def Let_def split_beta split: option.split
      intro!: resume_settled_idle resumable_deliver)

lemma poll_exchange_settled:
  assumes "silent E" and "settled m"
  shows "settled (fst (vm_execution_poll_tcp E m n))" and "settled (fst (vm_execution_poll_http E m n))"
proof -
  have s: "settled (m\<lparr>world := w, tcp := h\<rparr>)" "settled (m\<lparr>world := w, http := h\<rparr>)" for w h
    using assms(2) by (simp_all add: settled_def cong: VMExecutionStatus.case_cong)
  note n = native_silent [OF assms(1)]
  show "settled (fst (vm_execution_poll_tcp E m n))" "settled (fst (vm_execution_poll_http E m n))"
    using assms(2) complete_settled(2) [OF s(1)] complete_settled(2) [OF s(2)]
    by (auto simp: vm_execution_poll_tcp_def vm_execution_poll_http_def Let_def split_beta n split: option.split)
qed

lemma finish_server_settled: "resumable m \<Longrightarrow> settled ((finish_server E s m)\<lparr>running := False\<rparr>)"
  by (auto simp: finish_server_def restore_stop_signals_def Let_def intro!: resume_settled resumable_deliver)

lemma server_settled:
  assumes "silent E" and "settled m"
  shows "settled (fst (vm_execution_stop_server E m))" and "settled (fst (vm_execution_pump_server E m b n))"
proof -
  note n = native_silent [OF assms(1)]
  have same: "settled (m\<lparr>running := True, world := w, running := False\<rparr>)" for w
    using assms(2) by (simp add: settled_def cong: VMExecutionStatus.case_cong)
  show "settled (fst (vm_execution_stop_server E m))"
    using assms(2) by (simp add: vm_execution_stop_server_def n split: option.split)
  show "settled (fst (vm_execution_pump_server E m b n))"
    using assms(2) settled_resumable [OF assms(2)] same
    by (auto simp: vm_execution_pump_server_def Let_def n split: option.split intro!: finish_server_settled)
qed

lemma enable_settled:
  assumes "settled m"
  shows "settled (fst (vm_execution_enable_server_reads m))" "settled (fst (vm_execution_enable_tcp m))"
    "settled (fst (vm_execution_enable_console m))" "settled (fst (vm_execution_enable_filesystem m))"
    "settled (fst (vm_execution_enable_server m))"
  using assms
  by (simp_all add: vm_execution_enable_server_reads_def vm_execution_enable_tcp_def vm_execution_enable_console_def
      vm_execution_enable_filesystem_def vm_execution_enable_server_def)

lemma embedder_step_settled:
  assumes "silent E" and "embedder_step E m n" and "settled m"
  shows "settled n"
  using assms(2,3)
proof cases
  case (advance k)
  then show ?thesis using settling_run.advance_kept assms(3) by blast
next
  case (poll_network w)
  then show ?thesis
    using poll_handle_settled [OF assms(1,3)] poll_exchange_settled [OF assms(1,3)] assms(3)
    by (simp add: vm_execution_poll_network_def)
qed (use enable_settled [OF assms(3)] complete_settled [OF assms(3)] poll_handle_settled [OF assms(1,3)]
    poll_exchange_settled [OF assms(1,3)] server_settled [OF assms(1,3)] assms(3) in simp_all)

lemma create_settled:
  assumes "vm_execution_create E vm function args cb = Inr m"
  shows "settled m"
proof -
  define a where "a = (new_execution vm)\<lparr>embedded := True, host_call := cb, error := None, fault_kind := VM_FAULT_FATAL,
    execution := True, coverage := vm_coverage_start (coverage vm) (program_address vm)\<rparr>"
  have m: "snd (frame_push E a function args)" "m = fst (frame_push E a function args)"
    using assms by (auto simp: vm_execution_create_def Let_def a_def split_beta split: if_splits)
  have "status a = VM_YIELDED \<and> result a = None \<and> \<not> running a \<and> error a = None"
    by (simp add: a_def new_execution_def VM.defs VMExecution.defs)
  moreover have "running m = running a" using frame_push_kept(1) m(2) config_eqD(3) by metis
  moreover have "status m = status a \<and> result m = result a"
    using entered_status [OF frame_push_entered] m(2) by metis
  ultimately show ?thesis using frame_push_ok [OF m(1)] m(2) by (simp add: settled_def)
qed

lemma settled_waits [simp]: "settled (m\<lparr>print_wait := b\<rparr>) = settled m" "settled (m\<lparr>read_wait := b\<rparr>) = settled m"
  by (simp_all add: settled_def split: VMExecutionStatus.split)

lemma created_settled:
  assumes "Inr m \<in> {vm_execution_create E vm function args callback, vm_execution_create_pending E vm function args wait,
      vm_execution_create_async E vm function args wait}"
  shows "settled m"
  using assms
  by (auto simp: vm_execution_create_pending_def vm_execution_create_async_def map_sum_def split: sum.splits
      dest: create_settled create_settled [OF sym])

text \<open>
  C3. The status of an execution says what it holds, in every state an embedder can reach from creating it,
  be it a plain execution, one whose prints wait or one whose reads wait. Whatever the embedder calls, in whatever order and with whatever budgets and completions, and whatever the outside
  world does in between: an execution that yielded or waits has frames to resume and neither a result nor a
  diagnostic; one that completed has a result, no frames and no diagnostic; one that trapped has a
  diagnostic, no frames and no result; one that exited has none of them; and none is left marked as running.
\<close>

theorem execution_settled:
  assumes "silent E"
    and "Inr m \<in> {vm_execution_create E vm function args callback, vm_execution_create_pending E vm function args wait,
      vm_execution_create_async E vm function args wait}"
    and "(embedder_step E)\<^sup>*\<^sup>* m n"
  shows "settled n"
  using assms(3) created_settled [OF assms(2)] by induction (use embedder_step_settled [OF assms(1)] in auto)

text \<open>A world in which nothing happens, and a program for it.\<close>

definition still :: "unit Native" where
  "still = \<lparr>memory = \<lambda>_ _. True, starting = \<lambda>_ w. (w, None, None), performing = \<lambda>_ w. (w, False, None),
     asking = \<lambda>_ _. False, answering = \<lambda>_ _. None, failing = \<lambda>_ _. None, http_runtime_exit_status = \<lambda>_. 0,
     handling = \<lambda>_ _ _ w. (w, NoMemory), host_calling = \<lambda>_ _ w. (w, NoMemory),
     listening = \<lambda>_ _ _ _ _ _ w. (w, NoMemory), connecting = \<lambda>_ w. (w, None, None)\<rparr>"

definition sample_vm :: "unit VM" where
  "sample_vm = \<lparr>program = \<lparr>functions = [sample_function ''main'' [OP_CONST (K_BOOL True), OP_RETURN]],
     verified_function_order = False\<rparr>, program_address = 0, error = None, fault_kind = VM_FAULT_FATAL,
     execution = False, coverage_run = False, coverage = None, iterators = Map.empty, fresh = 0, clock = 0, world = ()\<rparr>"

definition sample_execution :: "unit VMExecution" where
  "sample_execution = projr (vm_execution_create still sample_vm (Some 0) None False)"

text \<open>The definitions that evaluate it.\<close>

lemmas evaluation = sample_execution_def vm_execution_create_def sample_vm_def still_def heap_of_def Let_def frame_push_def
  new_execution_def VM.defs VMExecution.defs frame_room_def sizeof_Frame_def frame_cover_def new_frame_def
  sample_function_def vm_coverage_start_def SIZE_MAX_def vm_execution_advance_def resume_shutdown_def
  turn_def top_frame_def set_top_def coverage_tail_def tick_def leave_def frames_clear_def dispatch_def op_const_def
  push_new_def push_value_def stack_push_def constant_value_def value_bool_def value_new_def op_return_def
  caller_function_def stack_pop_def coverage_complete_pending_def vm_coverage_terminal_def

lemma sample_created: "vm_execution_create still sample_vm (Some 0) None False = Inr sample_execution"
  by (simp add: evaluation)

theorem execution_settled_witness:
  "settled (fst (vm_execution_advance still (Suc (Suc 0)) sample_execution)) \<and>
   result (fst (vm_execution_advance still (Suc (Suc 0)) sample_execution)) = Some (VBool True)"
proof
  have "silent still" by (simp add: silent_def still_def)
  moreover have "Inr sample_execution \<in> {vm_execution_create still sample_vm (Some 0) None False,
      vm_execution_create_pending still sample_vm (Some 0) None False, vm_execution_create_async still sample_vm (Some 0) None False}"
    by (simp add: sample_created)
  ultimately show "settled (fst (vm_execution_advance still (Suc (Suc 0)) sample_execution))"
    by (rule execution_settled [OF _ _ r_into_rtranclp [of "embedder_step still", OF embedder_step.advance]])
  show "result (fst (vm_execution_advance still (Suc (Suc 0)) sample_execution)) = Some (VBool True)"
    by (simp add: evaluation)
qed

section \<open>Budgets\<close>

lemma turn_clock:
  assumes "status m = VM_YIELDED" and "error m = None"
  shows "clock (turn_machine (turn E m)) = clock m + (if runs_out m then 0 else 1)"
proof -
  have "config (outcome_machine (dispatch E (fetched m) (entering m))) = config m"
    using dispatch_config [of "entering m"] assms by simp
  from config_eqD(2) [OF this] show ?thesis
    by (cases "dispatch E (fetched m) (entering m)") (auto simp: turn_cases settling_def trap_def)
qed

lemma run_turns_clock: "clock (turn_machine (run_turns E n m)) \<le> clock m + n"
proof (induction n arbitrary: m)
  case (Suc n)
  show ?case
  proof (cases "error m = None \<and> status m = VM_YIELDED")
    case True
    then have "clock (turn_machine (turn E m)) \<le> Suc (clock m)" using turn_clock [of m E] by simp
    with True Suc.IH [of "turn_machine (turn E m)"] show ?thesis by (cases "turn E m") auto
  qed auto
qed simp

text \<open>An embedded execution without the server capability is never asked to yield.\<close>

definition unasked :: "'w VMExecution \<Rightarrow> bool" where
  "unasked m \<longleftrightarrow> running m \<and> embedded m \<and> \<not> server_enabled m \<and> \<not> yield_requested m"

lemma unasked_config:
  "unasked a \<Longrightarrow> config b = config a \<Longrightarrow> yield_requested b = yield_requested a \<Longrightarrow> unasked b"
  using config_eqD(3-5) [of b a] by (simp add: unasked_def)

lemma quiet_yield: "quiet a b \<Longrightarrow> yield_requested b = yield_requested a"
  by (auto simp: quiet_def dest: arg_cong [of _ _ yield_requested])

lemma entered_yield: "entered a fn b \<Longrightarrow> yield_requested b = yield_requested a"
  by (auto simp: entered_def dest: arg_cong [of _ _ yield_requested])

lemma serviced_unasked: "serviced a b \<Longrightarrow> unasked a \<Longrightarrow> unasked b"
  using config_serviced [of a b] by (intro unasked_config [of a b]) (auto simp: serviced_def unasked_def)

interpretation unasked_kept: dispatch_invariant E unasked
proof unfold_locales
  fix a b :: "'a VMExecution" and k args
  show "quiet a b \<Longrightarrow> unasked a \<Longrightarrow> unasked b"
    using config_quiet [of a b] quiet_yield [of a b] unasked_config [of a b] by simp
  have enter: "unasked a \<Longrightarrow> unasked (fst (frame_push E a k args))" for a :: "'a VMExecution" and k args
    using unasked_config [OF _ frame_push_kept(1) entered_yield [OF frame_push_entered]] by blast
  then show "unasked a \<Longrightarrow> unasked (fst (frame_push E a (Some k) (Some (map Some args))))" .
  show "serviced a b \<Longrightarrow> unasked a \<Longrightarrow> unasked (fst (frame_push E b (Some k) (Some as)))" for as
    using enter serviced_unasked by blast
  show "unasked a \<Longrightarrow> unasked (coverage_complete_pending a)"
    by (simp add: unasked_def coverage_complete_pending_def split: option.split list.split)
qed (simp_all add: serviced_unasked, simp_all add: unasked_def)

lemma turn_unasked:
  assumes "unasked m" and "status m = VM_YIELDED" and "error m = None"
  shows "unasked (turn_machine (turn E m))"
    and "turn E m = Stop n \<Longrightarrow> error n \<noteq> None"
proof -
  have e: "unasked (entering m)" using assms(1) unasked_config [of m "entering m"] by simp
  have d: "unasked (outcome_machine (dispatch E (fetched m) (entering m)))"
    using unasked_kept.dispatch_kept [OF _ e] assms by simp
  have t: "unasked p \<Longrightarrow> unasked (tick p)" "unasked p \<Longrightarrow> unasked (coverage_tail q w r s p)" for p :: "'a VMExecution" and q w r s
    using unasked_config [of p "coverage_tail q w r s p"] by (simp_all add: unasked_def tick_def)
  from d t assms(1) show "unasked (turn_machine (turn E m))"
    by (cases "dispatch E (fetched m) (entering m)") (auto simp: turn_cases settling_def unasked_def trap_def)
  from d show "turn E m = Stop n \<Longrightarrow> error n \<noteq> None"
    by (auto simp: turn_cases trap_def unasked_def split: if_splits dispatched.splits)
qed

lemma run_turns_stopped: "error n \<noteq> None \<or> status n \<noteq> VM_YIELDED \<Longrightarrow> run_turns E k n = Stop n"
  by (cases k) auto

lemma run_turns_split:
  assumes "unasked m"
  shows "run_turns E (a + b) m = (case run_turns E a m of Stop n \<Rightarrow> run_turns E b n | t \<Rightarrow> t)"
  using assms
proof (induction a arbitrary: m)
  case (Suc a)
  show ?case
  proof (cases "error m = None \<and> status m = VM_YIELDED")
    case True
    with turn_unasked [OF Suc.prems, of E] Suc.IH [of "turn_machine (turn E m)"] show ?thesis
      by (cases "turn E m") (auto simp: run_turns_stopped)
  qed (auto simp: run_turns_stopped)
qed simp

lemma run_turns_exact:
  assumes "unasked m" and "run_turns E n m = Stop k" and "error k = None" and "status k = VM_YIELDED"
  shows "clock k = clock m + n"
  using assms(1,2)
proof (induction n arbitrary: m)
  case (Suc n)
  have m: "error m = None \<and> status m = VM_YIELDED"
    using Suc.prems(2) assms(3,4) by (auto split: if_splits)
  with Suc.prems turn_unasked [of m E] obtain t where t: "turn E m = Running t"
    using assms(3) by (cases "turn E m") auto
  then have "\<not> runs_out m" by (auto simp: turn_cases)
  with Suc.IH [of t] turn_unasked(1) [of m E] turn_clock [of m E] t m Suc.prems show ?case by simp
qed simp

lemma advance_clocks:
  "clock (resume_shutdown E m) = clock m" "clock (leave m) = clock m" "clock (fail_trapped m) = clock m"
  "clock (trap e m) = clock m"
  by (simp_all add: resume_shutdown_def leave_def set_top_def coverage_complete_pending_def fail_trapped_def frames_clear_def
      trap_def Let_def split: option.split Value.split list.split)

lemma leave_yielded: "status (leave m) = VM_YIELDED \<Longrightarrow> error m = None \<and> status m = VM_YIELDED \<and> leave m = m\<lparr>running := False\<rparr>"
  by (auto simp: leave_def Let_def frames_clear_def split: if_splits)

lemma resume_shutdown_other: "status m \<noteq> VM_WAITING \<Longrightarrow> resume_shutdown E m = m"
  by (simp add: resume_shutdown_def split: option.split Value.split)

lemma resume_shutdown_kept:
  "running (resume_shutdown E m) = running m" "embedded (resume_shutdown E m) = embedded m"
  "server_enabled (resume_shutdown E m) = server_enabled m" "yield_requested (resume_shutdown E m) = yield_requested m"
  by (simp_all add: resume_shutdown_def set_top_def coverage_complete_pending_def fail_trapped_def frames_clear_def
      trap_def split: option.split Value.split list.split)

lemma run_turns_unasked: "unasked m \<Longrightarrow> unasked (turn_machine (run_turns E n m))"
proof (induction n arbitrary: m)
  case (Suc n)
  show ?case
  proof (cases "error m = None \<and> status m = VM_YIELDED")
    case True
    with turn_unasked(1) [OF Suc.prems, of E] Suc.IH [of "turn_machine (turn E m)"] show ?thesis
      by (cases "turn E m") auto
  qed (use Suc.prems in auto)
qed simp

text \<open>
  C12. How an execution is sliced into budgets makes no difference. An embedded execution without the server
  capability, of which no yield has been requested, that is given \<open>a + b\<close> instructions at once behaves exactly as when it is given \<open>a\<close> and then
  \<open>b\<close>: if the first call yields, the second one continues it to the same state, status and heap; and if
  the first call ends or suspends the execution, the larger budget would have done the same and no more.
\<close>

theorem advance_slicing:
  assumes "embedded m" and "\<not> server_enabled m" and "\<not> yield_requested m"
  shows "vm_execution_advance E (a + b) m =
    (case vm_execution_advance E a m of
       (n, st) \<Rightarrow> if st = VM_YIELDED then vm_execution_advance E b n else (n, st))"
proof (cases "running m \<or> status (resume_shutdown E m) \<noteq> VM_YIELDED")
  case True
  then show ?thesis by (auto simp: vm_execution_advance_def Let_def)
next
  case False
  let ?m = "(resume_shutdown E m)\<lparr>running := True\<rparr>"
  have u: "unasked ?m" using assms by (simp add: unasked_def resume_shutdown_kept)
  have adv: "vm_execution_advance E k m = (case run_turns E k ?m of
      Oom n \<Rightarrow> ((fail_trapped (trap out_of_memory n))\<lparr>running := False\<rparr>, VM_TRAPPED) | t \<Rightarrow> (leave (turn_machine t), status (leave (turn_machine t))))" for k
    using False by (auto simp: vm_execution_advance_def Let_def split: turn.split)
  show ?thesis
  proof (cases "run_turns E a ?m")
    case (Stop n)
    have n: "unasked n" using run_turns_unasked [OF u, of E a] Stop by simp
    show ?thesis
    proof (cases "status (leave n) = VM_YIELDED")
      case True
      note l = leave_yielded [OF True]
      have "n\<lparr>running := False, running := True\<rparr> = n" using n by (simp add: unasked_def)
      then have "vm_execution_advance E b (leave n) = (case run_turns E b n of
          Oom n \<Rightarrow> ((fail_trapped (trap out_of_memory n))\<lparr>running := False\<rparr>, VM_TRAPPED)
        | t \<Rightarrow> (leave (turn_machine t), status (leave (turn_machine t))))"
        using l by (auto simp: vm_execution_advance_def Let_def resume_shutdown_other split: turn.split)
      with True Stop show ?thesis by (simp add: adv run_turns_split [OF u])
    next
      case False
      then have "run_turns E b n = Stop n" by (intro run_turns_stopped) (auto simp: leave_def Let_def)
      with False Stop show ?thesis by (simp add: adv run_turns_split [OF u])
    qed
  qed (auto simp: adv run_turns_split [OF u] run_turns_stops)
qed

theorem advance_slicing_witness:
  "vm_execution_advance still (1 + 1) sample_execution =
     vm_execution_advance still 1 (fst (vm_execution_advance still 1 sample_execution)) \<and>
   snd (vm_execution_advance still 1 sample_execution) = VM_YIELDED"
proof
  show y: "snd (vm_execution_advance still 1 sample_execution) = VM_YIELDED"
    by (simp add: evaluation)
  have "embedded sample_execution" "\<not> server_enabled sample_execution" "\<not> yield_requested sample_execution"
    by (simp_all add: evaluation)
  from advance_slicing [OF this, of still 1 1] y
  show "vm_execution_advance still (1 + 1) sample_execution =
      vm_execution_advance still 1 (fst (vm_execution_advance still 1 sample_execution))"
    by (simp add: split_beta)
qed

text \<open>
  C19. What \<open>vm_execution_advance\<close> promises about its budget and its status. It returns the status it leaves.
  An execution that completed, trapped or exited is left exactly as it is, and so is one that is already
  running, which is reported as busy. At most \<open>budget\<close> instructions are dispatched. An execution that yields
  without having been asked to has used its budget up: it never stops early.
\<close>

theorem advance_contract:
  assumes "settled m"
  shows "vm_execution_advance E n (m\<lparr>running := True\<rparr>) = (m\<lparr>running := True\<rparr>, VM_BUSY) \<and>
    snd (vm_execution_advance E n m) = status (fst (vm_execution_advance E n m)) \<and>
    (status m \<in> {VM_COMPLETED, VM_TRAPPED, VM_EXITED} \<longrightarrow> vm_execution_advance E n m = (m, status m)) \<and>
    clock (fst (vm_execution_advance E n m)) \<le> clock m + n \<and>
    (embedded m \<and> \<not> server_enabled m \<and> \<not> yield_requested m \<and> snd (vm_execution_advance E n m) = VM_YIELDED \<longrightarrow>
       clock (fst (vm_execution_advance E n m)) = clock m + n)"
proof (intro conjI impI)
  show "vm_execution_advance E n (m\<lparr>running := True\<rparr>) = (m\<lparr>running := True\<rparr>, VM_BUSY)"
    by (simp add: vm_execution_advance_def)
  show "status m \<in> {VM_COMPLETED, VM_TRAPPED, VM_EXITED} \<Longrightarrow> vm_execution_advance E n m = (m, status m)"
    using assms by (auto simp: vm_execution_advance_def resume_shutdown_other settled_def)
  show "snd (vm_execution_advance E n m) = status (fst (vm_execution_advance E n m))"
    using assms by (auto simp: settled_def vm_execution_advance_def Let_def fail_trapped_def frames_clear_def split: turn.split)
  show "clock (fst (vm_execution_advance E n m)) \<le> clock m + n"
    using run_turns_clock [of E n "(resume_shutdown E m)\<lparr>running := True\<rparr>"]
    by (auto simp: vm_execution_advance_def Let_def advance_clocks split: turn.split)
  assume a: "embedded m \<and> \<not> server_enabled m \<and> \<not> yield_requested m \<and> snd (vm_execution_advance E n m) = VM_YIELDED"
  then have "unasked ((resume_shutdown E m)\<lparr>running := True\<rparr>)" by (simp add: unasked_def resume_shutdown_kept)
  from run_turns_exact [OF this, of E n] a assms show "clock (fst (vm_execution_advance E n m)) = clock m + n"
    by (auto simp: vm_execution_advance_def Let_def advance_clocks settled_def run_turns_stops split: turn.splits if_splits
        dest: leave_yielded)
qed

theorem advance_contract_witness:
  "settled sample_execution \<and> clock (fst (vm_execution_advance still 1 sample_execution)) = clock sample_execution + 1"
proof
  show s: "settled sample_execution" by (simp add: settled_def evaluation)
  have "embedded sample_execution \<and> \<not> server_enabled sample_execution \<and> \<not> yield_requested sample_execution \<and>
      snd (vm_execution_advance still 1 sample_execution) = VM_YIELDED"
    by (simp add: evaluation)
  with advance_contract [OF s, of still 1]
  show "clock (fst (vm_execution_advance still 1 sample_execution)) = clock sample_execution + 1" by blast
qed

end
