(* ===== verification/Purity.thy ===== *)
theory Purity
  imports Lifecycle
begin

text \<open>
  Purity at run time. A function marked pure only ever runs pure functions and pure builtins, whatever
  calls it makes and whichever strings it calls through; so its execution leaves the world alone.
\<close>

section \<open>Pure builtins\<close>

definition intercepted :: "string list" where
  "intercepted = [''http_connection_continue'', ''http_listen_ordinary'', ''http_listen_contextual'', ''http_close'',
     ''http_destroy'', ''http_connection_invoke'', ''tcp_service'', ''host_arguments_async'', ''host_exit_async'',
     ''host_stdout_async'', ''host_stderr_async'', ''fs_read_beneath_async'', ''fs_root_identity_async'', ''$tcp_serve'',
     ''$tcp_serve_stream'', ''$tcp_server_read_chunk'', ''$tcp_exchange'', ''$http_transport_exchange'', ''async_fake_read'',
     ''process_exit'', ''process_run'', ''run_bytecode'', ''run_bytecode_args'']"

lemma registry_pure_plain: "list_all (\<lambda>e. bpure e \<longrightarrow> list_all (\<lambda>n. \<not> streq (bname e) n) intercepted) BUILTINS"
  by code_simp

lemma pure_builtin_plain:
  assumes "e \<in> set BUILTINS" and "bpure e"
  shows "execution_builtin E m e args = (fst (builtin_call E m (bname e) args), snd (builtin_call E m (bname e) args), False)"
proof -
  have "list_all (\<lambda>n. \<not> streq (bname e) n) intercepted"
    using registry_pure_plain assms by (simp add: list_all_iff)
  then show ?thesis using assms(2)
    by (simp add: execution_builtin_def intercepted_def uncovered_def Let_def split_beta)
qed

text \<open>Native code that the registry marks pure may read the world and must not change it.\<close>

definition pure_services :: "'w Native \<Rightarrow> bool" where
  "pure_services E \<longleftrightarrow> (\<forall>e \<in> set BUILTINS. bpure e \<longrightarrow> (\<forall>args w. fst (handling E (bcall e) (bname e) args w) = w))"

lemma pure_builtin_world:
  assumes "pure_services E" and "e \<in> set BUILTINS" and "bpure e"
  shows "fst (builtin_call E m (bname e) args) = m\<lparr>error := error (fst (builtin_call E m (bname e) args)),
    fault_kind := fault_kind (fst (builtin_call E m (bname e) args))\<rparr>"
proof -
  have b: "builtin (bname e) = Some e" using assms(2) by (simp add: builtin_iff cstr_bname)
  have w: "fst (handling E (bcall e) (bname e) args (world m)) = world m" using assms by (simp add: pure_services_def)
  have a: "fst (absorb m r) = m\<lparr>error := error (fst (absorb m r)), fault_kind := fault_kind (fst (absorb m r))\<rparr>" for r
    by (simp add: absorb_def split: outcome.split)
  show ?thesis
    using w a by (cases "bcall e") (simp_all add: builtin_call_def b Let_def split_beta)
qed

section \<open>Pure executions\<close>

definition isolated :: "'w \<Rightarrow> 'w VMExecution \<Rightarrow> bool" where
  "isolated w m \<longleftrightarrow> world m = w \<and> status m \<in> {VM_YIELDED, VM_COMPLETED, VM_TRAPPED} \<and>
     (status m = VM_YIELDED \<longrightarrow> frames m \<noteq> []) \<and> (\<forall>f \<in> set (frames m). pure (functions (program m) ! code f))"

lemma isolated_caller: "isolated w m \<Longrightarrow> frames m \<noteq> [] \<Longrightarrow> pure (caller_function m)"
  by (simp add: isolated_def caller_function_def top_frame_def)

lemma quiet_isolated:
  assumes "quiet a b" and "isolated w a"
  shows "isolated w b"
proof -
  have "world b = world a \<and> program b = program a \<and> status b = status a"
    using assms(1) by (auto simp: quiet_def dest: arg_cong [of _ _ world] arg_cong [of _ _ program] arg_cong [of _ _ status])
  with assms show ?thesis
    by (cases "frames a"; cases "frames b") (auto simp: isolated_def quiet_def same_frame_def)
qed

lemma entered_fields:
  assumes "entered a fn b"
  shows "world b = world a" and "program b = program a" and "status b = status a"
proof -
  have e: "b\<lparr>error := error a, coverage := coverage a, frames := frames a, frame_capacity := frame_capacity a\<rparr> = a"
    using assms by (simp add: entered_def)
  show "world b = world a" "program b = program a" "status b = status a"
    using arg_cong [OF e, of world] arg_cong [OF e, of program] arg_cong [OF e, of status] by simp_all
qed

lemma entered_isolated:
  assumes "entered a (Some k) b" and "isolated w a" and "pure (functions (program a) ! k)"
  shows "isolated w b"
  using assms entered_fields [OF assms(1)] by (auto simp: isolated_def entered_def)

lemma isolated_cover:
  "isolated w m \<Longrightarrow> isolated w (coverage_complete_pending m)" "isolated w m \<Longrightarrow> isolated w (leave m)"
  by (auto simp: isolated_def coverage_complete_pending_def leave_def Let_def frames_clear_def split: option.split list.split)

lemma native_pure: "native_call m w x args a \<Longrightarrow> pure (caller_function m) \<Longrightarrow> x \<in> set BUILTINS \<and> bpure x"
  by (auto simp: native_call_def verify_call_edge_def Let_def split: if_splits)

lemma code_pure: "code_call m w k args a \<Longrightarrow> pure (caller_function m) \<Longrightarrow> pure (functions (program m) ! k)"
  by (auto simp: code_call_def verify_call_edge_def Let_def split: if_splits)

lemma isolated_native:
  assumes "pure_services E" and "isolated u m" and "isolated u a" and "native_call m w x args a"
    and "execution_builtin E a x args = (b, r, False)"
  shows "isolated u b"
proof -
  have x: "x \<in> set BUILTINS \<and> bpure x"
    using assms(2,4) isolated_caller native_pure by (fastforce simp: native_call_def quiet_def)
  then have "b = fst (builtin_call E a (bname x) args)" using assms(5) by (simp add: pure_builtin_plain)
  with pure_builtin_world [OF assms(1)] x obtain e k where "b = a\<lparr>error := e, fault_kind := k\<rparr>" by blast
  with assms(3) show ?thesis by (simp add: isolated_def)
qed

lemma isolated_not_invoked:
  assumes "isolated u m" and "native_call m w x args a" and "streq (bname x) ''http_connection_invoke''"
  shows False
proof -
  have "x \<in> set BUILTINS \<and> bpure x"
    using assms(1,2) isolated_caller native_pure by (fastforce simp: native_call_def quiet_def)
  with registry_pure_plain assms(3) show False by (simp add: list_all_iff intercepted_def)
qed

lemma isolated_code:
  assumes "isolated u m" and "isolated u a" and "code_call m w k args a"
  shows "isolated u (fst (frame_push E a (Some k) as))"
proof -
  have q: "quiet m a" using assms(3) by (simp add: code_call_def)
  then have "pure (functions (program m) ! k)"
    using assms(1,3) isolated_caller code_pure by (fastforce simp: quiet_def)
  then show ?thesis using entered_isolated [OF frame_push_entered assms(2)] quiet_program [OF q] by simp
qed

text \<open>The machine stands on a frame as long as it may run, with or without the hypothesis.\<close>

definition isolation :: "'w Native \<Rightarrow> 'w \<Rightarrow> 'w VMExecution \<Rightarrow> bool" where
  "isolation E u m \<longleftrightarrow> (status m = VM_YIELDED \<longrightarrow> frames m \<noteq> []) \<and> (pure_services E \<longrightarrow> isolated u m)"

lemma entered_isolation:
  assumes "status a = VM_YIELDED \<longrightarrow> frames a \<noteq> []" and "pure_services E \<Longrightarrow> isolated u (fst (frame_push E a k as))"
  shows "isolation E u (fst (frame_push E a k as))"
  using assms by (simp add: isolation_def entered_fields(3) [OF frame_push_entered] frame_push_kept(2))

interpretation isolated_run: run_invariant E "isolation E u" "isolation E u"
proof unfold_locales
  fix m a b :: "'a VMExecution" and w x args r k as
  assume n: "native_call m w x args a" "isolation E u m" "isolation E u a" "status a = VM_YIELDED" and s: "serviced a b"
  from n s show "execution_builtin E a x args = (b, r, False) \<Longrightarrow> isolation E u b"
    by (auto simp: isolation_def frames_serviced intro: isolated_native)
  from n s show "streq (bname x) ''http_connection_invoke'' \<Longrightarrow> isolation E u (fst (frame_push E b (Some k) (Some as)))"
    by (intro entered_isolation) (auto simp: isolation_def frames_serviced dest: isolated_not_invoked)
next
  fix m a :: "'a VMExecution" and w k args
  show "code_call m w k args a \<Longrightarrow> isolation E u m \<Longrightarrow> isolation E u a \<Longrightarrow>
      isolation E u (fst (frame_push E a (Some k) (Some (map Some args))))"
    by (intro entered_isolation) (auto simp: isolation_def intro: isolated_code)
next
  fix m :: "'a VMExecution"
  have "status m = VM_YIELDED \<Longrightarrow> frames m \<noteq> [] \<Longrightarrow> frames (resume_shutdown E m) \<noteq> []"
    "status (resume_shutdown E m) = VM_YIELDED \<Longrightarrow> status m = VM_YIELDED \<or> frames (resume_shutdown E m) \<noteq> []"
    by (auto simp: resume_shutdown_def set_top_def coverage_complete_pending_def fail_trapped_def frames_clear_def
      split: option.splits Value.splits list.splits)
  then show "isolation E u m \<Longrightarrow> isolation E u (resume_shutdown E m)"
    by (auto simp: resume_shutdown_other isolated_def isolation_def)
next
  fix a b :: "'a VMExecution"
  show "quiet a b \<Longrightarrow> isolation E u a \<Longrightarrow> isolation E u b"
    using quiet_frames [of a b] quiet_isolated by (auto simp: isolation_def)
next
  fix m :: "'a VMExecution"
  show "isolation E u m \<Longrightarrow> isolation E u (coverage_complete_pending m)" "isolation E u m \<Longrightarrow> isolation E u (leave m)"
    by (auto simp: isolation_def isolated_cover)
      (auto simp: coverage_complete_pending_def leave_def Let_def frames_clear_def split: option.splits list.splits if_splits)
qed (auto simp: isolation_def isolated_def set_top_def top_frame_def tick_def trap_def fail_trapped_def frames_clear_def
    dest!: set_update_subset_insert [THEN subsetD] dest: list.set_sel(2))

lemma advance_isolated:
  assumes "pure_services E" and "isolated u m"
  shows "isolated u (fst (vm_execution_advance E n m))"
  using isolated_run.advance_kept [where E = E and u = u and m = m and n = n] assms by (simp add: isolation_def isolated_def)

lemma created_frames:
  assumes "vm_execution_create E vm (Some k) args callback = Inr m"
  shows "world m = world vm" and "program m = program vm" and "\<exists>f. frames m = [f] \<and> code f = k" and "status m = VM_YIELDED"
proof -
  define a where "a = (new_execution vm)\<lparr>embedded := True, host_call := callback, error := None, fault_kind := VM_FAULT_FATAL,
    execution := True, coverage := vm_coverage_start (coverage vm) (program_address vm)\<rparr>"
  have m: "snd (frame_push E a (Some k) args)" "m = fst (frame_push E a (Some k) args)"
    using assms by (auto simp: vm_execution_create_def Let_def a_def split_beta split: if_splits)
  have a: "status a = VM_YIELDED" "world a = world vm" "program a = program vm" "frames a = []"
    by (simp_all add: a_def new_execution_def VM.defs VMExecution.defs)
  note e = frame_push_entered [of a "Some k" E args, folded m(2)]
  from entered_fields [OF e] a show "world m = world vm" "program m = program vm" "status m = VM_YIELDED" by simp_all
  from e frame_push_ok(2) [OF m(1)] a m(2) show "\<exists>f. frames m = [f] \<and> code f = k"
    by (auto simp: entered_def)
qed

text \<open>
  C7. Pure code is isolated. An execution of a function marked pure never changes the world outside the
  machine, under any budgets and whatever its code does: calls of functions and builtins by name, calls
  through strings computed at run time, services, waits and exits included. It never waits and never exits
  either: after every call of \<open>vm_execution_advance\<close> it has yielded, completed or trapped. What is asked of
  the native code is that a builtin the registry marks pure leaves the world as it is.
\<close>

theorem pure_execution_isolated:
  assumes "pure_services E" and "vm_execution_create E vm (Some k) args callback = Inr m"
    and "pure (functions (program vm) ! k)"
  shows "world (fold (\<lambda>n m. fst (vm_execution_advance E n m)) budgets m) = world vm \<and>
    status (fold (\<lambda>n m. fst (vm_execution_advance E n m)) budgets m) \<in> {VM_YIELDED, VM_COMPLETED, VM_TRAPPED}"
proof -
  have "isolated (world vm) m"
    using created_frames [OF assms(2)] assms(3) by (auto simp: isolated_def)
  then have "isolated (world vm) (fold (\<lambda>n m. fst (vm_execution_advance E n m)) budgets m)"
    by (induction budgets rule: rev_induct) (simp_all add: advance_isolated [OF assms(1)])
  then show ?thesis by (simp add: isolated_def)
qed

text \<open>A world that counts what happens to it, and a pure program on it.\<close>

definition counting :: "nat Native" where
  "counting = \<lparr>memory = \<lambda>_ _. True, starting = \<lambda>_ w. (Suc w, None, None), performing = \<lambda>_ w. (Suc w, False, None),
     asking = \<lambda>_ _. False, answering = \<lambda>_ _. None, failing = \<lambda>_ _. None, http_runtime_exit_status = \<lambda>_. 0,
     handling = \<lambda>handler name _ w. (if \<exists>e. builtin name = Some e \<and> bpure e then w else Suc w, NoMemory),
     host_calling = \<lambda>_ _ w. (Suc w, NoMemory), listening = \<lambda>_ _ _ _ _ _ w. (Suc w, NoMemory),
     connecting = \<lambda>_ w. (Suc w, None, None)\<rparr>"

definition pure_vm :: "nat VM" where
  "pure_vm = \<lparr>program = \<lparr>functions = [(sample_function ''main'' [OP_CONST (K_BOOL True), OP_RETURN])\<lparr>pure := True\<rparr>],
     verified_function_order = False\<rparr>, program_address = 0, error = None, fault_kind = VM_FAULT_FATAL,
     execution = False, coverage_run = False, coverage = None, iterators = Map.empty, fresh = 0, clock = 0, world = 7\<rparr>"

definition pure_start :: "nat VMExecution" where
  "pure_start = projr (vm_execution_create counting pure_vm (Some 0) None False)"

theorem pure_execution_isolated_witness:
  "world (fst (vm_execution_advance counting (Suc (Suc 0)) pure_start)) = 7 \<and>
   status (fst (vm_execution_advance counting (Suc (Suc 0)) pure_start)) = VM_COMPLETED"
proof
  have p: "pure_services counting"
    using builtin_iff cstr_bname by (auto simp: pure_services_def counting_def)
  have c: "vm_execution_create counting pure_vm (Some 0) None False = Inr pure_start"
    by (simp add: pure_start_def pure_vm_def counting_def evaluation)
  show "status (fst (vm_execution_advance counting (Suc (Suc 0)) pure_start)) = VM_COMPLETED"
    by (simp add: pure_start_def pure_vm_def counting_def evaluation)
  from pure_execution_isolated [OF p c, of "[Suc (Suc 0)]"]
  show "world (fst (vm_execution_advance counting (Suc (Suc 0)) pure_start)) = 7"
    by (simp add: pure_vm_def sample_function_def)
qed

end
