(* ===== verification/Tasks.thy ===== *)
theory Tasks
  imports Lifecycle
begin

text \<open>
  Task sessions, \<open>src/vm/tasks.c\<close>: a fixed table of executions with parents and deadlines, a ring of
  completions, and the pump that delivers completions, cancels what has expired and runs ready tasks in
  turn.

  \<^item> A \<open>Task *\<close> is an index into the table. The execution of a task extends the record of its virtual
    machine, so \<open>task->vm\<close> is part of \<open>body\<close>.
  \<^item> The callback \<open>register_request\<close> runs inside \<open>vm_execution_advance\<close> and changes the task and its
    session. The part it changes is therefore in the world of the task's machine: the request of the task
    and the session's counter, beside the world the tasks share. A machine gets it when it runs and gives it
    back afterwards.
  \<^item> The template has no coverage run, so the tasks have none: opening and closing one is file access.
\<close>

section \<open>Requests\<close>

record Request =
  generation :: nat
  input :: "Value option"
  pending :: bool

type_synonym 'w shared = "Request \<times> nat \<times> 'w"

definition register_request :: "Value \<Rightarrow> Request \<Rightarrow> nat \<Rightarrow> Request \<times> nat \<times> bool" where
  "register_request v r registered =
     (if pending r \<or> generation r = UINT64_MAX \<or> registered = SIZE_MAX then (r, registered, False)
      else (r\<lparr>generation := generation r + 1, input := Some v, pending := True\<rparr>, registered + 1, True))"

text \<open>The native services a task sees: waits are registered with the session, the rest is as outside.\<close>

definition waited :: "Action \<Rightarrow> Value option" where
  "waited a = (case a of Read_Wait v \<Rightarrow> Some v | Print_Wait v \<Rightarrow> Some v | _ \<Rightarrow> None)"

definition session_native :: "'w Native \<Rightarrow> 'w shared Native" where
  "session_native E =
     \<lparr>memory = memory E,
      starting = \<lambda>a (r, n, w). (case starting E a w of (w, x) \<Rightarrow> ((r, n, w), x)),
      performing = \<lambda>a (r, n, w).
        (case waited a of
           Some v \<Rightarrow> (case register_request v r n of (r, n, ok) \<Rightarrow>
             ((r, n, w), ok, if ok then None else Some ''task pending-operation limit reached''))
         | None \<Rightarrow> (case performing E a w of (w, x) \<Rightarrow> ((r, n, w), x))),
      asking = \<lambda>q (r, n, w). asking E q w,
      answering = \<lambda>q (r, n, w). answering E q w,
      failing = \<lambda>q (r, n, w). failing E q w,
      http_runtime_exit_status = \<lambda>(r, n, w). http_runtime_exit_status E w,
      handling = \<lambda>h name args (r, n, w). (case handling E h name args w of (w, x) \<Rightarrow> ((r, n, w), x)),
      host_calling = \<lambda>name args (r, n, w). (case host_calling E name args w of (w, x) \<Rightarrow> ((r, n, w), x)),
      listening = \<lambda>v k a b c d (r, n, w). (case listening E v k a b c d w of (w, x) \<Rightarrow> ((r, n, w), x)),
      connecting = \<lambda>args (r, n, w). (case connecting E args w of (w, x) \<Rightarrow> ((r, n, w), x))\<rparr>"

section \<open>State\<close>

record VMTaskId =
  session :: nat
  id_slot :: nat

record VMOperationId =
  op_task :: VMTaskId
  op_generation :: nat

datatype VMTaskStatus =
    TASK_INVALID | TASK_READY | TASK_WAITING | TASK_JOINING | TASK_COMPLETED | TASK_TRAPPED | TASK_EXITED | TASK_CANCELLED

record 'w Task =
  body :: "'w shared VMExecution option"
  slot :: nat
  parent :: nat
  deadline :: nat
  tstatus :: VMTaskStatus
  outcome :: VMTaskStatus
  tresult :: "Value option"
  terror :: "string option"
  texit_status :: nat
  request :: Request
  queued :: bool
  async_read :: bool

record Completion =
  operation :: VMOperationId
  cerror :: "string option"
  cresult :: "Value option"

record 'w VMTasks =
  template_vm :: "'w shared VM"
  tasks :: "'w Task list"
  events :: "Completion list"
  capacity :: nat
  event_capacity :: nat
  event_head :: nat
  event_count :: nat
  task_cursor :: nat
  identity :: nat
  now :: nat
  registered :: nat
  released :: nat
  pumping :: bool
  outside :: 'w
  ticks :: nat

definition no_request :: Request where
  "no_request = \<lparr>generation = 0, input = None, pending = False\<rparr>"

definition no_id :: VMTaskId where
  "no_id = \<lparr>session = 0, id_slot = 0\<rparr>"

definition lookup :: "'w VMTasks \<Rightarrow> VMTaskId \<Rightarrow> nat option" where
  "lookup s tid =
     (if session tid \<noteq> identity s \<or> id_slot tid = 0 \<or> id_slot tid > length (tasks s) then None else Some (id_slot tid - 1))"

definition terminal :: "'w Task \<Rightarrow> bool" where
  "terminal t \<longleftrightarrow> tstatus t \<in> {TASK_COMPLETED, TASK_TRAPPED, TASK_EXITED, TASK_CANCELLED}"

definition set_task :: "nat \<Rightarrow> ('w Task \<Rightarrow> 'w Task) \<Rightarrow> 'w VMTasks \<Rightarrow> 'w VMTasks" where
  "set_task i f s = s\<lparr>tasks := (tasks s)[i := f (tasks s ! i)]\<rparr>"

text \<open>A machine of the session: it runs with the request of its task and gives everything back.\<close>

definition lend :: "'w VMTasks \<Rightarrow> Request \<Rightarrow> ('w shared, 'm) VM_scheme \<Rightarrow> ('w shared, 'm) VM_scheme" where
  "lend s r m = m\<lparr>world := (r, registered s, outside s), clock := ticks s\<rparr>"

definition give_back :: "nat \<Rightarrow> ('w shared, 'm) VM_scheme \<Rightarrow> 'w VMTasks \<Rightarrow> 'w VMTasks" where
  "give_back i m s =
     (case world m of (r, n, w) \<Rightarrow> set_task i (\<lambda>t. t\<lparr>request := r\<rparr>) (s\<lparr>registered := n, outside := w, ticks := clock m\<rparr>))"

section \<open>Creation and admission\<close>

definition sizeof_Task :: nat where "sizeof_Task = 224"

definition sizeof_Completion :: nat where "sizeof_Completion = 40"

definition no_completion :: Completion where
  "no_completion = \<lparr>operation = \<lparr>op_task = no_id, op_generation = 0\<rparr>, cerror = None, cresult = None\<rparr>"

text \<open>The template of the caller is returned, since a gap may have been noted in its coverage.\<close>

definition vm_tasks_create ::
  "heap \<Rightarrow> 'w shared VM \<Rightarrow> 'w \<Rightarrow> nat \<Rightarrow> nat \<Rightarrow> nat \<Rightarrow> 'w shared VM \<times> (string + 'w VMTasks)" where
  "vm_tasks_create h vm w last_session task_limit event_limit =
     (if execution vm \<or> task_limit = 0 \<or> event_limit = 0 \<or> task_limit > SIZE_MAX div sizeof_Task \<or>
         event_limit > SIZE_MAX div sizeof_Completion \<or> last_session = UINT64_MAX
      then (vm, Inl ''invalid task session configuration'')
      else if \<not> (h Cell \<and> h (Chars (task_limit * sizeof_Task)) \<and> h (Chars (event_limit * sizeof_Completion)))
      then (vm, Inl out_of_memory)
      else
        (if coverage_run vm then vm else vm\<lparr>coverage := map_option vm_coverage_gap (coverage vm)\<rparr>,
         Inr \<lparr>template_vm = vm\<lparr>coverage_run := False, coverage := None, error := None\<rparr>, tasks = [],
              events = replicate event_limit no_completion, capacity = task_limit, event_capacity = event_limit,
              event_head = 0, event_count = 0, task_cursor = 0, identity = last_session + 1, now = 0,
              registered = 0, released = 0, pumping = False, outside = w, ticks = clock vm\<rparr>))"

definition vm_tasks_spawn ::
  "'w Native \<Rightarrow> 'w VMTasks \<Rightarrow> VMTaskId \<Rightarrow> nat \<Rightarrow> arguments \<Rightarrow> nat \<Rightarrow> 'w VMTasks \<times> (string + VMTaskId)" where
  "vm_tasks_spawn E s parent_id function args limit =
     (let ancestor = lookup s parent_id; is_root = (session parent_id = 0 \<and> id_slot parent_id = 0) in
      if pumping s \<or> length (tasks s) = capacity s \<or>
         (\<not> is_root \<and> (case ancestor of None \<Rightarrow> True | Some i \<Rightarrow> tstatus (tasks s ! i) \<notin> {TASK_READY, TASK_WAITING}))
      then (s, Inl ''task admission rejected'')
      else
        let limit = (case ancestor of None \<Rightarrow> limit
                     | Some i \<Rightarrow> if deadline (tasks s ! i) < limit then deadline (tasks s ! i) else limit);
            async = is_async (functions (program (template_vm s)) ! function);
            vm = lend s no_request (template_vm s);
            create = (if async then vm_execution_create_async else vm_execution_create_pending) in
        case create (session_native E) vm (Some function) args True of
          Inl (vm, message) \<Rightarrow> (s\<lparr>outside := snd (snd (world vm)), ticks := clock vm\<rparr>, Inl message)
        | Inr m \<Rightarrow>
            let t = \<lparr>body = Some m, slot = length (tasks s) + 1, parent = id_slot parent_id, deadline = limit,
                     tstatus = TASK_READY, outcome = TASK_INVALID, tresult = None, terror = None, texit_status = 0,
                     request = no_request, queued = False, async_read = async\<rparr> in
            (s\<lparr>tasks := tasks s @ [t]\<rparr>, Inr \<lparr>session = identity s, id_slot = length (tasks s) + 1\<rparr>))"

section \<open>Ending tasks\<close>

text \<open>The walk along the parents; a task's slot bounds its length.\<close>

fun ancestor_walk :: "'w Task list \<Rightarrow> nat \<Rightarrow> nat \<Rightarrow> nat \<Rightarrow> bool" where
  "ancestor_walk ts 0 at_slot top_slot = (at_slot = top_slot)"
| "ancestor_walk ts (Suc fuel) at_slot top_slot =
     (if at_slot \<noteq> 0 \<and> at_slot \<noteq> top_slot then ancestor_walk ts fuel (parent (ts ! (at_slot - 1))) top_slot else at_slot = top_slot)"

definition descendant :: "'w VMTasks \<Rightarrow> nat \<Rightarrow> nat \<Rightarrow> bool" where
  "descendant s i top_slot = (let k = slot (tasks s ! i) in ancestor_walk (tasks s) k k top_slot)"

definition release_request :: "nat \<Rightarrow> 'w VMTasks \<Rightarrow> 'w VMTasks" where
  "release_request i s =
     (let t = tasks s ! i in
      if pending (request t) then
        (set_task i (\<lambda>t. t\<lparr>request := (request t)\<lparr>pending := False, input := None\<rparr>, queued := False\<rparr>) s)
        \<lparr>released := u64 (released s + 1)\<rparr>
      else s)"

definition note_outcome :: "VMTaskStatus \<Rightarrow> 'w shared VMExecution \<Rightarrow> 'w Task \<Rightarrow> 'w Task" where
  "note_outcome ended m t =
     (if ended = TASK_COMPLETED then t\<lparr>tresult := result m\<rparr>
      else if ended = TASK_EXITED then t\<lparr>texit_status := exit_status m\<rparr>
      else if ended = TASK_TRAPPED then t\<lparr>terror := error m\<rparr>
      else t)"

definition end_body :: "'w Native \<Rightarrow> nat \<Rightarrow> VMTaskStatus \<Rightarrow> 'w VMTasks \<Rightarrow> 'w VMTasks" where
  "end_body E i ended s =
     (case body (tasks s ! i) of
        None \<Rightarrow> s
      | Some m \<Rightarrow>
          let s = set_task i (note_outcome ended m) s;
              s = (case vm_execution_destroy (session_native E) (lend s (request (tasks s ! i)) m) of
                     None \<Rightarrow> s | Some vm \<Rightarrow> give_back i vm s) in
          set_task i (\<lambda>t. t\<lparr>body := None\<rparr>) s)"

definition finish_body :: "'w Native \<Rightarrow> nat \<Rightarrow> VMTaskStatus \<Rightarrow> 'w VMTasks \<Rightarrow> 'w VMTasks" where
  "finish_body E i ended s =
     (let s = end_body E i ended s;
          s = (if ended \<noteq> TASK_COMPLETED then set_task i (\<lambda>t. t\<lparr>tresult := None\<rparr>) s else s);
          s = release_request i s in
      set_task i (\<lambda>t. t\<lparr>outcome := ended, tstatus := TASK_JOINING\<rparr>) s)"

definition cancel_one :: "'w Native \<Rightarrow> nat \<Rightarrow> 'w VMTasks \<Rightarrow> 'w VMTasks" where
  "cancel_one E i s = set_task i (\<lambda>t. t\<lparr>tstatus := TASK_CANCELLED\<rparr>) (finish_body E i TASK_CANCELLED s)"

text \<open>\<open>for (size_t i = tasks->count; i-- > 0;)\<close>\<close>

fun downward :: "(nat \<Rightarrow> 's \<Rightarrow> 's) \<Rightarrow> nat \<Rightarrow> 's \<Rightarrow> 's" where
  "downward f 0 s = s"
| "downward f (Suc i) s = downward f i (f i s)"

definition cancel_tree :: "'w Native \<Rightarrow> nat \<Rightarrow> 'w VMTasks \<Rightarrow> 'w VMTasks" where
  "cancel_tree E top_slot s =
     downward (\<lambda>i s. if \<not> terminal (tasks s ! i) \<and> descendant s i top_slot then cancel_one E i s else s) (length (tasks s)) s"

definition cancel_children :: "'w Native \<Rightarrow> nat \<Rightarrow> 'w VMTasks \<Rightarrow> 'w VMTasks" where
  "cancel_children E top_slot s =
     downward (\<lambda>i s. if slot (tasks s ! i) \<noteq> top_slot \<and> \<not> terminal (tasks s ! i) \<and> descendant s i top_slot
                     then cancel_one E i s else s) (length (tasks s)) s"

definition joined :: "'w VMTasks \<Rightarrow> nat \<Rightarrow> bool" where
  "joined s i \<longleftrightarrow> (\<forall>child \<in> set [i + 1..<length (tasks s)].
     \<not> (parent (tasks s ! child) = slot (tasks s ! i) \<and> \<not> terminal (tasks s ! child)))"

definition settle_one :: "'w Native \<Rightarrow> nat \<Rightarrow> 'w VMTasks \<Rightarrow> 'w VMTasks" where
  "settle_one E i s =
     (let s = (if tstatus (tasks s ! i) = TASK_JOINING \<and> joined s i
               then set_task i (\<lambda>t. t\<lparr>tstatus := outcome t\<rparr>) s else s);
          t = tasks s ! i in
      if terminal t \<and> tstatus t \<noteq> TASK_COMPLETED \<and> parent t \<noteq> 0 then
        let p = parent t - 1 in
        if \<not> terminal (tasks s ! p) \<and> outcome (tasks s ! p) \<noteq> TASK_TRAPPED \<and> outcome (tasks s ! p) \<noteq> TASK_EXITED then
          cancel_children E (slot (tasks s ! p))
            (set_task p (\<lambda>t. t\<lparr>terror := Some ''child task did not complete successfully''\<rparr>)
              (finish_body E p TASK_TRAPPED s))
        else s
      else s)"

definition settle :: "'w Native \<Rightarrow> 'w VMTasks \<Rightarrow> 'w VMTasks" where
  "settle E s = downward (settle_one E) (length (tasks s)) s"

definition vm_tasks_cancel :: "'w Native \<Rightarrow> 'w VMTasks \<Rightarrow> VMTaskId \<Rightarrow> 'w VMTasks \<times> bool" where
  "vm_tasks_cancel E s tid =
     (case lookup s tid of
        None \<Rightarrow> (s, False)
      | Some i \<Rightarrow> if pumping s then (s, False) else (settle E (cancel_tree E (slot (tasks s ! i)) s), True))"

section \<open>Completions\<close>

definition vm_tasks_pending :: "'w VMTasks \<Rightarrow> VMTaskId \<Rightarrow> (VMOperationId \<times> Value option) option" where
  "vm_tasks_pending s tid =
     (case lookup s tid of
        None \<Rightarrow> None
      | Some i \<Rightarrow>
          let r = request (tasks s ! i) in
          if \<not> pending r then None else Some (\<lparr>op_task = tid, op_generation = generation r\<rparr>, input r))"

definition enqueue :: "Completion \<Rightarrow> 'w VMTasks \<Rightarrow> 'w VMTasks" where
  "enqueue c s =
     (let tail = u64 (event_head s + event_count s) mod event_capacity s in
      s\<lparr>events := (events s)[tail := c], event_count := event_count s + 1\<rparr>)"

definition dequeue :: "'w VMTasks \<Rightarrow> Completion \<times> 'w VMTasks" where
  "dequeue s =
     (events s ! event_head s,
      s\<lparr>event_head := (event_head s + 1) mod event_capacity s, event_count := event_count s - 1\<rparr>)"

definition complete ::
  "'w VMTasks \<Rightarrow> VMOperationId \<Rightarrow> string option \<Rightarrow> Value option \<Rightarrow> bool \<Rightarrow> 'w VMTasks \<times> bool" where
  "complete s op message r read =
     (case lookup s (op_task op) of
        None \<Rightarrow> (s, False)
      | Some i \<Rightarrow>
          let t = tasks s ! i in
          if pumping s \<or> async_read t \<noteq> read \<or> \<not> pending (request t) \<or> queued t \<or>
             generation (request t) \<noteq> op_generation op \<or> event_count s = event_capacity s
          then (s, False)
          else (set_task i (\<lambda>t. t\<lparr>queued := True\<rparr>) (enqueue \<lparr>operation = op, cerror = message, cresult = r\<rparr> s), True))"

definition vm_tasks_complete :: "'w VMTasks \<Rightarrow> VMOperationId \<Rightarrow> string option \<Rightarrow> 'w VMTasks \<times> bool" where
  "vm_tasks_complete s op message = complete s op message None False"

definition vm_tasks_complete_read :: "'w VMTasks \<Rightarrow> VMOperationId \<Rightarrow> Value option \<Rightarrow> 'w VMTasks \<times> bool" where
  "vm_tasks_complete_read s op r = complete s op None r True"

definition resume_task :: "'w Native \<Rightarrow> nat \<Rightarrow> Completion \<Rightarrow> 'w VMTasks \<Rightarrow> 'w VMTasks" where
  "resume_task E i event s =
     (let t = tasks s ! i;
          m = lend s (request t) (the (body t));
          m = fst (if async_read t then vm_execution_complete_read (session_native E) m (cresult event)
                   else vm_execution_complete_print (session_native E) m (cerror event));
          s = release_request i (set_task i (\<lambda>t. t\<lparr>body := Some m\<rparr>) (give_back i m s)) in
      if error m \<noteq> None then
        settle E (cancel_children E (slot t) (finish_body E i TASK_TRAPPED s))
      else set_task i (\<lambda>t. t\<lparr>tstatus := TASK_READY\<rparr>) s)"

definition deliver_one :: "'w Native \<Rightarrow> 'w VMTasks \<Rightarrow> 'w VMTasks" where
  "deliver_one E s =
     (case dequeue s of (event, s) \<Rightarrow>
        (case lookup s (op_task (operation event)) of
           None \<Rightarrow> s
         | Some i \<Rightarrow>
             let r = request (tasks s ! i) in
             if \<not> pending r \<or> generation r \<noteq> op_generation (operation event) then s else resume_task E i event s))"

text \<open>\<open>while (tasks->event_count)\<close>: every turn takes one completion and none adds any.\<close>

fun deliver_loop :: "'w Native \<Rightarrow> nat \<Rightarrow> 'w VMTasks \<Rightarrow> 'w VMTasks" where
  "deliver_loop E 0 s = s"
| "deliver_loop E (Suc fuel) s = (if event_count s = 0 then s else deliver_loop E fuel (deliver_one E s))"

definition deliver_completions :: "'w Native \<Rightarrow> 'w VMTasks \<Rightarrow> 'w VMTasks" where
  "deliver_completions E s = deliver_loop E (event_count s) s"

section \<open>The pump\<close>

fun upward :: "(nat \<Rightarrow> 's \<Rightarrow> 's) \<Rightarrow> nat list \<Rightarrow> 's \<Rightarrow> 's" where
  "upward f [] s = s"
| "upward f (i # is) s = upward f is (f i s)"

definition expire :: "'w Native \<Rightarrow> 'w VMTasks \<Rightarrow> 'w VMTasks" where
  "expire E s =
     upward (\<lambda>i s. let t = tasks s ! i in
               if \<not> terminal t \<and> deadline t \<noteq> UINT64_MAX \<and> deadline t \<le> now s then cancel_tree E (slot t) s else s)
       [0..<length (tasks s)] s"

text \<open>The scan for a ready task: at most one round, leaving the cursor behind the task it finds.\<close>

fun scan :: "nat \<Rightarrow> 'w VMTasks \<Rightarrow> 'w VMTasks \<times> nat option" where
  "scan 0 s = (s, None)"
| "scan (Suc left) s =
     (let i = task_cursor s; s = s\<lparr>task_cursor := (task_cursor s + 1) mod length (tasks s)\<rparr> in
      if tstatus (tasks s ! i) = TASK_READY then (s, Some i) else scan left s)"

definition run_task :: "'w Native \<Rightarrow> nat \<Rightarrow> 'w VMTasks \<Rightarrow> 'w VMTasks" where
  "run_task E i s =
     (let t = tasks s ! i in
      case vm_execution_advance (session_native E) 1 (lend s (request t) (the (body t))) of
        (m, st) \<Rightarrow>
          let s = set_task i (\<lambda>t. t\<lparr>body := Some m\<rparr>) (give_back i m s) in
          if st = VM_WAITING then set_task i (\<lambda>t. t\<lparr>tstatus := TASK_WAITING\<rparr>) s
          else if st \<noteq> VM_YIELDED then
            let ended = (if st = VM_COMPLETED then TASK_COMPLETED else if st = VM_EXITED then TASK_EXITED else TASK_TRAPPED);
                s = finish_body E i ended s;
                s = (if ended \<noteq> TASK_COMPLETED then cancel_children E (slot t) s else s) in
            settle E s
          else s)"

fun pump_loop :: "'w Native \<Rightarrow> nat \<Rightarrow> 'w VMTasks \<Rightarrow> 'w VMTasks" where
  "pump_loop E 0 s = s"
| "pump_loop E (Suc budget) s =
     (case scan (length (tasks s)) s of
        (s, None) \<Rightarrow> s
      | (s, Some i) \<Rightarrow> pump_loop E budget (run_task E i s))"

definition vm_tasks_pump :: "'w Native \<Rightarrow> 'w VMTasks \<Rightarrow> nat \<Rightarrow> nat \<Rightarrow> 'w VMTasks \<times> bool" where
  "vm_tasks_pump E s at_time budget =
     (if pumping s \<or> at_time < now s then (s, False)
      else
        let s = s\<lparr>pumping := True, now := at_time\<rparr>;
            s = deliver_completions E s;
            s = settle E (expire E s);
            s = pump_loop E budget s in
        (s\<lparr>pumping := False\<rparr>, True))"

section \<open>Reading a session\<close>

definition vm_tasks_status :: "'w VMTasks \<Rightarrow> VMTaskId \<Rightarrow> VMTaskStatus" where
  "vm_tasks_status s tid = (case lookup s tid of None \<Rightarrow> TASK_INVALID | Some i \<Rightarrow> tstatus (tasks s ! i))"

definition vm_tasks_result :: "'w VMTasks \<Rightarrow> VMTaskId \<Rightarrow> Value option" where
  "vm_tasks_result s tid =
     (case lookup s tid of
        None \<Rightarrow> None
      | Some i \<Rightarrow> if tstatus (tasks s ! i) = TASK_COMPLETED then tresult (tasks s ! i) else None)"

definition vm_tasks_error :: "'w VMTasks \<Rightarrow> VMTaskId \<Rightarrow> string option" where
  "vm_tasks_error s tid = (case lookup s tid of None \<Rightarrow> None | Some i \<Rightarrow> terror (tasks s ! i))"

definition vm_tasks_exit_status :: "'w VMTasks \<Rightarrow> VMTaskId \<Rightarrow> nat" where
  "vm_tasks_exit_status s tid = (case lookup s tid of None \<Rightarrow> 0 | Some i \<Rightarrow> texit_status (tasks s ! i))"

definition vm_tasks_next_deadline :: "'w VMTasks \<Rightarrow> nat" where
  "vm_tasks_next_deadline s =
     fold (\<lambda>t d. if \<not> terminal t \<and> deadline t < d then deadline t else d) (tasks s) UINT64_MAX"

definition vm_tasks_stats :: "'w VMTasks \<Rightarrow> nat \<times> nat \<times> nat" where
  "vm_tasks_stats s = (registered s, released s, event_count s)"

text \<open>Destruction refuses inside a pump; otherwise what is left is the world and the final counters.\<close>

definition destroy_one :: "'w Native \<Rightarrow> nat \<Rightarrow> 'w VMTasks \<Rightarrow> 'w VMTasks" where
  "destroy_one E i s =
     release_request i
       (case body (tasks s ! i) of
          None \<Rightarrow> s
        | Some m \<Rightarrow>
            (case vm_execution_destroy (session_native E) (lend s (request (tasks s ! i)) m) of
               None \<Rightarrow> s | Some vm \<Rightarrow> give_back i vm s))"

definition vm_tasks_destroy :: "'w Native \<Rightarrow> 'w VMTasks \<Rightarrow> 'w VMTasks option" where
  "vm_tasks_destroy E s =
     (if pumping s then None
      else Some (((\<lambda>s. snd (dequeue s)) ^^ event_count s) (downward (destroy_one E) (length (tasks s)) s)))"

end
