(* ===== verification/Requests.thy ===== *)
theory Requests
  imports Tasks
begin

text \<open>
  What a task's machine does with its request, so that sessions can rely on it: a task waits for the session
  exactly while its request is pending.
\<close>

section \<open>Machines without capabilities\<close>

abbreviation request_of :: "'w shared VMExecution \<Rightarrow> Request" where
  "request_of m \<equiv> fst (world m)"

abbreviation registered_of :: "'w shared VMExecution \<Rightarrow> nat" where
  "registered_of m \<equiv> fst (snd (world m))"

text \<open>The profile of a task: embedded, no capability enabled, one kind of wait.\<close>

definition profiled :: "bool \<Rightarrow> 'w shared VMExecution \<Rightarrow> bool" where
  "profiled async m \<longleftrightarrow> embedded m \<and> \<not> host_call m \<and> \<not> network_enabled m \<and> \<not> server_read_enabled m \<and>
     \<not> console_enabled m \<and> \<not> filesystem_enabled m \<and> \<not> server_enabled m \<and> read_wait m = async \<and> print_wait m = (\<not> async)"

lemma profiled_config: "config b = config a \<Longrightarrow> profiled x b = profiled x a"
  by (simp add: config_def profiled_def)

text \<open>Nothing is under way: no request, no wait and no handle.\<close>

definition calm :: "bool \<Rightarrow> nat \<Rightarrow> nat \<Rightarrow> 'w shared VMExecution \<Rightarrow> bool" where
  "calm async n g m \<longleftrightarrow> profiled async m \<and> tcp m = None \<and> http m = None \<and> server m = None \<and> \<not> yield_requested m \<and>
     \<not> waiting_read m \<and> http_waiting m = None \<and> \<not> pending (request_of m) \<and> registered_of m = n \<and> generation (request_of m) = g"

text \<open>The request was registered and the machine waits for it.\<close>

definition asking_session :: "bool \<Rightarrow> nat \<Rightarrow> nat \<Rightarrow> 'w shared VMExecution \<Rightarrow> bool" where
  "asking_session async n g m \<longleftrightarrow> profiled async m \<and> tcp m = None \<and> http m = None \<and> server m = None \<and> \<not> yield_requested m \<and>
     waiting_read m = async \<and> http_waiting m = None \<and> pending (request_of m) \<and> registered_of m = n + 1 \<and> n \<noteq> SIZE_MAX \<and>
     generation (request_of m) = g + 1 \<and> g \<noteq> UINT64_MAX \<and> status m = VM_WAITING \<and> error m = None"

text \<open>A wait the session knows nothing of.\<close>

definition away :: "bool \<Rightarrow> nat \<Rightarrow> nat \<Rightarrow> 'w shared VMExecution \<Rightarrow> bool" where
  "away async n g m \<longleftrightarrow> profiled async m \<and> tcp m = None \<and> http m = None \<and> server m = None \<and> \<not> yield_requested m \<and>
     (http_waiting m \<noteq> None \<longrightarrow> \<not> waiting_read m) \<and> \<not> pending (request_of m) \<and> registered_of m = n \<and>
     generation (request_of m) = g \<and> status m \<noteq> VM_YIELDED"

definition tame :: "bool \<Rightarrow> nat \<Rightarrow> nat \<Rightarrow> 'w shared VMExecution \<Rightarrow> bool" where
  "tame async n g m \<longleftrightarrow> calm async n g m \<or> asking_session async n g m \<or> away async n g m"

lemma calm_updates:
  assumes "calm x n g m"
  shows "calm x n g (m\<lparr>error := e\<rparr>)" "calm x n g (m\<lparr>error := e, fault_kind := k\<rparr>)" "calm x n g (m\<lparr>coverage := c\<rparr>)"
    "calm x n g (m\<lparr>status := t\<rparr>)" "calm x n g (m\<lparr>exit_status := y\<rparr>)"
    "calm x n g (m\<lparr>world := (request_of m, registered_of m, w)\<rparr>)" "calm x n g (trap e' m)" "calm x n g (trap_unless e' m)"
  using assms by (simp_all add: calm_def profiled_def trap_def trap_unless_def)

lemma calm_note: "calm x n g m \<Longrightarrow> calm x n g (note_error e m)"
  by (simp add: note_error_def calm_updates split: option.split)

lemma calm_tame: "calm x n g m \<Longrightarrow> tame x n g m"
  by (simp add: tame_def)

lemma calm_absorb: "calm x n g m \<Longrightarrow> calm x n g (fst (absorb m r))"
  by (auto simp: absorb_def split: outcome.split intro!: calm_updates)

lemma calm_native:
  assumes "calm x n g m" and "waited a = None"
  shows "calm x n g (fst (native_do (session_native E) a m))"
proof -
  have "calm x n g (m\<lparr>world := fst (performing (session_native E) a (world m))\<rparr>)"
    using calm_updates(6) [OF assms(1)] assms(2) by (cases "world m") (simp add: session_native_def split_beta)
  then show ?thesis by (simp add: native_do_def split_beta calm_note)
qed

lemma registered_native:
  assumes "calm x n g m" and "waited a = Some v"
  obtains (refused) "\<not> snd (native_do (session_native E) a m)" "calm x n g (fst (native_do (session_native E) a m))"
    | (taken) r where "snd (native_do (session_native E) a m)" "n \<noteq> SIZE_MAX" "g \<noteq> UINT64_MAX"
        "fst (native_do (session_native E) a m) = m\<lparr>world := (r, n + 1, snd (snd (world m)))\<rparr>"
        "pending r" "generation r = g + 1"
proof (cases "g = UINT64_MAX \<or> n = SIZE_MAX")
  case True
  then show thesis using assms
    by (cases "world m", intro refused)
      (auto simp: native_do_def session_native_def register_request_def calm_def note_error_def profiled_def)
next
  case False
  then show thesis using assms
    by (cases "world m", intro taken [of "(request_of m)\<lparr>generation := g + 1, input := Some v, pending := True\<rparr>"])
      (auto simp: native_do_def session_native_def register_request_def calm_def note_error_def)
qed

lemma tame_refused: "calm x n g m \<Longrightarrow> tame x n g (trap e m)"
  by (simp add: calm_tame calm_updates)

lemma tame_exit: "calm x n g m \<Longrightarrow> tame x n g (m\<lparr>exit_status := k, status := s\<rparr>)"
  by (rule calm_tame) (simp add: calm_def profiled_def)

lemma tame_wait_read: "calm x n g m \<Longrightarrow> tame x n g (wait_read m)"
  by (simp add: tame_def away_def calm_def wait_read_def profiled_def)

text \<open>Without capabilities, most services refuse.\<close>

lemma refusing_services:
  assumes "calm x n g m"
  shows "tame x n g (service_call E m args)" "tame x n g (server_call_mode E m args b)" "tame x n g (server_call E m args)"
    "tame x n g (console_service E m v b)" "tame x n g (filesystem_service E m args b)" "tame x n g (server_read E m v)"
    "tame x n g (tcp_exchange E m args)" "tame x n g (http_exchange E m args)" "tame x n g (fst (http_listen E m b args))"
    "tame x n g (process_exit m v)" "tame x n g (fst (host_exit E m args))"
  using assms tame_refused [OF assms] tame_exit [OF assms] calm_tame [OF calm_updates(7) [OF calm_updates(5) [OF assms]]]
  by (auto simp: calm_def profiled_def service_call_def server_call_mode_def server_call_def console_service_def
      filesystem_service_def server_read_def tcp_exchange_def http_exchange_def http_listen_def process_exit_def host_exit_def
      Let_def split: option.split)

lemma tame_shutdown:
  assumes "calm x n g m"
  shows "tame x n g (fst (http_shutdown (session_native E) m b v))"
proof (cases v)
  case (VHttpState a)
  let ?m = "fst (native_do (session_native E) (Http_Request_Close v b) m)"
  have c: "calm x n g ?m" by (rule calm_native [OF assms]) (simp add: waited_def)
  then have "tame x n g (?m\<lparr>http_waiting := Some v, status := VM_WAITING\<rparr>)"
    by (simp add: tame_def away_def calm_def profiled_def)
  then show ?thesis
    using c assms tame_refused [OF c] tame_refused [OF assms] calm_tame [OF c] VHttpState
    by (auto simp: http_shutdown_def split_beta Let_def)
qed (use tame_refused [OF assms] in \<open>simp_all add: http_shutdown_def\<close>)

lemma tame_fake_read:
  assumes "calm x n g m" and "error m = None"
  shows "tame x n g (fake_read (session_native E) m v)"
proof (cases v)
  case (VBool b)
  let ?r = "native_do (session_native E) (Read_Wait v) m"
  have w: "waited (Read_Wait v) = Some v" by (simp add: waited_def)
  have p: "embedded m" "read_wait m = x" using assms(1) by (simp_all add: calm_def profiled_def)
  show ?thesis
    using assms(1) w
  proof (cases rule: registered_native [where E = E])
    case refused
    then show ?thesis
      using p calm_tame [OF calm_updates(8)] assms(1) by (auto simp: fake_read_def VBool split_beta Let_def)
  next
    case (taken r)
    then have "x \<Longrightarrow> tame x n g ((wait_read (fst ?r))\<lparr>fake_fail := b\<rparr>)"
      using assms by (simp add: tame_def asking_session_def wait_read_def calm_def profiled_def)
    then show ?thesis
      using p taken(1) calm_tame [OF calm_updates(8) [OF assms(1)]] by (auto simp: fake_read_def VBool split_beta Let_def)
  qed
qed (use tame_refused [OF assms(1)] in \<open>simp_all add: fake_read_def\<close>)

lemma tame_embedded:
  assumes "calm x n g m" and "error m = None"
  shows "tame x n g (fst (embedded_builtin (session_native E) m e args))"
proof (cases "print_wait m \<and> streq (bname e) ''print''")
  case True
  let ?r = "native_do (session_native E) (Print_Wait (args ! 0)) m"
  have w: "waited (Print_Wait (args ! 0)) = Some (args ! 0)" by (simp add: waited_def)
  have p: "print_wait m = (\<not> x)" "\<not> host_call m" using assms(1) by (simp_all add: calm_def profiled_def)
  show ?thesis
    using assms(1) w
  proof (cases rule: registered_native [where E = E])
    case refused
    then show ?thesis
      using p calm_tame [OF calm_updates(8)] tame_refused [OF assms(1)] by (auto simp: embedded_builtin_def split_beta Let_def)
  next
    case (taken r)
    then have "tame x n g ((fst ?r)\<lparr>status := VM_WAITING\<rparr>)"
      using assms True p by (simp add: tame_def asking_session_def calm_def profiled_def)
    then show ?thesis
      using p taken(1) tame_refused [OF assms(1)] by (auto simp: embedded_builtin_def split_beta Let_def)
  qed
next
  case False
  then show ?thesis
    using assms(1) tame_refused [OF assms(1)] by (auto simp: embedded_builtin_def calm_def profiled_def)
qed

lemma calm_lifted:
  assumes "calm x n g m"
  shows "calm x n g (m\<lparr>world := fst (handling (session_native E) h name args (world m))\<rparr>)"
    and "calm x n g (m\<lparr>world := fst (connecting (session_native E) args (world m))\<rparr>)"
  using calm_updates(6) [OF assms] by (cases "world m", simp add: session_native_def split_beta)+

lemma calm_builtin_call:
  assumes "calm x n g m"
  shows "calm x n g (fst (builtin_call (session_native E) m name args))"
proof (cases "builtin name")
  case (Some e)
  then show ?thesis
    using calm_absorb [OF assms] calm_absorb [OF calm_lifted(1) [OF assms]]
    by (cases "bcall e") (simp_all add: builtin_call_def Let_def split_beta)
qed (simp add: builtin_call_def calm_absorb [OF assms])

definition tamed :: "bool \<Rightarrow> nat \<Rightarrow> nat \<Rightarrow> 'w shared VMExecution \<times> Value option \<times> bool \<Rightarrow> bool" where
  "tamed x n g r \<longleftrightarrow> tame x n g (fst r) \<or> snd (snd r)"

lemma tamed_rules:
  "tamed x n g r \<Longrightarrow> tamed x n g s \<Longrightarrow> tamed x n g (if c then r else s)"
  "tame x n g m \<Longrightarrow> tamed x n g (m, v, c)"
  "tame x n g (fst p) \<Longrightarrow> tamed x n g (case p of (m, v) \<Rightarrow> (m, v, False))"
  "tame x n g (case q of (m, ok) \<Rightarrow> f m ok) \<Longrightarrow> tamed x n g (case q of (m, ok) \<Rightarrow> (f m ok, v, False))"
  by (auto simp: tamed_def split_beta)

lemma calm_continue:
  "calm x n g m \<Longrightarrow> tame x n g (case native_do (session_native E) (Tcp_Server_Http_Continue u) m of
     (m, ok) \<Rightarrow> if ok then wait_read m else m)"
  using calm_native [of x n g m "Tcp_Server_Http_Continue u" E]
  by (auto simp: split_beta waited_def tame_wait_read calm_tame)

lemma tamed_invoke:
  assumes "calm x n g m"
  shows "tamed x n g (case invoke_connection (session_native E) m args of (m, called) \<Rightarrow> (m, None, called))"
  using calm_tame [OF calm_note [OF calm_lifted(2) [OF assms, of E args]]]
  by (auto simp: invoke_connection_def tamed_def Let_def split: prod.split option.split)

lemma tamed_arguments:
  "calm x n g m \<Longrightarrow> tamed x n g (if embedded m \<and> \<not> console_enabled m then (trap e m, None, False) else r)"
  using tame_refused [of x n g m e] by (simp add: calm_def profiled_def tamed_def)

lemma tame_builtin:
  assumes "calm x n g m" and "error m = None"
  shows "tamed x n g (execution_builtin (session_native E) m e args)"
proof -
  define k where "k = map_option vm_coverage_gap (coverage m)"
  have gap: "calm x n g (if c then m\<lparr>coverage := k\<rparr> else m)" "error (if c then m\<lparr>coverage := k\<rparr> else m) = None" for c
    using assms by (simp_all add: calm_updates)
  show ?thesis
    unfolding execution_builtin_def Let_def k_def [symmetric]
    by (intro tamed_rules calm_continue tamed_invoke tamed_arguments refusing_services tame_shutdown tame_fake_read tame_embedded
        calm_tame [OF calm_builtin_call] assms gap)
qed

section \<open>Runs of a task\<close>

lemma tame_ready: "tame x n g m \<Longrightarrow> status m = VM_YIELDED \<Longrightarrow> calm x n g m"
  by (auto simp: tame_def asking_session_def away_def)

lemma calm_fields:
  assumes "calm x n g a" and "config b = config a" and "world b = world a" and "yield_requested b = yield_requested a"
    and "(tcp b, http b, server b, waiting_read b, http_waiting b) = (tcp a, http a, server a, waiting_read a, http_waiting a)"
  shows "calm x n g b"
  using assms profiled_config [OF assms(2)] by (simp add: calm_def)

lemma quiet_calm:
  assumes "quiet a b" and "calm x n g a"
  shows "calm x n g b"
proof -
  have e: "b\<lparr>error := error a, fault_kind := fault_kind a, fresh := fresh a, iterators := iterators a, frames := frames a\<rparr> = a"
    using assms(1) by (simp add: quiet_def)
  show ?thesis
    using calm_fields [OF assms(2) config_quiet [OF assms(1)] _ quiet_yield [OF assms(1)]]
      arg_cong [OF e, of world] arg_cong [OF e, of tcp] arg_cong [OF e, of http] arg_cong [OF e, of server]
      arg_cong [OF e, of waiting_read] arg_cong [OF e, of http_waiting] by simp
qed

lemma entered_calm:
  assumes "entered a fn b" and "calm x n g a"
  shows "calm x n g b"
proof -
  have e: "b\<lparr>error := error a, coverage := coverage a, frames := frames a, frame_capacity := frame_capacity a\<rparr> = a"
    using assms(1) by (simp add: entered_def)
  show ?thesis
    using calm_fields [OF assms(2) config_entered [OF assms(1)] _ entered_yield [OF assms(1)]]
      arg_cong [OF e, of world] arg_cong [OF e, of tcp] arg_cong [OF e, of http] arg_cong [OF e, of server]
      arg_cong [OF e, of waiting_read] arg_cong [OF e, of http_waiting] by simp
qed

lemma tame_updates:
  assumes "tame x n g m"
  shows "tame x n g (m\<lparr>frames := fs\<rparr>)" "tame x n g (m\<lparr>coverage := c\<rparr>)" "tame x n g (m\<lparr>running := b\<rparr>)"
    "tame x n g (tick m)" "tame x n g (m\<lparr>yield_requested := False\<rparr>)" "tame x n g (set_top f m)"
    "tame x n g (m\<lparr>coverage := c, frames := fs\<rparr>)"
  using assms by (auto simp: tame_def calm_def asking_session_def away_def profiled_def tick_def set_top_def)

lemma tame_pending: "tame x n g m \<Longrightarrow> tame x n g (coverage_complete_pending m)"
  by (auto simp: coverage_complete_pending_def tame_updates split: option.split list.split)

lemma tame_leave: "tame x n g m \<Longrightarrow> tame x n g (leave m)"
  by (auto simp: tame_def calm_def asking_session_def away_def profiled_def leave_def Let_def frames_clear_def)

lemma tame_failed: "calm x n g m \<Longrightarrow> tame x n g ((fail_trapped (trap e m))\<lparr>running := False\<rparr>)"
  by (simp add: tame_def calm_def profiled_def fail_trapped_def trap_def frames_clear_def)

lemma tame_resume_shutdown:
  assumes "tame x n g m"
  shows "tame x n g (resume_shutdown E m)"
proof (cases "status m = VM_WAITING \<and> http_waiting m \<noteq> None")
  case True
  have "calm x n g (m\<lparr>http_waiting := None\<rparr>)"
    using assms True by (auto simp: tame_def calm_def asking_session_def away_def profiled_def)
  then show ?thesis using assms
    by (auto simp: resume_shutdown_def fail_trapped_def trap_def frames_clear_def set_top_def coverage_complete_pending_def
        calm_def profiled_def tame_def split: option.split Value.split list.split)
next
  case False
  then have "resume_shutdown E m = m" by (auto simp: resume_shutdown_def split: option.split Value.split)
  then show ?thesis using assms by simp
qed

interpretation task_run: run_invariant "session_native E" "\<lambda>m. underway m \<and> tame x n g m" "\<lambda>m. settled m \<and> tame x n g m"
proof unfold_locales
  fix m a b :: "'a shared VMExecution" and w y args r k as
  assume c: "native_call m w y args a" and i: "underway m \<and> tame x n g m" "underway a \<and> tame x n g a"
    and s: "status a = VM_YIELDED" "serviced a b"
  have e: "error a = None" using c by (simp add: native_call_def)
  have ca: "calm x n g a" using i(2) s(1) tame_ready by blast
  show "execution_builtin (session_native E) a y args = (b, r, False) \<Longrightarrow> underway b \<and> tame x n g b"
    using tame_builtin [OF ca e, of E y args] settling_run.native [OF c _ _ s] i by (simp add: tamed_def)
  assume st: "status b = VM_YIELDED" "streq (bname y) ''http_connection_invoke''"
    and x: "\<exists>u z. connecting (session_native E) args (world a) = (u, Some (k, as), z) \<and> b = note_error z (a\<lparr>world := u\<rparr>)"
  have "calm x n g b" using x calm_note [OF calm_lifted(2) [OF ca, of E args]] by auto
  then show "underway (fst (frame_push (session_native E) b (Some k) (Some as))) \<and>
      tame x n g (fst (frame_push (session_native E) b (Some k) (Some as)))"
    using settling_run.invoked [OF c st(2) _ _ s st(1) x] i entered_calm [OF frame_push_entered] calm_tame by blast
next
  fix m a :: "'a shared VMExecution" and w k args
  show "code_call m w k args a \<Longrightarrow> underway m \<and> tame x n g m \<Longrightarrow> underway a \<and> tame x n g a \<Longrightarrow> status a = VM_YIELDED \<Longrightarrow>
     underway (fst (frame_push (session_native E) a (Some k) (Some (map Some args)))) \<and>
      tame x n g (fst (frame_push (session_native E) a (Some k) (Some (map Some args))))"
    by (auto intro: settling_run.code intro!: calm_tame entered_calm [OF frame_push_entered] tame_ready)
next
  fix a b :: "'a shared VMExecution"
  show "quiet a b \<Longrightarrow> underway a \<and> tame x n g a \<Longrightarrow> status a = VM_YIELDED \<Longrightarrow> underway b \<and> tame x n g b"
    using settling_run.quiet quiet_calm calm_tame tame_ready by blast
next
  fix m :: "'a shared VMExecution" and e
  assume m: "underway m \<and> tame x n g m"
  show "status m = VM_YIELDED \<Longrightarrow> underway (trap e m) \<and> tame x n g (trap e m)"
    using settling_run.trapped m tame_refused tame_ready by blast
  show "status m = VM_YIELDED \<Longrightarrow> settled ((fail_trapped (trap out_of_memory m))\<lparr>running := False\<rparr>) \<and>
      tame x n g ((fail_trapped (trap out_of_memory m))\<lparr>running := False\<rparr>)"
    using settling_run.exhausted m tame_failed tame_ready by blast
next
  fix a :: "'a shared VMExecution" and v
  assume a: "underway a \<and> tame x n g a" "status a = VM_YIELDED" "error a = None"
  have "calm x n g a" using a tame_ready by blast
  then have "tame x n g (a\<lparr>frames := [], result := Some v, status := VM_COMPLETED\<rparr>)"
    by (intro calm_tame) (simp add: calm_def profiled_def)
  with settling_run.last a show "underway (a\<lparr>frames := [], result := Some v, status := VM_COMPLETED\<rparr>) \<and>
     tame x n g (a\<lparr>frames := [], result := Some v, status := VM_COMPLETED\<rparr>)" by blast
qed (auto simp: tame_updates tame_pending tame_leave tame_resume_shutdown settling_run.caller settling_run.delivered
    settling_run.start settling_run.shutdown settling_run.counted settling_run.covered settling_run.marked
    settling_run.ticked settling_run.resumed settling_run.left dest: settling_run.live)

section \<open>Machines at rest in their tasks\<close>

text \<open>What holds of a task's machine between runs, whatever world it was last run in.\<close>

definition hosted :: "bool \<Rightarrow> Request \<Rightarrow> 'w shared VMExecution \<Rightarrow> bool" where
  "hosted async r m \<longleftrightarrow> settled m \<and> profiled async m \<and> tcp m = None \<and> http m = None \<and> server m = None \<and> \<not> yield_requested m \<and>
     (status m = VM_YIELDED \<longrightarrow> \<not> pending r \<and> \<not> waiting_read m \<and> http_waiting m = None) \<and>
     (pending r \<longrightarrow> status m = VM_WAITING \<and> waiting_read m = async \<and> http_waiting m = None) \<and>
     (http_waiting m \<noteq> None \<longrightarrow> \<not> waiting_read m)"

lemma lend_fields [simp]:
  "status (lend s r m) = status m" "running (lend s r m) = running m" "settled (lend s r m) = settled m"
  "profiled x (lend s r m) = profiled x m" "world (lend s r m) = (r, registered s, outside s)" "clock (lend s r m) = ticks s"
  by (simp_all add: lend_def settled_def profiled_def cong: VMExecutionStatus.case_cong)

lemma hosted_lent:
  assumes "hosted x r m" and "\<not> pending r"
  shows "tame x (registered s) (generation r) (lend s r m)"
  using assms by (auto simp: hosted_def tame_def calm_def away_def lend_def profiled_def)

lemma hosted_back:
  assumes "settled m" and "tame x n g m"
  shows "hosted x (request_of m) m" and "registered_of m = n + of_bool (pending (request_of m))"
    and "generation (request_of m) = g + of_bool (pending (request_of m))"
    and "pending (request_of m) \<Longrightarrow> n \<noteq> SIZE_MAX \<and> g \<noteq> UINT64_MAX \<and> status m = VM_WAITING"
  using assms by (auto simp: hosted_def tame_def calm_def away_def asking_session_def)

lemma hosted_runs:
  assumes "hosted x r m" and "\<not> pending r"
    and m': "m' = fst (vm_execution_advance (session_native E) 1 (lend s r m))"
  shows "hosted x (request_of m') m'" and "registered_of m' = registered s + of_bool (pending (request_of m'))"
    and "generation (request_of m') = generation r + of_bool (pending (request_of m'))"
    and "pending (request_of m') \<Longrightarrow> registered s \<noteq> SIZE_MAX \<and> generation r \<noteq> UINT64_MAX \<and> status m' = VM_WAITING"
    and "snd (vm_execution_advance (session_native E) 1 (lend s r m)) = status m'"
proof -
  have s: "settled (lend s r m)" using assms(1) by (simp add: hosted_def)
  have "settled m' \<and> tame x (registered s) (generation r) m'"
    unfolding m' using s hosted_lent [OF assms(1,2)] by (intro task_run.advance_kept) simp
  with hosted_back show "hosted x (request_of m') m'" "registered_of m' = registered s + of_bool (pending (request_of m'))"
    "generation (request_of m') = generation r + of_bool (pending (request_of m'))"
    "pending (request_of m') \<Longrightarrow> registered s \<noteq> SIZE_MAX \<and> generation r \<noteq> UINT64_MAX \<and> status m' = VM_WAITING" by blast+
  show "snd (vm_execution_advance (session_native E) 1 (lend s r m)) = status m'"
    unfolding m' using s
    by (auto simp: settled_def vm_execution_advance_def Let_def fail_trapped_def frames_clear_def split: turn.split)
qed

text \<open>A completion is always accepted: the machine runs again or has trapped.\<close>

lemma profiled_updates [simp]:
  "profiled x (m\<lparr>waiting_read := b\<rparr>) = profiled x m" "profiled x (m\<lparr>error := e\<rparr>) = profiled x m"
  "profiled x (m\<lparr>waiting_read := b, error := e\<rparr>) = profiled x m"
  by (simp_all add: profiled_def)

lemma deliver_fields:
  "world (deliver E m v) = world m" "waiting_read (deliver E m v) = waiting_read m" "http_waiting (deliver E m v) = http_waiting m"
  "profiled x (deliver E m v) = profiled x m" "tcp (deliver E m v) = tcp m" "http (deliver E m v) = http m"
  "server (deliver E m v) = server m" "yield_requested (deliver E m v) = yield_requested m" "clock (deliver E m v) = clock m"
  by (simp_all add: deliver_def trap_def set_top_def profiled_def split: option.split)

lemma resume_fields:
  "world (resume m) = world m" "waiting_read (resume m) = waiting_read m" "http_waiting (resume m) = http_waiting m"
  "profiled x (resume m) = profiled x m" "tcp (resume m) = tcp m" "http (resume m) = http m"
  "server (resume m) = server m" "yield_requested (resume m) = yield_requested m" "clock (resume m) = clock m"
  "error (resume m) = error m" "status (resume m) = (if error m = None then VM_YIELDED else VM_TRAPPED)"
  by (auto simp: resume_def coverage_complete_pending_def fail_trapped_def frames_clear_def profiled_def
      split: option.split list.split)

lemma hosted_completed:
  assumes "hosted x r m" and "pending r"
    and m': "m' = fst (if x then vm_execution_complete_read E (lend s r m) v else vm_execution_complete_print E (lend s r m) e)"
  shows "snd (if x then vm_execution_complete_read E (lend s r m) v else vm_execution_complete_print E (lend s r m) e)"
    and "hosted x (r\<lparr>pending := False, input := None\<rparr>) m'" and "world m' = (r, registered s, outside s)" and "clock m' = ticks s"
    and "status m' = (if error m' = None then VM_YIELDED else VM_TRAPPED)"
proof -
  have l: "waiting_read (lend s r m) = x" "tcp (lend s r m) = None" "http (lend s r m) = None" "server (lend s r m) = None"
    "http_waiting (lend s r m) = None" "\<not> running (lend s r m)" "status (lend s r m) = VM_WAITING" "settled (lend s r m)"
    "\<not> yield_requested (lend s r m)" "profiled x (lend s r m)"
    using assms(1,2) by (auto simp: hosted_def lend_def settled_def profiled_def)
  show "snd (if x then vm_execution_complete_read E (lend s r m) v else vm_execution_complete_print E (lend s r m) e)"
    using l by (auto simp: vm_execution_complete_read_def vm_execution_complete_print_def Let_def)
  have f: "\<not> waiting_read m'" "tcp m' = None" "http m' = None" "server m' = None" "http_waiting m' = None"
    "\<not> yield_requested m'" "profiled x m'" "world m' = (r, registered s, outside s)" "clock m' = ticks s"
    "status m' = (if error m' = None then VM_YIELDED else VM_TRAPPED)"
    unfolding m' using l
    by (auto simp: vm_execution_complete_read_def vm_execution_complete_print_def Let_def deliver_fields resume_fields trap_def)
  have "settled m'" unfolding m' using complete_settled [OF l(8)] by auto
  with f show "hosted x (r\<lparr>pending := False, input := None\<rparr>) m'" "world m' = (r, registered s, outside s)" "clock m' = ticks s"
    "status m' = (if error m' = None then VM_YIELDED else VM_TRAPPED)" by (auto simp: hosted_def)
qed

text \<open>Destruction touches the outside world only.\<close>

definition same_request :: "'w shared VMExecution \<Rightarrow> 'w shared VMExecution \<Rightarrow> bool" where
  "same_request a b \<longleftrightarrow> fst (world b) = fst (world a) \<and> fst (snd (world b)) = fst (snd (world a)) \<and> clock b = clock a"

lemma same_request_native:
  "waited x = None \<Longrightarrow> same_request a m \<Longrightarrow> same_request a (fst (native_do (session_native E) x m))"
  by (cases "world m") (simp add: same_request_def native_do_def session_native_def split_beta note_error_def split: option.split)

lemma same_request_drop:
  "(\<And>k. waited (f k) = None) \<Longrightarrow> same_request a m \<Longrightarrow>
     same_request a (case h of None \<Rightarrow> m | Some k \<Rightarrow> fst (native_do (session_native E) (f k) m))"
  by (simp add: same_request_native split: option.split)

lemma same_request_restore:
  assumes "same_request a m"
  shows "same_request a (restore_stop_signals (session_native E) m)"
  using same_request_native [OF _ assms, of Restore_Stop_Signals E] assms
  by (simp add: restore_stop_signals_def waited_def same_request_def)

lemma same_request_destroy: "same_request m (destroy_services (session_native E) m)"
  unfolding destroy_services_def Let_def
  by (intro same_request_native same_request_restore same_request_drop) (simp_all add: waited_def same_request_def)

lemma destroyed:
  assumes "\<not> running m"
  obtains vm w where "vm_execution_destroy (session_native E) (lend s r m) = Some vm" "world vm = (r, registered s, w)"
    "clock vm = ticks s"
proof -
  let ?d = "destroy_services (session_native E) (lend s r m)"
  have "fst (world ?d) = r" "fst (snd (world ?d)) = registered s" "clock ?d = ticks s"
    using same_request_destroy [of "lend s r m" E] by (simp_all add: same_request_def)
  with assms that [of "(VM.truncate ?d)\<lparr>execution := False\<rparr>" "snd (snd (world ?d))"] show thesis
    by (simp add: vm_execution_destroy_def VM.defs prod_eq_iff)
qed

text \<open>A new task stands at its first instruction.\<close>

lemma created_hosted:
  assumes c: "(if x then vm_execution_create_async else vm_execution_create_pending) (session_native E) (lend s no_request vm)
    (Some f) args True = Inr m"
  shows "hosted x no_request m" and "status m = VM_YIELDED" and "world m = (no_request, registered s, outside s)" and "clock m = ticks s"
proof -
  let ?vm = "lend s no_request vm"
  obtain m0 where m0: "vm_execution_create (session_native E) ?vm (Some f) args False = Inr m0"
    "m = (if x then m0\<lparr>read_wait := True\<rparr> else m0\<lparr>print_wait := True\<rparr>)"
    using c by (cases "vm_execution_create (session_native E) ?vm (Some f) args False")
      (auto simp: vm_execution_create_async_def vm_execution_create_pending_def split: if_splits)
  define a where "a = (new_execution ?vm)\<lparr>embedded := True, host_call := False, error := None, fault_kind := VM_FAULT_FATAL,
    execution := True, coverage := vm_coverage_start (coverage ?vm) (program_address ?vm)\<rparr>"
  have p: "m0 = fst (frame_push (session_native E) a (Some f) args)"
    using m0(1) by (auto simp: vm_execution_create_def Let_def a_def split_beta split: if_splits)
  have e: "m0\<lparr>error := error a, coverage := coverage a, frames := frames a, frame_capacity := frame_capacity a\<rparr> = a"
    using frame_push_entered [of a "Some f" "session_native E" args] by (simp add: p entered_def)
  note fields = arg_cong [OF e, of tcp] arg_cong [OF e, of http] arg_cong [OF e, of server] arg_cong [OF e, of waiting_read]
    arg_cong [OF e, of http_waiting] arg_cong [OF e, of yield_requested] arg_cong [OF e, of world] arg_cong [OF e, of clock]
    arg_cong [OF e, of status] arg_cong [OF e, of config]
  have a: "tcp a = None" "http a = None" "server a = None" "\<not> waiting_read a" "http_waiting a = None" "\<not> yield_requested a"
    "world a = (no_request, registered s, outside s)" "clock a = ticks s" "status a = VM_YIELDED"
    "profiled x (if x then a\<lparr>read_wait := True\<rparr> else a\<lparr>print_wait := True\<rparr>)"
    by (auto simp: a_def profiled_def new_execution_def VM.defs VMExecution.defs lend_def)
  have "config m0 = config a" using fields(10) by (simp add: config_def)
  then have "profiled x m" using a(10) by (auto simp: m0(2) config_def profiled_def split: if_splits)
  moreover have "settled m" using create_settled [OF m0(1)] by (auto simp: m0(2) settled_def cong: VMExecutionStatus.case_cong)
  ultimately show "hosted x no_request m" using fields(1-6) a(1-6) by (auto simp: hosted_def m0(2) no_request_def)
  show "status m = VM_YIELDED" "world m = (no_request, registered s, outside s)" "clock m = ticks s"
    using fields(7-9) a(7-9) by (simp_all add: m0(2))
qed

end
