(* ===== verification/Sessions.thy ===== *)
theory Sessions
  imports Requests
begin

text \<open>
  Task sessions: the invariants of the task table and what the interface promises of cancellation,
  completions, deadlines and scheduling.
\<close>

section \<open>What ending tasks leaves alone\<close>

text \<open>Everything but the states of the tasks and the counters of requests.\<close>

definition fixture :: "'w Task \<Rightarrow> nat \<times> nat \<times> nat \<times> bool" where
  "fixture t = (slot t, parent t, deadline t, async_read t)"

definition skeleton where
  "skeleton s = (map fixture (tasks s), (events s, capacity s, event_capacity s, event_head s, event_count s),
     task_cursor s, identity s, now s, pumping s, template_vm s)"

lemma skeleton_length: "skeleton a = skeleton b \<Longrightarrow> length (tasks a) = length (tasks b)"
  by (auto simp: skeleton_def dest: arg_cong [of _ _ length])

lemma skeleton_fixture: "skeleton a = skeleton b \<Longrightarrow> i < length (tasks b) \<Longrightarrow> fixture (tasks a ! i) = fixture (tasks b ! i)"
  using skeleton_length [of a b] by (auto simp: skeleton_def dest!: arg_cong [of _ _ "\<lambda>xs. xs ! i"])

lemma skeleton_set_task:
  assumes "\<And>t. fixture (f t) = fixture t"
  shows "skeleton (set_task i f s) = skeleton s"
proof -
  have "map fixture ((tasks s)[i := f (tasks s ! i)]) = map fixture (tasks s)"
    by (cases "i < length (tasks s)") (simp_all add: map_update assms list_update_same_conv list_update_beyond)
  then show ?thesis by (simp add: skeleton_def set_task_def)
qed

lemma skeleton_counters [simp]:
  "skeleton (s\<lparr>registered := n\<rparr>) = skeleton s" "skeleton (s\<lparr>released := n\<rparr>) = skeleton s"
  "skeleton (s\<lparr>registered := n, outside := w, ticks := k\<rparr>) = skeleton s"
  by (simp_all add: skeleton_def)

lemma fixture_updates [simp]:
  "fixture (t\<lparr>request := r\<rparr>) = fixture t" "fixture (t\<lparr>tresult := v\<rparr>) = fixture t" "fixture (t\<lparr>texit_status := n\<rparr>) = fixture t"
  "fixture (t\<lparr>terror := e\<rparr>) = fixture t" "fixture (t\<lparr>body := b\<rparr>) = fixture t" "fixture (t\<lparr>tstatus := st\<rparr>) = fixture t"
  "fixture (t\<lparr>queued := q\<rparr>) = fixture t" "fixture (t\<lparr>outcome := oc\<rparr>) = fixture t"
  by (simp_all add: fixture_def)

lemma fixture_noted [simp]: "fixture (note_outcome k m t) = fixture t"
  by (simp add: note_outcome_def)

lemma skeleton_give_back: "skeleton (give_back i m s) = skeleton s"
  by (simp add: give_back_def split_beta skeleton_set_task)

lemma skeleton_release: "skeleton (release_request i s) = skeleton s"
  by (simp add: release_request_def Let_def skeleton_set_task)

lemma skeleton_end_body: "skeleton (end_body E i k s) = skeleton s"
  by (auto simp: end_body_def Let_def skeleton_set_task skeleton_give_back split: option.split)

lemma skeleton_finish_body: "skeleton (finish_body E i k s) = skeleton s"
  by (simp add: finish_body_def Let_def skeleton_set_task skeleton_release skeleton_end_body)

lemma skeleton_cancel_one: "skeleton (cancel_one E i s) = skeleton s"
  by (simp add: cancel_one_def skeleton_set_task skeleton_finish_body)

lemma downward_kept: "(\<And>i s. P s \<Longrightarrow> P (f i s)) \<Longrightarrow> P s \<Longrightarrow> P (downward f n s)"
  by (induction n arbitrary: s) auto

lemma skeleton_cancel:
  "skeleton (cancel_tree E r s) = skeleton s" "skeleton (cancel_children E r s) = skeleton s"
  unfolding cancel_tree_def cancel_children_def
  by (rule downward_kept [where P = "\<lambda>x. skeleton x = skeleton s"]; simp add: skeleton_cancel_one)+

lemma skeleton_settle_one: "skeleton (settle_one E i s) = skeleton s"
  by (simp add: settle_one_def Let_def skeleton_set_task skeleton_cancel skeleton_finish_body)

lemma skeleton_settle: "skeleton (settle E s) = skeleton s"
  unfolding settle_def
  by (rule downward_kept [where P = "\<lambda>x. skeleton x = skeleton s"]) (simp_all add: skeleton_settle_one)

section \<open>What ending a task does\<close>

lemma set_task_tasks [simp]:
  "tasks (set_task i f s) = (tasks s)[i := f (tasks s ! i)]" "registered (set_task i f s) = registered s"
  "released (set_task i f s) = released s" "ticks (set_task i f s) = ticks s" "outside (set_task i f s) = outside s"
  by (simp_all add: set_task_def)

lemma destroyed_world:
  "vm_execution_destroy (session_native E) (lend s r m) = Some vm \<Longrightarrow>
     \<exists>w. world vm = (r, registered s, w) \<and> clock vm = ticks s"
  using same_request_destroy [of "lend s r m" E]
  by (auto simp: vm_execution_destroy_def VM.defs same_request_def prod_eq_iff split: if_splits)

lemma give_back_destroyed:
  assumes "i < length (tasks s)" and "vm_execution_destroy (session_native E) (lend s (request (tasks s ! i)) m) = Some vm"
  shows "\<exists>w. give_back i vm s = s\<lparr>outside := w\<rparr>"
proof -
  obtain w where w: "world vm = (request (tasks s ! i), registered s, w)" "clock vm = ticks s"
    using destroyed_world [OF assms(2)] by blast
  have "(tasks s)[i := (tasks s ! i)\<lparr>request := request (tasks s ! i)\<rparr>] = tasks s" by simp
  then have "give_back i vm s = s\<lparr>outside := w\<rparr>" by (simp add: give_back_def w set_task_def)
  then show ?thesis by blast
qed

lemma end_body_form:
  assumes "i < length (tasks s)"
  shows "\<exists>w. end_body E i k s =
    (set_task i (\<lambda>t. case body t of None \<Rightarrow> t | Some m \<Rightarrow> (note_outcome k m t)\<lparr>body := None\<rparr>) s)\<lparr>outside := w\<rparr>"
proof (cases "body (tasks s ! i)")
  case None
  then have "end_body E i k s = (set_task i (\<lambda>t. case body t of None \<Rightarrow> t | Some m \<Rightarrow> (note_outcome k m t)\<lparr>body := None\<rparr>) s)
      \<lparr>outside := outside s\<rparr>"
    by (simp add: end_body_def set_task_def)
  then show ?thesis by blast
next
  case (Some m)
  let ?s = "set_task i (note_outcome k m) s"
  obtain w where w: "(case vm_execution_destroy (session_native E) (lend ?s (request (tasks ?s ! i)) m) of
      None \<Rightarrow> ?s | Some vm \<Rightarrow> give_back i vm ?s) = ?s\<lparr>outside := w\<rparr>"
  proof (cases "vm_execution_destroy (session_native E) (lend ?s (request (tasks ?s ! i)) m)")
    case None
    then show thesis using that [of "outside ?s"] by simp
  next
    case (Some vm)
    then show thesis using give_back_destroyed [OF _ Some] assms that by auto
  qed
  have "end_body E i k s = (set_task i (\<lambda>t. (note_outcome k m t)\<lparr>body := None\<rparr>) s)\<lparr>outside := w\<rparr>"
    unfolding end_body_def Let_def Some option.case w using assms by (simp add: set_task_def)
  then show ?thesis using Some by (auto simp: set_task_def)
qed

text \<open>The task a body ends with, and what its session is then.\<close>

definition ended_task :: "VMTaskStatus \<Rightarrow> 'w Task \<Rightarrow> 'w Task" where
  "ended_task k t =
     (let t = (case body t of None \<Rightarrow> t | Some m \<Rightarrow> (note_outcome k m t)\<lparr>body := None\<rparr>);
          t = (if k \<noteq> TASK_COMPLETED then t\<lparr>tresult := None\<rparr> else t);
          t = (if pending (request t) then t\<lparr>request := (request t)\<lparr>pending := False, input := None\<rparr>, queued := False\<rparr> else t) in
      t\<lparr>outcome := k, tstatus := TASK_JOINING\<rparr>)"

lemma finish_body_form:
  assumes "i < length (tasks s)"
  shows "\<exists>w. finish_body E i k s = (set_task i (ended_task k) s)
    \<lparr>outside := w, released := (if pending (request (tasks s ! i)) then u64 (released s + 1) else released s)\<rparr>"
proof -
  obtain w where e: "end_body E i k s =
      (set_task i (\<lambda>t. case body t of None \<Rightarrow> t | Some m \<Rightarrow> (note_outcome k m t)\<lparr>body := None\<rparr>) s)\<lparr>outside := w\<rparr>"
    using end_body_form [OF assms] by blast
  have "finish_body E i k s = (set_task i (ended_task k) s)
      \<lparr>outside := w, released := (if pending (request (tasks s ! i)) then u64 (released s + 1) else released s)\<rparr>"
    unfolding finish_body_def Let_def e using assms
    by (cases "body (tasks s ! i)") (auto simp: release_request_def ended_task_def set_task_def note_outcome_def Let_def)
  then show ?thesis by blast
qed

section \<open>The tree of tasks\<close>

definition tree :: "'w VMTasks \<Rightarrow> bool" where
  "tree s \<longleftrightarrow> (\<forall>i < length (tasks s). slot (tasks s ! i) = Suc i \<and> parent (tasks s ! i) \<le> i)"

lemma treeD: "tree s \<Longrightarrow> i < length (tasks s) \<Longrightarrow> slot (tasks s ! i) = Suc i"
  "tree s \<Longrightarrow> i < length (tasks s) \<Longrightarrow> parent (tasks s ! i) = Suc p \<Longrightarrow> p < i"
  by (auto simp: tree_def Suc_le_eq dest: spec [of _ i])

lemma skeleton_parts:
  assumes "skeleton a = skeleton b" and "i < length (tasks b)"
  shows "slot (tasks a ! i) = slot (tasks b ! i)" "parent (tasks a ! i) = parent (tasks b ! i)"
    "deadline (tasks a ! i) = deadline (tasks b ! i)" "async_read (tasks a ! i) = async_read (tasks b ! i)"
  using skeleton_fixture [OF assms] by (simp_all add: fixture_def)

lemma tree_skeleton: "skeleton a = skeleton b \<Longrightarrow> tree a = tree b"
  using skeleton_parts [of a b] skeleton_length [of a b] by (simp add: tree_def)

text \<open>Being a task or a descendant of it.\<close>

inductive below :: "'w VMTasks \<Rightarrow> nat \<Rightarrow> nat \<Rightarrow> bool" for s where
  self: "below s i i"
| up: "parent (tasks s ! i) = Suc p \<Longrightarrow> below s p k \<Longrightarrow> below s i k"

inductive_simps below_iff: "below s i k"

lemma walk_below:
  assumes "tree s" and "i < length (tasks s)" and "i < fuel"
  shows "ancestor_walk (tasks s) fuel (Suc i) (Suc k) = below s i k"
  using assms(2,3)
proof (induction i arbitrary: fuel rule: less_induct)
  case (less i)
  then obtain f where f: "fuel = Suc f" by (cases fuel) auto
  show ?case
  proof (cases "i = k \<or> parent (tasks s ! i) = 0")
    case True
    then show ?thesis by (cases f) (auto simp: f below_iff [of s i k])
  next
    case False
    then obtain p where p: "parent (tasks s ! i) = Suc p" by (cases "parent (tasks s ! i)") auto
    then have "p < i" using treeD(2) assms(1) less.prems by blast
    then show ?thesis using False p less f by (auto simp: below_iff [of s i k])
  qed
qed

lemma descendant_iff:
  "tree s \<Longrightarrow> i < length (tasks s) \<Longrightarrow> descendant s i (Suc k) = below s i k"
  using walk_below [of s i "Suc i" k] by (simp add: descendant_def treeD del: ancestor_walk.simps)

lemma below_le: "below s i k \<Longrightarrow> tree s \<Longrightarrow> i < length (tasks s) \<Longrightarrow> k \<le> i"
proof (induction rule: below.induct)
  case (up i p k)
  then show ?case using treeD(2) [of s i p] by simp
qed simp

lemma below_skeleton_imp:
  "below a i k \<Longrightarrow> skeleton a = skeleton b \<Longrightarrow> tree b \<Longrightarrow> i < length (tasks b) \<Longrightarrow> below b i k"
proof (induction rule: below.induct)
  case (up i p k)
  then have "parent (tasks b ! i) = Suc p" using skeleton_parts(2) [of a b i] by simp
  with up treeD(2) [of b i p] show ?case by (auto intro: below.up)
qed (rule below.self)

lemma below_skeleton:
  "skeleton a = skeleton b \<Longrightarrow> tree b \<Longrightarrow> i < length (tasks b) \<Longrightarrow> below a i k = below b i k"
  using below_skeleton_imp [of a i k b] below_skeleton_imp [of b i k a] tree_skeleton [of a b] skeleton_length [of a b] by auto

lemma below_child: "parent (tasks s ! c) = Suc p \<Longrightarrow> below s p k \<Longrightarrow> below s c k"
  by (rule below.up)

lemma below_parent: "below s c k \<Longrightarrow> c \<noteq> k \<Longrightarrow> parent (tasks s ! c) = Suc p \<Longrightarrow> below s p k"
  by (auto simp: below_iff [of s c k])

section \<open>Cancellation\<close>

definition cancelled_task :: "'w Task \<Rightarrow> 'w Task" where
  "cancelled_task t = (ended_task TASK_CANCELLED t)\<lparr>tstatus := TASK_CANCELLED\<rparr>"

lemma cancel_one_form:
  assumes "i < length (tasks s)"
  shows "\<exists>w. cancel_one E i s = (set_task i cancelled_task s)
    \<lparr>outside := w, released := (if pending (request (tasks s ! i)) then u64 (released s + 1) else released s)\<rparr>"
proof -
  let ?r = "if pending (request (tasks s ! i)) then u64 (released s + 1) else released s"
  obtain w where "finish_body E i TASK_CANCELLED s = (set_task i (ended_task TASK_CANCELLED) s)\<lparr>outside := w, released := ?r\<rparr>"
    using finish_body_form [OF assms] by blast
  then have "cancel_one E i s = (set_task i cancelled_task s)\<lparr>outside := w, released := ?r\<rparr>"
    using assms by (cases s) (simp add: cancel_one_def cancelled_task_def set_task_def)
  then show ?thesis by blast
qed

lemma cancel_one_tasks: "i < length (tasks s) \<Longrightarrow> tasks (cancel_one E i s) = (tasks s)[i := cancelled_task (tasks s ! i)]"
  using cancel_one_form [of i s E] by auto

lemma finish_body_tasks: "i < length (tasks s) \<Longrightarrow> tasks (finish_body E i k s) = (tasks s)[i := ended_task k (tasks s ! i)]"
  using finish_body_form [of i s E k] by auto

text \<open>A sweep over the tasks whose condition the sweep does not change acts on each task alone.\<close>

lemma sweep_tasks:
  assumes "\<And>i j s. i < length (tasks s) \<Longrightarrow> j < i \<Longrightarrow> C i s \<Longrightarrow> C j (cancel_one E i s) = C j s"
    and "n \<le> length (tasks s)" and "j < length (tasks s)"
  shows "tasks (downward (\<lambda>i s. if C i s then cancel_one E i s else s) n s) ! j =
    (if j < n \<and> C j s then cancelled_task (tasks s ! j) else tasks s ! j)"
  using assms(2,3)
proof (induction n arbitrary: s)
  case (Suc i)
  then show ?case
    by (cases "C i s") (auto simp: cancel_one_tasks assms(1) less_Suc_eq nth_list_update)
qed simp

lemma terminal_cancelled [simp]: "terminal (cancelled_task t)"
  by (simp add: terminal_def cancelled_task_def)

lemma cancel_one_other: "i < length (tasks s) \<Longrightarrow> j \<noteq> i \<Longrightarrow> tasks (cancel_one E i s) ! j = tasks s ! j"
  by (simp add: cancel_one_tasks)

lemma fixture_ended [simp]: "fixture (ended_task k t) = fixture t" "fixture (cancelled_task t) = fixture t"
  by (simp_all add: ended_task_def cancelled_task_def Let_def split: option.split)

lemma cancel_one_fixture: "i < length (tasks s) \<Longrightarrow> fixture (tasks (cancel_one E i s) ! j) = fixture (tasks s ! j)"
  by (cases "j = i") (simp_all add: cancel_one_tasks)

lemma walk_fixture:
  "(\<And>j. fixture (ts ! j) = fixture (us ! j)) \<Longrightarrow> ancestor_walk ts f a r = ancestor_walk us f a r"
  by (induction f arbitrary: a) (simp_all add: fixture_def)

lemma descendant_cancel_one: "i < length (tasks s) \<Longrightarrow> descendant (cancel_one E i s) j r = descendant s j r"
  using walk_fixture [OF cancel_one_fixture, of i s E] cancel_one_fixture [of i s E j]
  by (simp add: descendant_def Let_def fixture_def)

text \<open>Cancelling ends exactly the descendants that are still under way.\<close>

lemma cancel_tree_tasks:
  assumes "tree s" and "j < length (tasks s)"
  shows "tasks (cancel_tree E (Suc k) s) ! j =
    (if \<not> terminal (tasks s ! j) \<and> below s j k then cancelled_task (tasks s ! j) else tasks s ! j)"
  unfolding cancel_tree_def
  by (subst sweep_tasks [where C = "\<lambda>i s. \<not> terminal (tasks s ! i) \<and> descendant s i (Suc k)"])
    (use assms in \<open>simp_all add: descendant_cancel_one cancel_one_other descendant_iff\<close>)

lemma cancel_children_tasks:
  assumes "tree s" and "j < length (tasks s)"
  shows "tasks (cancel_children E (Suc k) s) ! j =
    (if j \<noteq> k \<and> \<not> terminal (tasks s ! j) \<and> below s j k then cancelled_task (tasks s ! j) else tasks s ! j)"
  unfolding cancel_children_def
  by (subst sweep_tasks [where C = "\<lambda>i s. slot (tasks s ! i) \<noteq> Suc k \<and> \<not> terminal (tasks s ! i) \<and> descendant s i (Suc k)"])
    (use assms in \<open>simp_all add: descendant_cancel_one cancel_one_other descendant_iff treeD\<close>)

section \<open>Supervision\<close>

text \<open>
  The discipline of parents and children, stated on the statuses alone. A scope that is over has only scopes
  that are over, and one that completed only completed ones. From index \<open>m\<close> on, failures have reached the
  parents and no task waits for children it does not have; below \<open>m\<close> that is still to be settled.
\<close>

fun over :: "VMTaskStatus \<Rightarrow> bool" where
  "over TASK_COMPLETED = True"
| "over TASK_TRAPPED = True"
| "over TASK_EXITED = True"
| "over TASK_CANCELLED = True"
| "over _ = False"

lemma terminal_over: "terminal t = over (tstatus t)"
  by (cases "tstatus t") (simp_all add: terminal_def)

definition supervision ::
  "nat \<Rightarrow> nat \<Rightarrow> (nat \<Rightarrow> nat) \<Rightarrow> (nat \<Rightarrow> VMTaskStatus) \<Rightarrow> (nat \<Rightarrow> VMTaskStatus) \<Rightarrow> bool" where
  "supervision m n par st oc \<longleftrightarrow>
     (\<forall>c < n. \<forall>p. par c = Suc p \<longrightarrow> over (st p) \<longrightarrow> over (st c) \<and> (st p = TASK_COMPLETED \<longrightarrow> st c = TASK_COMPLETED)) \<and>
     (\<forall>i < n. st i = TASK_JOINING \<longrightarrow> oc i \<in> {TASK_COMPLETED, TASK_TRAPPED, TASK_EXITED}) \<and>
     (\<forall>c < n. m \<le> c \<longrightarrow> (\<forall>p. par c = Suc p \<longrightarrow> over (st c) \<longrightarrow> st c \<noteq> TASK_COMPLETED \<longrightarrow> \<not> over (st p) \<longrightarrow>
        oc p \<in> {TASK_TRAPPED, TASK_EXITED})) \<and>
     (\<forall>i < n. m \<le> i \<longrightarrow> st i = TASK_JOINING \<longrightarrow> (\<exists>c < n. par c = Suc i \<and> \<not> over (st c)))"

definition ordered :: "nat \<Rightarrow> (nat \<Rightarrow> nat) \<Rightarrow> bool" where
  "ordered n par \<longleftrightarrow> (\<forall>c < n. \<forall>p. par c = Suc p \<longrightarrow> p < c)"

text \<open>A set of tasks that is closed downward and reaches up to one task.\<close>

definition strictly_below :: "nat \<Rightarrow> (nat \<Rightarrow> nat) \<Rightarrow> nat \<Rightarrow> (nat \<Rightarrow> bool) \<Rightarrow> bool" where
  "strictly_below n par k R \<longleftrightarrow> \<not> R k \<and> (\<forall>c < n. \<forall>q. par c = Suc q \<longrightarrow> c \<noteq> k \<longrightarrow> R c = (R q \<or> q = k)) \<and>
     (\<forall>c < n. R c \<longrightarrow> k < c \<and> par c \<noteq> 0)"

definition cancelling :: "(nat \<Rightarrow> bool) \<Rightarrow> (nat \<Rightarrow> VMTaskStatus) \<Rightarrow> (nat \<Rightarrow> VMTaskStatus) \<Rightarrow> nat \<Rightarrow> VMTaskStatus" where
  "cancelling R st oc i = (if R i \<and> \<not> over (st i) then TASK_CANCELLED else oc i)"

lemma supervisionD:
  assumes "supervision m n par st oc"
  shows "c < n \<Longrightarrow> par c = Suc p \<Longrightarrow> over (st p) \<Longrightarrow> over (st c)"
    and "c < n \<Longrightarrow> par c = Suc p \<Longrightarrow> st p = TASK_COMPLETED \<Longrightarrow> st c = TASK_COMPLETED"
    and "i < n \<Longrightarrow> st i = TASK_JOINING \<Longrightarrow> oc i \<in> {TASK_COMPLETED, TASK_TRAPPED, TASK_EXITED}"
    and "c < n \<Longrightarrow> m \<le> c \<Longrightarrow> par c = Suc p \<Longrightarrow> over (st c) \<Longrightarrow> st c \<noteq> TASK_COMPLETED \<Longrightarrow> \<not> over (st p) \<Longrightarrow>
      oc p \<in> {TASK_TRAPPED, TASK_EXITED}"
    and "i < n \<Longrightarrow> m \<le> i \<Longrightarrow> st i = TASK_JOINING \<Longrightarrow> \<exists>c < n. par c = Suc i \<and> \<not> over (st c)"
  using assms unfolding supervision_def by (blast, force, blast, blast, blast)

lemma supervisionI:
  assumes "\<And>c p. c < n \<Longrightarrow> par c = Suc p \<Longrightarrow> over (st p) \<Longrightarrow> over (st c) \<and> (st p = TASK_COMPLETED \<longrightarrow> st c = TASK_COMPLETED)"
    and "\<And>i. i < n \<Longrightarrow> st i = TASK_JOINING \<Longrightarrow> oc i \<in> {TASK_COMPLETED, TASK_TRAPPED, TASK_EXITED}"
    and "\<And>c p. c < n \<Longrightarrow> m \<le> c \<Longrightarrow> par c = Suc p \<Longrightarrow> over (st c) \<Longrightarrow> st c \<noteq> TASK_COMPLETED \<Longrightarrow> \<not> over (st p) \<Longrightarrow>
      oc p \<in> {TASK_TRAPPED, TASK_EXITED}"
    and "\<And>i. i < n \<Longrightarrow> m \<le> i \<Longrightarrow> st i = TASK_JOINING \<Longrightarrow> \<exists>c < n. par c = Suc i \<and> \<not> over (st c)"
  shows "supervision m n par st oc"
  using assms unfolding supervision_def by blast

lemma supervision_weaken: "supervision m n par st oc \<Longrightarrow> m \<le> k \<Longrightarrow> supervision k n par st oc"
  unfolding supervision_def by (meson le_trans)

lemma supervision_finish:
  assumes "supervision m n par st oc" and "\<not> over (st i)" and "k \<in> {TASK_COMPLETED, TASK_TRAPPED, TASK_EXITED}"
  shows "supervision n n par (st(i := TASK_JOINING)) (oc(i := k))"
  using assms by (auto simp: supervision_def)

lemma supervision_cancel:
  assumes "supervision m n par st oc" and "ordered n par"
    and "\<And>c q. c < n \<Longrightarrow> par c = Suc q \<Longrightarrow> R q \<Longrightarrow> R c"
  shows "supervision n n par (cancelling R st st) (cancelling R st oc)"
  using assms by (auto simp: supervision_def cancelling_def ordered_def)

lemma strictly_belowD:
  assumes "strictly_below n par k R"
  shows "\<not> R k" and "c < n \<Longrightarrow> par c = Suc q \<Longrightarrow> c \<noteq> k \<Longrightarrow> R c = (R q \<or> q = k)" and "c < n \<Longrightarrow> R c \<Longrightarrow> k < c"
  using assms by (simp_all add: strictly_below_def)

lemma supervision_blame:
  assumes s: "supervision (Suc i) n par st oc" and o: "ordered n par" and i: "i < n" "par i = Suc p" "over (st i)"
    and p: "\<not> over (st p)" and R: "strictly_below n par p R"
  defines "st1 \<equiv> st(p := TASK_JOINING)"
  shows "supervision i n par (cancelling R st1 st1) (cancelling R st1 (oc(p := TASK_TRAPPED)))"
proof (rule supervisionI)
  note r = strictly_belowD [OF R]
  have pi: "p < i" using o i by (simp add: ordered_def)
  have same: "over (st1 c) = over (st c)" for c using p by (simp add: st1_def)
  fix c q assume c: "c < n" "par c = Suc q" "over (cancelling R st1 st1 q)"
  have q: "q < c" using o c by (simp add: ordered_def)
  show "over (cancelling R st1 st1 c) \<and> (cancelling R st1 st1 q = TASK_COMPLETED \<longrightarrow> cancelling R st1 st1 c = TASK_COMPLETED)"
  proof (cases "over (st q)")
    case True
    then have "over (st c)" using supervisionD(1) [OF s c(1,2)] by blast
    with True show ?thesis using supervisionD(2) [OF s c(1,2)] p by (auto simp: cancelling_def same st1_def)
  next
    case False
    then have "R q" "cancelling R st1 st1 q = TASK_CANCELLED" using c(3) by (auto simp: cancelling_def same split: if_splits)
    moreover have "c \<noteq> p" using r(3) [of q] \<open>R q\<close> q c(1) by auto
    ultimately show ?thesis using r(2) [OF c(1,2)] by (simp add: cancelling_def)
  qed
next
  fix k assume k: "k < n" "cancelling R st1 st1 k = TASK_JOINING"
  then have "\<not> (R k \<and> \<not> over (st1 k))" by (auto simp: cancelling_def split: if_splits)
  with k supervisionD(3) [OF s k(1)] show "cancelling R st1 (oc(p := TASK_TRAPPED)) k \<in> {TASK_COMPLETED, TASK_TRAPPED, TASK_EXITED}"
    by (auto simp: cancelling_def st1_def)
next
  note r = strictly_belowD [OF R]
  fix c q assume c: "c < n" "i \<le> c" "par c = Suc q" "over (cancelling R st1 st1 c)" "cancelling R st1 st1 c \<noteq> TASK_COMPLETED"
    "\<not> over (cancelling R st1 st1 q)"
  have pi: "p < i" using o i by (simp add: ordered_def)
  have nq: "\<not> R q" "\<not> over (st1 q)" using c(6) by (auto simp: cancelling_def split: if_splits)
  show "cancelling R st1 (oc(p := TASK_TRAPPED)) q \<in> {TASK_TRAPPED, TASK_EXITED}"
  proof (cases "q = p")
    case False
    then have "\<not> R c" "c \<noteq> i" using r(2) [OF c(1,3)] nq c(2) pi i(2) c(3) by auto
    then have "over (st c)" "st c \<noteq> TASK_COMPLETED" using c(2,4,5) pi by (auto simp: cancelling_def st1_def split: if_splits)
    then have "oc q \<in> {TASK_TRAPPED, TASK_EXITED}"
      using supervisionD(4) [OF s c(1) _ c(3)] c(2) \<open>c \<noteq> i\<close> nq False by (auto simp: st1_def)
    then show ?thesis using False nq by (simp add: cancelling_def)
  qed (use nq in \<open>simp add: cancelling_def\<close>)
next
  note r = strictly_belowD [OF R]
  fix j assume j: "j < n" "i \<le> j" "cancelling R st1 st1 j = TASK_JOINING"
  have pi: "p < i" using o i by (simp add: ordered_def)
  have nj: "j \<noteq> p" "j \<noteq> i" "st j = TASK_JOINING" "\<not> R j"
    using j pi i(3) by (auto simp: cancelling_def st1_def split: if_splits)
  then obtain c where "c < n" "par c = Suc j" "\<not> over (st c)" using supervisionD(5) [OF s j(1)] j(2) by auto
  moreover from this have "\<not> R c" using r(1) r(2) [of c j] nj by (cases "c = p") auto
  ultimately show "\<exists>c < n. par c = Suc j \<and> \<not> over (cancelling R st1 st1 c)"
    by (auto simp: cancelling_def st1_def)
qed

lemma supervision_join:
  assumes s: "supervision (Suc i) n par st oc" and i: "i < n" and o: "ordered n par" and j: "st i = TASK_JOINING"
    and ch: "\<And>c. c < n \<Longrightarrow> par c = Suc i \<Longrightarrow> over (st c)"
  shows "supervision (Suc i) n par (st(i := oc i)) oc"
proof (rule supervisionI)
  have oi: "oc i \<in> {TASK_COMPLETED, TASK_TRAPPED, TASK_EXITED}" using supervisionD(3) [OF s i j] .
  have le: "i < c" if "c < n" "par c = Suc i" for c using o that by (simp add: ordered_def)
  fix c p assume c: "c < n" "par c = Suc p" "over ((st(i := oc i)) p)"
  show "over ((st(i := oc i)) c) \<and> ((st(i := oc i)) p = TASK_COMPLETED \<longrightarrow> (st(i := oc i)) c = TASK_COMPLETED)"
  proof (cases "p = i")
    case True
    then have "over (st c)" "i < c" using ch le c by auto
    moreover have "oc i = TASK_COMPLETED \<Longrightarrow> st c = TASK_COMPLETED"
      using supervisionD(4) [OF s c(1) _ c(2)] True \<open>over (st c)\<close> \<open>i < c\<close> j by (auto simp: Suc_le_eq)
    ultimately show ?thesis using True by auto
  next
    case False
    then have "over (st c)" "st p = TASK_COMPLETED \<Longrightarrow> st c = TASK_COMPLETED"
      using supervisionD(1,2) [OF s c(1,2)] c(3) by auto
    then show ?thesis using False j by (auto simp del: fun_upd_apply simp: fun_upd_def)
  qed
next
  fix k assume "k < n" "(st(i := oc i)) k = TASK_JOINING"
  then show "oc k \<in> {TASK_COMPLETED, TASK_TRAPPED, TASK_EXITED}"
    using supervisionD(3) [OF s, of k] j by (cases "k = i") auto
next
  fix c p assume c: "c < n" "Suc i \<le> c" "par c = Suc p" "over ((st(i := oc i)) c)" "(st(i := oc i)) c \<noteq> TASK_COMPLETED"
    "\<not> over ((st(i := oc i)) p)"
  then have "p \<noteq> i" using supervisionD(3) [OF s i j] by auto
  with c show "oc p \<in> {TASK_TRAPPED, TASK_EXITED}" using supervisionD(4) [OF s c(1-3)] by simp
next
  fix k assume k: "k < n" "Suc i \<le> k" "(st(i := oc i)) k = TASK_JOINING"
  then obtain c where "c < n" "par c = Suc k" "\<not> over (st c)" using supervisionD(5) [OF s k(1,2)] by auto
  moreover from this have "c \<noteq> i" using o k(2) by (auto simp: ordered_def)
  ultimately show "\<exists>c < n. par c = Suc k \<and> \<not> over ((st(i := oc i)) c)" by auto
qed

lemma supervision_settled:
  assumes s: "supervision (Suc i) n par st oc"
    and j: "st i = TASK_JOINING \<Longrightarrow> \<exists>c < n. par c = Suc i \<and> \<not> over (st c)"
    and f: "\<And>p. par i = Suc p \<Longrightarrow> over (st i) \<Longrightarrow> st i \<noteq> TASK_COMPLETED \<Longrightarrow> \<not> over (st p) \<Longrightarrow> oc p \<in> {TASK_TRAPPED, TASK_EXITED}"
  shows "supervision i n par st oc"
proof (rule supervisionI)
  fix c p assume "c < n" "i \<le> c" "par c = Suc p" "over (st c)" "st c \<noteq> TASK_COMPLETED" "\<not> over (st p)"
  then show "oc p \<in> {TASK_TRAPPED, TASK_EXITED}" using supervisionD(4) [OF s, of c p] f by (cases "c = i") auto
next
  fix k assume "k < n" "i \<le> k" "st k = TASK_JOINING"
  then show "\<exists>c < n. par c = Suc k \<and> \<not> over (st c)" using supervisionD(5) [OF s, of k] j by (cases "k = i") auto
qed (use supervisionD(1-3) [OF s] in blast)+

section \<open>Supervision in a session\<close>

definition supervised :: "nat \<Rightarrow> 'w VMTasks \<Rightarrow> bool" where
  "supervised m s \<longleftrightarrow> supervision m (length (tasks s)) (\<lambda>i. parent (tasks s ! i)) (\<lambda>i. tstatus (tasks s ! i)) (\<lambda>i. outcome (tasks s ! i))"

lemma supervision_cong:
  assumes s: "supervision m n par st oc" and o: "ordered n par'"
    and eq: "\<And>i. i < n \<Longrightarrow> par' i = par i \<and> st' i = st i \<and> oc' i = oc i"
  shows "supervision m n par' st' oc'"
proof (rule supervisionI)
  have lt: "p < n" if "c < n" "par' c = Suc p" for c p using o that by (auto simp: ordered_def)
  fix c p assume c: "c < n" "par' c = Suc p"
  have p: "p < n" using lt c by blast
  show "over (st' p) \<Longrightarrow> over (st' c) \<and> (st' p = TASK_COMPLETED \<longrightarrow> st' c = TASK_COMPLETED)"
    using supervisionD(1,2) [OF s, of c p] c eq [OF c(1)] eq [OF p] by auto
  show "m \<le> c \<Longrightarrow> over (st' c) \<Longrightarrow> st' c \<noteq> TASK_COMPLETED \<Longrightarrow> \<not> over (st' p) \<Longrightarrow> oc' p \<in> {TASK_TRAPPED, TASK_EXITED}"
    using supervisionD(4) [OF s, of c p] c eq [OF c(1)] eq [OF p] by auto
next
  fix i assume i: "i < n" "st' i = TASK_JOINING"
  show "oc' i \<in> {TASK_COMPLETED, TASK_TRAPPED, TASK_EXITED}" using supervisionD(3) [OF s, of i] eq [OF i(1)] i by auto
  assume "m \<le> i"
  then obtain c where "c < n" "par c = Suc i" "\<not> over (st c)" using supervisionD(5) [OF s, of i] eq [OF i(1)] i by auto
  then show "\<exists>c < n. par' c = Suc i \<and> \<not> over (st' c)" using eq by auto
qed

lemma ordered_tree: "tree s \<Longrightarrow> ordered (length (tasks s)) (\<lambda>i. parent (tasks s ! i))"
  using treeD(2) by (auto simp: ordered_def)

lemma supervisedI:
  assumes "supervision m (length (tasks s)) par st oc" and "tree s"
    and "\<And>i. i < length (tasks s) \<Longrightarrow> parent (tasks s ! i) = par i \<and> tstatus (tasks s ! i) = st i \<and> outcome (tasks s ! i) = oc i"
  shows "supervised m s"
  unfolding supervised_def by (rule supervision_cong [OF assms(1) ordered_tree [OF assms(2)] assms(3)])

lemma ended_fields [simp]:
  "tstatus (ended_task k t) = TASK_JOINING" "outcome (ended_task k t) = k" "body (ended_task k t) = None"
  "\<not> pending (request (ended_task k t))" "tstatus (cancelled_task t) = TASK_CANCELLED" "outcome (cancelled_task t) = TASK_CANCELLED"
  "body (cancelled_task t) = None" "\<not> pending (request (cancelled_task t))"
  by (auto simp: ended_task_def cancelled_task_def Let_def note_outcome_def split: option.split)

lemma parent_ended [simp]:
  "parent (ended_task k t) = parent t" "parent (cancelled_task t) = parent t"
  using fixture_ended(1) [of k t] fixture_ended(2) [of t] by (simp_all add: fixture_def)

lemma finish_body_supervised:
  assumes "supervised m s" and "tree s" and i: "i < length (tasks s)" "\<not> terminal (tasks s ! i)"
    and "k \<in> {TASK_COMPLETED, TASK_TRAPPED, TASK_EXITED}"
  shows "supervised (length (tasks s)) (finish_body E i k s)"
proof -
  have l: "length (tasks (finish_body E i k s)) = length (tasks s)" using finish_body_tasks [OF i(1)] by simp
  have t: "tree (finish_body E i k s)" using tree_skeleton [OF skeleton_finish_body] assms(2) by blast
  have "supervision (length (tasks s)) (length (tasks (finish_body E i k s))) (\<lambda>j. parent (tasks s ! j))
      ((\<lambda>j. tstatus (tasks s ! j))(i := TASK_JOINING)) ((\<lambda>j. outcome (tasks s ! j))(i := k))"
    using supervision_finish [OF assms(1) [unfolded supervised_def], of i k] i assms(5) by (simp add: l terminal_over)
  from supervisedI [OF this t] show ?thesis using i by (auto simp: finish_body_tasks nth_list_update)
qed

lemma cancel_supervised:
  assumes "supervised m s" and "tree s" and k: "k < length (tasks s)"
  shows "supervised (length (tasks s)) (cancel_tree E (Suc k) s)" and "supervised (length (tasks s)) (cancel_children E (Suc k) s)"
proof -
  let ?n = "length (tasks s)" and ?p = "\<lambda>i. parent (tasks s ! i)" and ?st = "\<lambda>i. tstatus (tasks s ! i)" and ?oc = "\<lambda>i. outcome (tasks s ! i)"
  have l: "length (tasks (cancel_tree E (Suc k) s)) = ?n" "length (tasks (cancel_children E (Suc k) s)) = ?n"
    using skeleton_length [OF skeleton_cancel(1)] skeleton_length [OF skeleton_cancel(2)] by blast+
  have t: "tree (cancel_tree E (Suc k) s)" "tree (cancel_children E (Suc k) s)"
    using tree_skeleton [OF skeleton_cancel(1)] tree_skeleton [OF skeleton_cancel(2)] assms(2) by blast+
  note s = supervision_cancel [OF assms(1) [unfolded supervised_def] ordered_tree [OF assms(2)]]
  have "supervision ?n ?n ?p (cancelling (\<lambda>j. below s j k) ?st ?st) (cancelling (\<lambda>j. below s j k) ?st ?oc)"
    by (rule s) (rule below_child)
  from supervisedI [OF this [folded l(1)] t(1)] show "supervised ?n (cancel_tree E (Suc k) s)"
    by (auto simp: l cancel_tree_tasks [OF assms(2)] cancelling_def terminal_over)
  have "supervision ?n ?n ?p (cancelling (\<lambda>j. j \<noteq> k \<and> below s j k) ?st ?st) (cancelling (\<lambda>j. j \<noteq> k \<and> below s j k) ?st ?oc)"
  proof (rule s)
    fix c q assume c: "c < ?n" "?p c = Suc q" and q: "q \<noteq> k \<and> below s q k"
    have "q < c" using treeD(2) assms(2) c by blast
    with q c below_le [of s q k] assms(2) below_child [OF c(2)] show "c \<noteq> k \<and> below s c k" by auto
  qed
  from supervisedI [OF this [folded l(2)] t(2)] show "supervised ?n (cancel_children E (Suc k) s)"
    by (auto simp: l cancel_children_tasks [OF assms(2)] cancelling_def terminal_over)
qed

lemma joined_iff:
  assumes "tree s" and "i < length (tasks s)"
  shows "joined s i \<longleftrightarrow> (\<forall>c < length (tasks s). parent (tasks s ! c) = Suc i \<longrightarrow> over (tstatus (tasks s ! c)))"
proof -
  have "i < c" if "c < length (tasks s)" "parent (tasks s ! c) = Suc i" for c using treeD(2) assms(1) that by blast
  then show ?thesis using treeD(1) [OF assms] by (auto simp: joined_def terminal_over Suc_le_eq)
qed

definition join_step :: "nat \<Rightarrow> 'w VMTasks \<Rightarrow> 'w VMTasks" where
  "join_step i s = (if tstatus (tasks s ! i) = TASK_JOINING \<and> joined s i then set_task i (\<lambda>t. t\<lparr>tstatus := outcome t\<rparr>) s else s)"

definition blames :: "nat \<Rightarrow> nat \<Rightarrow> 'w VMTasks \<Rightarrow> bool" where
  "blames i p s \<longleftrightarrow> terminal (tasks s ! i) \<and> tstatus (tasks s ! i) \<noteq> TASK_COMPLETED \<and> parent (tasks s ! i) = Suc p \<and>
     \<not> terminal (tasks s ! p) \<and> outcome (tasks s ! p) \<noteq> TASK_TRAPPED \<and> outcome (tasks s ! p) \<noteq> TASK_EXITED"

definition blame :: "'w Native \<Rightarrow> nat \<Rightarrow> 'w VMTasks \<Rightarrow> 'w VMTasks" where
  "blame E p s = cancel_children E (slot (tasks s ! p))
     (set_task p (\<lambda>t. t\<lparr>terror := Some ''child task did not complete successfully''\<rparr>) (finish_body E p TASK_TRAPPED s))"

lemma settle_one_cases:
  obtains (blamed) p where "blames i p (join_step i s)" "settle_one E i s = blame E p (join_step i s)"
    | (unblamed) "\<And>p. \<not> blames i p (join_step i s)" "settle_one E i s = join_step i s"
proof (cases "\<exists>p. blames i p (join_step i s)")
  case True
  then obtain p where "blames i p (join_step i s)" by blast
  then show thesis by (intro blamed) (simp_all add: settle_one_def Let_def blames_def blame_def flip: join_step_def)
next
  case False
  then have "settle_one E i s = join_step i s"
    by (cases "parent (tasks (join_step i s) ! i)") (auto simp: settle_one_def Let_def blames_def simp flip: join_step_def)
  with False unblamed show thesis by blast
qed

lemma skeleton_join_step: "skeleton (join_step i s) = skeleton s"
  by (simp add: join_step_def skeleton_set_task)

lemma join_step_supervised:
  assumes s: "supervised (Suc i) s" and t: "tree s" and i: "i < length (tasks s)"
  shows "supervised (Suc i) (join_step i s)"
    and "tstatus (tasks (join_step i s) ! i) = TASK_JOINING \<Longrightarrow>
      \<exists>c < length (tasks s). parent (tasks (join_step i s) ! c) = Suc i \<and> \<not> over (tstatus (tasks (join_step i s) ! c))"
proof -
  have t': "tree (join_step i s)" using tree_skeleton [OF skeleton_join_step] t by blast
  show "supervised (Suc i) (join_step i s)"
  proof (cases "tstatus (tasks s ! i) = TASK_JOINING \<and> joined s i")
    case True
    have l: "length (tasks (join_step i s)) = length (tasks s)" using skeleton_length [OF skeleton_join_step] by blast
    have "supervision (Suc i) (length (tasks s)) (\<lambda>j. parent (tasks s ! j))
        ((\<lambda>j. tstatus (tasks s ! j))(i := outcome (tasks s ! i))) (\<lambda>j. outcome (tasks s ! j))"
      using supervision_join [OF s [unfolded supervised_def] i ordered_tree [OF t]] True joined_iff [OF t i] by auto
    from supervisedI [OF this [folded l] t'] True i show ?thesis by (auto simp: join_step_def nth_list_update)
  qed (use s in \<open>auto simp: join_step_def\<close>)
  have "over (outcome (tasks s ! i))" if "tstatus (tasks s ! i) = TASK_JOINING"
    using supervisionD(3) [OF s [unfolded supervised_def] i that] by auto
  then show "tstatus (tasks (join_step i s) ! i) = TASK_JOINING \<Longrightarrow>
      \<exists>c < length (tasks s). parent (tasks (join_step i s) ! c) = Suc i \<and> \<not> over (tstatus (tasks (join_step i s) ! c))"
    using joined_iff [OF t i] i by (auto simp: join_step_def split: if_splits)
qed

lemma blame_tasks:
  assumes t: "tree s" and p: "p < length (tasks s)" and j: "j < length (tasks s)"
  shows "tasks (blame E p s) ! j =
    (if j = p then (ended_task TASK_TRAPPED (tasks s ! p))\<lparr>terror := Some ''child task did not complete successfully''\<rparr>
     else if \<not> terminal (tasks s ! j) \<and> below s j p then cancelled_task (tasks s ! j) else tasks s ! j)"
proof -
  let ?s = "set_task p (\<lambda>t. t\<lparr>terror := Some ''child task did not complete successfully''\<rparr>) (finish_body E p TASK_TRAPPED s)"
  have k: "skeleton ?s = skeleton s" by (simp add: skeleton_set_task skeleton_finish_body)
  have "tree ?s" using tree_skeleton [OF k] t by blast
  moreover have "j < length (tasks ?s)" using skeleton_length [OF k] j by simp
  ultimately show ?thesis
    using p by (simp add: blame_def treeD [OF t p] cancel_children_tasks below_skeleton [OF k t j] finish_body_tasks)
qed

lemma skeleton_blame: "skeleton (blame E p s) = skeleton s"
  by (simp add: blame_def skeleton_cancel skeleton_set_task skeleton_finish_body)

lemma strictly_below_tree:
  assumes "tree s"
  shows "strictly_below (length (tasks s)) (\<lambda>i. parent (tasks s ! i)) k (\<lambda>j. j \<noteq> k \<and> below s j k)"
  unfolding strictly_below_def
proof (intro conjI allI impI)
  fix c q assume c: "c < length (tasks s)" "parent (tasks s ! c) = Suc q" "c \<noteq> k"
  show "(c \<noteq> k \<and> below s c k) = (q \<noteq> k \<and> below s q k \<or> q = k)"
    using c below_parent [OF _ c(3,2)] below_child [OF c(2)] below.self [of s k] by auto
next
  fix c assume c: "c < length (tasks s)" "c \<noteq> k \<and> below s c k"
  then show "k < c" using below_le [OF _ assms c(1)] by fastforce
  show "parent (tasks s ! c) \<noteq> 0" using c by (auto simp: below_iff [of s c k])
qed simp

lemma blame_supervised:
  assumes s: "supervised (Suc i) s" and t: "tree s" and i: "i < length (tasks s)" and b: "blames i p s"
  shows "supervised i (blame E p s)"
proof -
  have p: "p < i" "p < length (tasks s)" using treeD(2) [OF t i, of p] b i by (auto simp: blames_def)
  have l: "length (tasks (blame E p s)) = length (tasks s)" using skeleton_length [OF skeleton_blame] by blast
  have t': "tree (blame E p s)" using tree_skeleton [OF skeleton_blame] t by blast
  let ?R = "\<lambda>j. j \<noteq> p \<and> below s j p" and ?st = "(\<lambda>j. tstatus (tasks s ! j))(p := TASK_JOINING)"
    and ?oc = "(\<lambda>j. outcome (tasks s ! j))(p := TASK_TRAPPED)"
  have "supervision i (length (tasks s)) (\<lambda>j. parent (tasks s ! j)) (cancelling ?R ?st ?st) (cancelling ?R ?st ?oc)"
    using supervision_blame [OF s [unfolded supervised_def] ordered_tree [OF t] i _ _ _ strictly_below_tree [OF t]] b
    by (simp add: blames_def terminal_over)
  from supervisedI [OF this [folded l] t'] show ?thesis
    using p by (auto simp: l blame_tasks [OF t] cancelling_def terminal_over)
qed

lemma settle_one_supervised:
  assumes s: "supervised (Suc i) s" and t: "tree s" and i: "i < length (tasks s)"
  shows "supervised i (settle_one E i s)"
proof -
  let ?s = "join_step i s"
  have l: "length (tasks ?s) = length (tasks s)" using skeleton_length [OF skeleton_join_step] by blast
  have t': "tree ?s" using tree_skeleton [OF skeleton_join_step] t by blast
  note j = join_step_supervised [OF s t i]
  show ?thesis
  proof (cases rule: settle_one_cases [of i s E])
    case (blamed p)
    then show ?thesis using blame_supervised [OF j(1) t' _ blamed(1)] i l by simp
  next
    case unblamed
    have "supervision i (length (tasks ?s)) (\<lambda>j. parent (tasks ?s ! j)) (\<lambda>j. tstatus (tasks ?s ! j)) (\<lambda>j. outcome (tasks ?s ! j))"
    proof (rule supervision_settled [OF j(1) [unfolded supervised_def]])
      show "tstatus (tasks ?s ! i) = TASK_JOINING \<Longrightarrow>
          \<exists>c < length (tasks ?s). parent (tasks ?s ! c) = Suc i \<and> \<not> over (tstatus (tasks ?s ! c))"
        using j(2) l by simp
      fix p assume "parent (tasks ?s ! i) = Suc p" "over (tstatus (tasks ?s ! i))" "tstatus (tasks ?s ! i) \<noteq> TASK_COMPLETED"
        "\<not> over (tstatus (tasks ?s ! p))"
      with unblamed(1) [of p] show "outcome (tasks ?s ! p) \<in> {TASK_TRAPPED, TASK_EXITED}"
        by (auto simp: blames_def terminal_over)
    qed
    then show ?thesis by (simp add: unblamed(2) supervised_def)
  qed
qed

lemma settle_supervised:
  assumes "supervised (length (tasks s)) s" and "tree s"
  shows "supervised 0 (settle E s)"
proof -
  have "supervised k s \<Longrightarrow> k \<le> length (tasks s) \<Longrightarrow> tree s \<Longrightarrow> supervised 0 (downward (settle_one E) k s)" for k and s :: "'a VMTasks"
  proof (induction k arbitrary: s)
    case (Suc i)
    have "tree (settle_one E i s)" using tree_skeleton [OF skeleton_settle_one] Suc.prems by blast
    moreover have "length (tasks (settle_one E i s)) = length (tasks s)" using skeleton_length [OF skeleton_settle_one] by blast
    ultimately show ?case using Suc settle_one_supervised [of i s E] by simp
  qed simp
  with assms show ?thesis by (simp add: settle_def)
qed

section \<open>Invariants of ending tasks\<close>

locale ending_invariant =
  fixes E :: "'w Native" and I :: "'w VMTasks \<Rightarrow> bool"
  assumes blamed: "I s \<Longrightarrow> tree s \<Longrightarrow> i < length (tasks s) \<Longrightarrow> \<not> terminal (tasks s ! i) \<Longrightarrow>
      I (set_task i (\<lambda>t. t\<lparr>terror := e\<rparr>) (finish_body E i TASK_TRAPPED s))"
    and cancelled: "I s \<Longrightarrow> tree s \<Longrightarrow> i < length (tasks s) \<Longrightarrow> \<not> terminal (tasks s ! i) \<Longrightarrow> I (cancel_one E i s)"
    and joined: "I s \<Longrightarrow> tree s \<Longrightarrow> i < length (tasks s) \<Longrightarrow> tstatus (tasks s ! i) = TASK_JOINING \<Longrightarrow>
      I (set_task i (\<lambda>t. t\<lparr>tstatus := outcome t\<rparr>) s)"
begin

lemma sweep_kept:
  "I s \<Longrightarrow> tree s \<Longrightarrow> n \<le> length (tasks s) \<Longrightarrow>
     I (downward (\<lambda>i s. if P i s \<and> \<not> terminal (tasks s ! i) \<and> Q i s then cancel_one E i s else s) n s)"
proof (induction n arbitrary: s)
  case (Suc i)
  let ?s = "if P i s \<and> \<not> terminal (tasks s ! i) \<and> Q i s then cancel_one E i s else s"
  have k: "skeleton ?s = skeleton s" by (simp add: skeleton_cancel_one)
  have "I ?s" using Suc.prems cancelled by simp
  moreover have "tree ?s" "length (tasks ?s) = length (tasks s)" using tree_skeleton [OF k] skeleton_length [OF k] Suc.prems by blast+
  ultimately show ?case using Suc.IH [of ?s] Suc.prems by simp
qed simp

lemma cancel_kept:
  assumes "I s" and "tree s"
  shows "I (cancel_tree E r s)" and "I (cancel_children E r s)"
  using sweep_kept [OF assms, of "length (tasks s)" "\<lambda>_ _. True"] sweep_kept [OF assms, of "length (tasks s)" "\<lambda>i s. slot (tasks s ! i) \<noteq> r"]
  unfolding cancel_tree_def cancel_children_def by simp_all

lemma settle_one_kept:
  assumes "I s" and "tree s" and "i < length (tasks s)"
  shows "I (settle_one E i s)"
proof -
  let ?s = "join_step i s"
  have l: "length (tasks ?s) = length (tasks s)" using skeleton_length [OF skeleton_join_step] by blast
  have t: "tree ?s" using tree_skeleton [OF skeleton_join_step] assms(2) by blast
  have j: "I ?s" using assms joined by (auto simp: join_step_def)
  show ?thesis
  proof (cases rule: settle_one_cases [of i s E])
    case (blamed p)
    let ?f = "set_task p (\<lambda>t. t\<lparr>terror := Some ''child task did not complete successfully''\<rparr>) (finish_body E p TASK_TRAPPED ?s)"
    have p: "p < length (tasks ?s)" "\<not> terminal (tasks ?s ! p)"
      using blamed(1) treeD(2) [OF t, of i p] assms(3) l by (auto simp: blames_def)
    have k: "skeleton ?f = skeleton ?s" by (simp add: skeleton_set_task skeleton_finish_body)
    have "I ?f" using ending_invariant.blamed [OF ending_invariant_axioms j t p] .
    then show ?thesis using cancel_kept(2) tree_skeleton [OF k] t by (simp add: blamed(2) blame_def)
  qed (use j in simp)
qed

lemma settle_kept:
  assumes "I s" and "tree s"
  shows "I (settle E s)"
proof -
  have "I s \<Longrightarrow> tree s \<Longrightarrow> n \<le> length (tasks s) \<Longrightarrow> I (downward (settle_one E) n s)" for n s
  proof (induction n arbitrary: s)
    case (Suc i)
    have "tree (settle_one E i s)" "length (tasks (settle_one E i s)) = length (tasks s)"
      using tree_skeleton [OF skeleton_settle_one] skeleton_length [OF skeleton_settle_one] Suc.prems by blast+
    with Suc settle_one_kept [of s i] show ?case by simp
  qed simp
  with assms show ?thesis by (simp add: settle_def)
qed

end

section \<open>Tasks and their machines\<close>

text \<open>What the status of a task says about it.\<close>

definition task_ok :: "'w Task \<Rightarrow> bool" where
  "task_ok t \<longleftrightarrow> (queued t \<longrightarrow> pending (request t)) \<and>
     (case tstatus t of
        TASK_READY \<Rightarrow> outcome t = TASK_INVALID \<and> tresult t = None \<and>
          (case body t of None \<Rightarrow> False | Some m \<Rightarrow> hosted (async_read t) (request t) m \<and> status m = VM_YIELDED)
      | TASK_WAITING \<Rightarrow> outcome t = TASK_INVALID \<and> tresult t = None \<and>
          (case body t of None \<Rightarrow> False | Some m \<Rightarrow> hosted (async_read t) (request t) m \<and> status m = VM_WAITING)
      | TASK_JOINING \<Rightarrow> body t = None \<and> \<not> pending (request t) \<and> outcome t \<in> {TASK_COMPLETED, TASK_TRAPPED, TASK_EXITED} \<and>
          (tresult t \<noteq> None \<longleftrightarrow> outcome t = TASK_COMPLETED)
      | TASK_INVALID \<Rightarrow> False
      | _ \<Rightarrow> body t = None \<and> \<not> pending (request t) \<and> outcome t = tstatus t \<and> (tresult t \<noteq> None \<longleftrightarrow> tstatus t = TASK_COMPLETED))"

lemma task_ok_queued: "task_ok t \<Longrightarrow> queued t \<Longrightarrow> pending (request t)"
  by (simp add: task_ok_def)

lemma task_ok_ended:
  assumes "queued t \<longrightarrow> pending (request t)" and "k \<in> {TASK_COMPLETED, TASK_TRAPPED, TASK_EXITED}"
    and "k = TASK_COMPLETED \<longrightarrow> (\<exists>m. body t = Some m \<and> result m \<noteq> None)"
  shows "task_ok (ended_task k t)"
  using assms by (auto simp: task_ok_def ended_task_def Let_def note_outcome_def split: option.split)

lemma task_ok_cancelled: "queued t \<longrightarrow> pending (request t) \<Longrightarrow> task_ok (cancelled_task t)"
  by (auto simp: task_ok_def cancelled_task_def ended_task_def Let_def note_outcome_def split: option.split)

lemma task_ok_updates:
  "task_ok (t\<lparr>terror := e\<rparr>) = task_ok t"
  "task_ok t \<Longrightarrow> tstatus t = TASK_JOINING \<Longrightarrow> task_ok (t\<lparr>tstatus := outcome t\<rparr>)"
  by (auto simp: task_ok_def cong: VMTaskStatus.case_cong option.case_cong)

lemma tasks_ok_update: "\<forall>t \<in> set ts. task_ok t \<Longrightarrow> task_ok x \<Longrightarrow> \<forall>t \<in> set (ts[i := x]). task_ok t"
  by (auto dest!: set_update_subset_insert [THEN subsetD])

section \<open>Requests are released once\<close>

definition pendings :: "'w Task list \<Rightarrow> nat" where
  "pendings ts = sum_list (map (\<lambda>t. of_bool (pending (request t))) ts)"

definition balanced :: "'w VMTasks \<Rightarrow> bool" where
  "balanced s \<longleftrightarrow> registered s = released s + pendings (tasks s) \<and> registered s \<le> SIZE_MAX"

lemma pendings_update:
  "i < length ts \<Longrightarrow> pendings (ts[i := x]) + of_bool (pending (request (ts ! i))) = pendings ts + of_bool (pending (request x))"
proof -
  assume i: "i < length ts"
  let ?f = "\<lambda>t. of_bool (pending (request t)) :: nat"
  have "?f (ts ! i) \<le> sum_list (map ?f ts)" using i by (intro member_le_sum_list) auto
  with i show ?thesis by (simp add: pendings_def map_update sum_list_update)
qed

lemma balanced_release:
  assumes "balanced s" and i: "i < length (tasks s)" and x: "\<not> pending (request x)"
    and s': "tasks s' = (tasks s)[i := x]" "registered s' = registered s"
      "released s' = (if pending (request (tasks s ! i)) then u64 (released s + 1) else released s)"
  shows "balanced s'"
proof -
  have p: "pendings (tasks s') + of_bool (pending (request (tasks s ! i))) = pendings (tasks s)"
    using pendings_update [OF i, of x] x by (simp add: s')
  then have "released s + of_bool (pending (request (tasks s ! i))) \<le> SIZE_MAX" using assms(1) by (simp add: balanced_def)
  then have "released s' = released s + of_bool (pending (request (tasks s ! i)))"
    by (cases "pending (request (tasks s ! i))") (simp_all add: s'(3) u64_def SIZE_MAX_def)
  with p assms(1) show ?thesis by (simp add: balanced_def s'(2))
qed

definition table_ok :: "'w VMTasks \<Rightarrow> bool" where
  "table_ok s \<longleftrightarrow> (\<forall>t \<in> set (tasks s). task_ok t) \<and> balanced s"

lemma table_okD: "table_ok s \<Longrightarrow> i < length (tasks s) \<Longrightarrow> task_ok (tasks s ! i)"
  by (simp add: table_ok_def)

lemma finish_body_counters:
  assumes "i < length (tasks s)"
  shows "registered (finish_body E i k s) = registered s"
    "released (finish_body E i k s) = (if pending (request (tasks s ! i)) then u64 (released s + 1) else released s)"
    "registered (cancel_one E i s) = registered s"
    "released (cancel_one E i s) = (if pending (request (tasks s ! i)) then u64 (released s + 1) else released s)"
  using finish_body_form [OF assms, of E k] cancel_one_form [OF assms, of E] by auto

lemma finish_body_table:
  assumes s: "balanced s" "\<forall>t \<in> set ((tasks s)[i := x]). task_ok t" and i: "i < length (tasks s)"
    and q: "queued (tasks s ! i) \<longrightarrow> pending (request (tasks s ! i))" and k: "k \<in> {TASK_COMPLETED, TASK_TRAPPED, TASK_EXITED}"
    and r: "k = TASK_COMPLETED \<longrightarrow> (\<exists>m. body (tasks s ! i) = Some m \<and> result m \<noteq> None)"
  shows "table_ok (finish_body E i k s)"
proof -
  have "balanced (finish_body E i k s)"
    by (rule balanced_release [OF s(1) i]) (simp_all add: finish_body_tasks finish_body_counters i)
  moreover have "\<forall>t \<in> set ((tasks s)[i := ended_task k (tasks s ! i)]). task_ok t"
    using tasks_ok_update [OF s(2) task_ok_ended [OF q k r], of i] by simp
  ultimately show ?thesis using i by (simp add: table_ok_def finish_body_tasks)
qed

lemma table_ok_edit:
  assumes s: "table_ok s" and i: "i < length (tasks s)" and x: "task_ok (f (tasks s ! i))"
    and p: "pending (request (f (tasks s ! i))) = pending (request (tasks s ! i))"
  shows "table_ok (set_task i f s)"
proof -
  have "pendings (tasks (set_task i f s)) = pendings (tasks s)"
    using pendings_update [OF i, of "f (tasks s ! i)"] p by simp
  then have "balanced (set_task i f s)" using s by (simp add: table_ok_def balanced_def)
  moreover have "\<forall>t \<in> set ((tasks s)[i := f (tasks s ! i)]). task_ok t"
    using s x by (intro tasks_ok_update) (simp_all add: table_ok_def)
  ultimately show ?thesis by (simp add: table_ok_def)
qed

lemma cancel_one_table:
  assumes s: "table_ok s" and i: "i < length (tasks s)"
  shows "table_ok (cancel_one E i s)"
proof -
  have "task_ok (cancelled_task (tasks s ! i))" using task_ok_cancelled task_ok_queued table_okD [OF s i] by blast
  then have "\<forall>t \<in> set ((tasks s)[i := cancelled_task (tasks s ! i)]). task_ok t"
    using s by (intro tasks_ok_update) (simp_all add: table_ok_def)
  moreover have "balanced (cancel_one E i s)"
    by (rule balanced_release [where s = s and i = i and x = "cancelled_task (tasks s ! i)"])
      (use s i in \<open>simp_all add: table_ok_def cancel_one_tasks finish_body_counters\<close>)
  ultimately show ?thesis using i by (simp add: table_ok_def cancel_one_tasks)
qed

interpretation table_ending: ending_invariant E table_ok
proof unfold_locales
  fix s :: "'a VMTasks" and i e
  assume s: "table_ok s" "i < length (tasks s)"
  have q: "queued (tasks s ! i) \<longrightarrow> pending (request (tasks s ! i))" using table_okD [OF s] task_ok_queued by blast
  have f: "table_ok (finish_body E i TASK_TRAPPED s)"
    by (rule finish_body_table [where x = "tasks s ! i"]) (use s q in \<open>simp_all add: table_ok_def\<close>)
  have l: "i < length (tasks (finish_body E i TASK_TRAPPED s))" using s(2) by (simp add: finish_body_tasks)
  show "table_ok (set_task i (\<lambda>t. t\<lparr>terror := e\<rparr>) (finish_body E i TASK_TRAPPED s))"
    by (rule table_ok_edit [OF f l]) (use table_okD [OF f l] in \<open>simp_all add: task_ok_updates\<close>)
  show "table_ok (cancel_one E i s)" by (rule cancel_one_table [OF s])
  show "tstatus (tasks s ! i) = TASK_JOINING \<Longrightarrow> table_ok (set_task i (\<lambda>t. t\<lparr>tstatus := outcome t\<rparr>) s)"
    by (rule table_ok_edit [OF s]) (use table_okD [OF s] in \<open>simp_all add: task_ok_updates\<close>)
qed

section \<open>The invariant of a session\<close>

lemma ending_length [simp]:
  "length (tasks (finish_body E i k s)) = length (tasks s)" "length (tasks (cancel_tree E r s)) = length (tasks s)"
  "length (tasks (cancel_children E r s)) = length (tasks s)" "length (tasks (settle E s)) = length (tasks s)"
  by (auto intro: skeleton_length skeleton_finish_body skeleton_cancel skeleton_settle)

lemma ending_tree [simp]:
  "tree (finish_body E i k s) = tree s" "tree (cancel_tree E r s) = tree s"
  "tree (cancel_children E r s) = tree s" "tree (settle E s) = tree s"
  by (auto simp: tree_skeleton [OF skeleton_finish_body] tree_skeleton [OF skeleton_cancel(1)]
      tree_skeleton [OF skeleton_cancel(2)] tree_skeleton [OF skeleton_settle])

definition layout :: "'w VMTasks \<Rightarrow> bool" where
  "layout s \<longleftrightarrow> tree s \<and>
     (\<forall>i < length (tasks s). \<forall>p. parent (tasks s ! i) = Suc p \<longrightarrow> deadline (tasks s ! i) \<le> deadline (tasks s ! p)) \<and>
     length (tasks s) \<le> capacity s \<and> (task_cursor s = 0 \<or> task_cursor s < length (tasks s)) \<and>
     0 < event_capacity s \<and> event_capacity s \<le> SIZE_MAX div sizeof_Completion \<and> length (events s) = event_capacity s \<and>
     event_head s < event_capacity s \<and> event_count s \<le> event_capacity s"

definition session_ok :: "'w VMTasks \<Rightarrow> bool" where
  "session_ok s \<longleftrightarrow> layout s \<and> table_ok s \<and> supervised 0 s"

lemma layout_skeleton:
  assumes "skeleton a = skeleton b" and "layout b"
  shows "layout a"
proof -
  have t: "tree b" using assms(2) by (simp add: layout_def)
  have "deadline (tasks a ! i) \<le> deadline (tasks a ! p)" if i: "i < length (tasks b)" "parent (tasks a ! i) = Suc p" for i p
  proof -
    have p: "parent (tasks b ! i) = Suc p" using i skeleton_parts(2) [OF assms(1) i(1)] by simp
    then have "p < length (tasks b)" using treeD(2) [OF t i(1)] i(1) by fastforce
    then show ?thesis using assms(2) i p skeleton_parts(3) [OF assms(1)] by (simp add: layout_def)
  qed
  moreover have "capacity a = capacity b \<and> task_cursor a = task_cursor b \<and> event_capacity a = event_capacity b \<and> events a = events b \<and>
      event_head a = event_head b \<and> event_count a = event_count b" using assms(1) by (simp add: skeleton_def)
  ultimately show ?thesis
    using assms(2) tree_skeleton [OF assms(1)] skeleton_length [OF assms(1)] by (simp add: layout_def)
qed

lemma session_okD:
  assumes "session_ok s"
  shows "tree s" "layout s" "table_ok s" "supervised 0 s" "balanced s" "i < length (tasks s) \<Longrightarrow> task_ok (tasks s ! i)"
  using assms by (simp_all add: session_ok_def layout_def table_ok_def)

lemma supervised_weaken: "supervised m s \<Longrightarrow> m \<le> k \<Longrightarrow> supervised k s"
  unfolding supervised_def by (rule supervision_weaken)

text \<open>Changing a task that runs into one that runs.\<close>

lemma supervised_relabel:
  assumes s: "supervised m s" and t: "tree s" and i: "i < length (tasks s)" "tstatus (tasks s ! i) \<in> {TASK_READY, TASK_WAITING}"
    and x: "tstatus (f (tasks s ! i)) \<in> {TASK_READY, TASK_WAITING}" "fixture (f (tasks s ! i)) = fixture (tasks s ! i)"
      "outcome (f (tasks s ! i)) = outcome (tasks s ! i)"
  shows "supervised m (set_task i f s)"
proof -
  let ?st = "\<lambda>j. tstatus (tasks s ! j)" and ?n = "length (tasks s)" and ?p = "\<lambda>j. parent (tasks s ! j)" and ?oc = "\<lambda>j. outcome (tasks s ! j)"
  let ?st' = "?st(i := tstatus (f (tasks s ! i)))"
  note d = supervisionD [OF s [unfolded supervised_def]]
  have ov: "over (?st' j) = over (?st j)" "?st' j = TASK_COMPLETED \<longleftrightarrow> ?st j = TASK_COMPLETED" "?st' j = TASK_JOINING \<longleftrightarrow> ?st j = TASK_JOINING" for j
    using i x by auto
  have sup: "supervision m ?n ?p ?st' ?oc"
  proof (rule supervisionI)
    fix c p assume c: "c < ?n" "?p c = Suc p"
    show "over (?st' p) \<Longrightarrow> over (?st' c) \<and> (?st' p = TASK_COMPLETED \<longrightarrow> ?st' c = TASK_COMPLETED)"
      using d(1,2) [OF c] unfolding ov by blast
    show "m \<le> c \<Longrightarrow> over (?st' c) \<Longrightarrow> ?st' c \<noteq> TASK_COMPLETED \<Longrightarrow> \<not> over (?st' p) \<Longrightarrow> ?oc p \<in> {TASK_TRAPPED, TASK_EXITED}"
      using d(4) [OF c(1) _ c(2)] unfolding ov by blast
  next
    fix k assume k: "k < ?n" "?st' k = TASK_JOINING"
    show "?oc k \<in> {TASK_COMPLETED, TASK_TRAPPED, TASK_EXITED}" using d(3) [OF k(1)] k(2) unfolding ov by blast
    show "m \<le> k \<Longrightarrow> \<exists>c < ?n. ?p c = Suc k \<and> \<not> over (?st' c)" using d(5) [OF k(1)] k(2) unfolding ov by blast
  qed
  have l: "length (tasks (set_task i f s)) = ?n" by simp
  have "fixture (tasks (set_task i f s) ! j) = fixture (tasks s ! j)" if "j < ?n" for j
    using x(2) that by (cases "j = i") simp_all
  then have p: "parent (tasks (set_task i f s) ! j) = ?p j" "slot (tasks (set_task i f s) ! j) = slot (tasks s ! j)" if "j < ?n" for j
    using that by (simp_all add: fixture_def)
  have "tree (set_task i f s)" using t p by (simp add: tree_def)
  from supervisedI [OF sup [folded l] this] show ?thesis
    using p i(1) x(3) by (simp add: nth_list_update)
qed

text \<open>Ending a task, its descendants and whatever follows from that.\<close>

definition ending :: "'w Native \<Rightarrow> nat \<Rightarrow> VMTaskStatus \<Rightarrow> 'w VMTasks \<Rightarrow> 'w VMTasks" where
  "ending E i k s = settle E (if k \<noteq> TASK_COMPLETED then cancel_children E (Suc i) (finish_body E i k s) else finish_body E i k s)"

lemma skeleton_ending: "skeleton (ending E i k s) = skeleton s"
  by (simp add: ending_def skeleton_settle skeleton_cancel skeleton_finish_body)

lemma ending_ok:
  assumes l: "layout s" and b: "balanced s" "\<forall>t \<in> set ((tasks s)[i := x]). task_ok t" and v: "supervised 0 s"
    and i: "i < length (tasks s)" "\<not> terminal (tasks s ! i)" and q: "queued (tasks s ! i) \<longrightarrow> pending (request (tasks s ! i))"
    and k: "k \<in> {TASK_COMPLETED, TASK_TRAPPED, TASK_EXITED}"
    and r: "k = TASK_COMPLETED \<longrightarrow> (\<exists>m. body (tasks s ! i) = Some m \<and> result m \<noteq> None)"
  shows "session_ok (ending E i k s)"
proof -
  let ?f = "finish_body E i k s" and ?c = "cancel_children E (Suc i) (finish_body E i k s)"
  let ?s = "if k \<noteq> TASK_COMPLETED then ?c else ?f"
  have t: "tree s" using l by (simp add: layout_def)
  have f: "table_ok ?f" "tree ?f" "supervised (length (tasks s)) ?f"
    using finish_body_table [OF b i(1) q k r] t finish_body_supervised [OF v t i k] by auto
  have c: "table_ok ?c" "tree ?c" "supervised (length (tasks s)) ?c"
    using table_ending.cancel_kept(2) [OF f(1,2)] t cancel_supervised(2) [OF f(3,2), of i E] i(1) by auto
  have "table_ok ?s" "tree ?s" "supervised (length (tasks ?s)) ?s" using f c by auto
  then have "table_ok (settle E ?s)" "supervised 0 (settle E ?s)" using table_ending.settle_kept settle_supervised by blast+
  moreover have "layout (settle E ?s)" using layout_skeleton [OF skeleton_ending l] by (simp only: ending_def)
  ultimately show ?thesis by (simp only: session_ok_def ending_def)
qed


section \<open>What other tasks see of an ending\<close>

definition since :: "'w VMTasks \<Rightarrow> 'w VMTasks \<Rightarrow> bool" where
  "since a s \<longleftrightarrow> length (tasks s) = length (tasks a) \<and> (\<forall>i < length (tasks a).
     terminal (tasks a ! i) \<or> tstatus (tasks s ! i) \<in> {TASK_READY, TASK_WAITING} \<longrightarrow> tasks s ! i = tasks a ! i)"

lemma since_refl: "since a a"
  by (simp add: since_def)

lemma terminal_running: "terminal t \<Longrightarrow> tstatus t \<noteq> TASK_READY \<and> tstatus t \<noteq> TASK_WAITING"
  by (auto simp: terminal_def)

lemma sinceD:
  assumes "since a s"
  shows "length (tasks s) = length (tasks a)"
    and "i < length (tasks a) \<Longrightarrow> terminal (tasks a ! i) \<Longrightarrow> tasks s ! i = tasks a ! i"
    and "i < length (tasks a) \<Longrightarrow> tstatus (tasks s ! i) \<in> {TASK_READY, TASK_WAITING} \<Longrightarrow> tasks s ! i = tasks a ! i"
  using assms unfolding since_def by blast+

lemma sinceI:
  assumes "length (tasks s) = length (tasks a)"
    and "\<And>i. i < length (tasks a) \<Longrightarrow> terminal (tasks a ! i) \<Longrightarrow> tasks s ! i = tasks a ! i"
    and "\<And>i. i < length (tasks a) \<Longrightarrow> tstatus (tasks s ! i) \<in> {TASK_READY, TASK_WAITING} \<Longrightarrow> tasks s ! i = tasks a ! i"
  shows "since a s"
  using assms unfolding since_def by blast

lemma since_trans:
  assumes ab: "since a b" and bc: "since b c"
  shows "since a c"
proof (rule sinceI)
  show "length (tasks c) = length (tasks a)" using sinceD(1) [OF ab] sinceD(1) [OF bc] by simp
  fix i assume i: "i < length (tasks a)"
  then have ib: "i < length (tasks b)" using sinceD(1) [OF ab] by simp
  show "tasks c ! i = tasks a ! i" if t: "terminal (tasks a ! i)"
  proof -
    have b: "tasks b ! i = tasks a ! i" by (rule sinceD(2) [OF ab i t])
    from sinceD(2) [OF bc ib] t show ?thesis unfolding b by blast
  qed
  show "tasks c ! i = tasks a ! i" if r: "tstatus (tasks c ! i) \<in> {TASK_READY, TASK_WAITING}"
  proof -
    have c: "tasks c ! i = tasks b ! i" by (rule sinceD(3) [OF bc ib r])
    from sinceD(3) [OF ab i] r show ?thesis unfolding c by blast
  qed
qed

lemma since_end:
  assumes a: "since a s" and i: "i < length (tasks s)" "\<not> terminal (tasks s ! i)" and s': "tasks s' = (tasks s)[i := x]"
    and x: "tstatus x \<notin> {TASK_READY, TASK_WAITING}"
  shows "since a s'"
proof (rule sinceI)
  show "length (tasks s') = length (tasks a)" using sinceD(1) [OF a] by (simp add: s')
  fix j assume j: "j < length (tasks a)"
  have n: "tasks s' ! j = (if j = i then x else tasks s ! j)" using i(1) by (simp add: s')
  show "tasks s' ! j = tasks a ! j" if t: "terminal (tasks a ! j)"
  proof -
    have "tasks s ! j = tasks a ! j" by (rule sinceD(2) [OF a j t])
    with i(2) t show ?thesis by (auto simp: n)
  qed
  show "tasks s' ! j = tasks a ! j" if r: "tstatus (tasks s' ! j) \<in> {TASK_READY, TASK_WAITING}"
    using r x sinceD(3) [OF a j] unfolding n by (cases "j = i") simp_all
qed

lemma ended_status [simp]: "tstatus (ended_task k t) = TASK_JOINING" "tstatus (cancelled_task t) = TASK_CANCELLED"
  by (simp_all add: ended_task_def cancelled_task_def Let_def)

lemma joining_outcome: "task_ok t \<Longrightarrow> tstatus t = TASK_JOINING \<Longrightarrow> outcome t \<in> {TASK_COMPLETED, TASK_TRAPPED, TASK_EXITED}"
  by (simp add: task_ok_def)

interpretation since_ending: ending_invariant E "\<lambda>s. table_ok s \<and> since a s"
proof unfold_locales
  fix s :: "'a VMTasks" and i e
  assume s: "table_ok s \<and> since a s" "tree s" "i < length (tasks s)"
  show "\<not> terminal (tasks s ! i) \<Longrightarrow> table_ok (set_task i (\<lambda>t. t\<lparr>terror := e\<rparr>) (finish_body E i TASK_TRAPPED s)) \<and>
      since a (set_task i (\<lambda>t. t\<lparr>terror := e\<rparr>) (finish_body E i TASK_TRAPPED s))"
    using s table_ending.blamed [of s i e E]
    by (auto simp: finish_body_tasks intro!: since_end [where i = i and s = s and x = "(ended_task TASK_TRAPPED (tasks s ! i))\<lparr>terror := e\<rparr>"])
  show "\<not> terminal (tasks s ! i) \<Longrightarrow> table_ok (cancel_one E i s) \<and> since a (cancel_one E i s)"
    using s table_ending.cancelled [of s i E] by (auto intro: since_end [OF _ _ _ cancel_one_tasks])
  assume j: "tstatus (tasks s ! i) = TASK_JOINING"
  have "outcome (tasks s ! i) \<in> {TASK_COMPLETED, TASK_TRAPPED, TASK_EXITED}"
    using joining_outcome [OF table_okD j] s by blast
  then show "table_ok (set_task i (\<lambda>t. t\<lparr>tstatus := outcome t\<rparr>) s) \<and> since a (set_task i (\<lambda>t. t\<lparr>tstatus := outcome t\<rparr>) s)"
    using s j table_ending.joined [of s i]
    by (auto simp: terminal_def intro!: since_end [where i = i and s = s and x = "(tasks s ! i)\<lparr>tstatus := outcome (tasks s ! i)\<rparr>"])
qed

lemma ending_since:
  assumes l: "layout s" and b: "balanced s" "\<forall>t \<in> set ((tasks s)[i := x]). task_ok t"
    and i: "i < length (tasks s)" "\<not> terminal (tasks s ! i)" and q: "queued (tasks s ! i) \<longrightarrow> pending (request (tasks s ! i))"
    and k: "k \<in> {TASK_COMPLETED, TASK_TRAPPED, TASK_EXITED}"
    and r: "k = TASK_COMPLETED \<longrightarrow> (\<exists>m. body (tasks s ! i) = Some m \<and> result m \<noteq> None)"
  shows "since s (ending E i k s)"
proof -
  let ?f = "finish_body E i k s"
  have f: "table_ok ?f \<and> since s ?f" "tree ?f"
    using finish_body_table [OF b i(1) q k r] since_end [OF since_refl i finish_body_tasks [OF i(1)]] l
    by (simp_all add: layout_def)
  then have "table_ok (cancel_children E (Suc i) ?f) \<and> since s (cancel_children E (Suc i) ?f)"
    using since_ending.cancel_kept(2) by blast
  with f show ?thesis
    using since_ending.settle_kept [of ?f s E] since_ending.settle_kept [of "cancel_children E (Suc i) ?f" s E]
    by (auto simp: ending_def)
qed


section \<open>Every operation keeps it\<close>

text \<open>A machine put back into its task.\<close>

lemma put_back:
  assumes "i < length (tasks s)" and "world m = (r, n, w)"
  shows "tasks (set_task i (\<lambda>t. t\<lparr>body := Some m\<rparr>) (give_back i m s)) = (tasks s)[i := (tasks s ! i)\<lparr>request := r, body := Some m\<rparr>]"
    and "registered (set_task i (\<lambda>t. t\<lparr>body := Some m\<rparr>) (give_back i m s)) = n"
    and "released (set_task i (\<lambda>t. t\<lparr>body := Some m\<rparr>) (give_back i m s)) = released s"
    and "skeleton (set_task i (\<lambda>t. t\<lparr>body := Some m\<rparr>) (give_back i m s)) = skeleton s"
  using assms by (simp_all add: give_back_def skeleton_set_task)

lemma put_back_supervised:
  assumes "supervised m s" and "tree s" and "i < length (tasks s)" and "tstatus (tasks s ! i) \<in> {TASK_READY, TASK_WAITING}"
  shows "supervised m (set_task i (\<lambda>t. t\<lparr>body := Some b\<rparr>) (give_back i b s))"
proof -
  obtain r n w where w: "world b = (r, n, w)" by (metis prod_cases3)
  have "supervised m (set_task i (\<lambda>t. t\<lparr>request := r, body := Some b\<rparr>) s)"
    by (rule supervised_relabel [OF assms]) (use assms(4) in simp_all)
  then show ?thesis using put_back(1) [OF assms(3) w] by (simp add: supervised_def)
qed

lemma ready_task:
  assumes "session_ok s" and "i < length (tasks s)" and "tstatus (tasks s ! i) = TASK_READY"
  obtains m where "body (tasks s ! i) = Some m" "hosted (async_read (tasks s ! i)) (request (tasks s ! i)) m"
    "status m = VM_YIELDED" "\<not> pending (request (tasks s ! i))" "\<not> queued (tasks s ! i)"
    "outcome (tasks s ! i) = TASK_INVALID" "tresult (tasks s ! i) = None"
proof -
  have "task_ok (tasks s ! i)" using session_okD(6) assms by blast
  then show thesis using assms(3) that by (auto simp: task_ok_def hosted_def split: option.splits)
qed

lemma relabel_ok:
  assumes l: "layout s" and b: "balanced s" and v: "supervised 0 s" and i: "i < length (tasks s)"
    and o: "\<forall>t \<in> set ((tasks s)[i := f (tasks s ! i)]). task_ok t"
    and x: "tstatus (tasks s ! i) \<in> {TASK_READY, TASK_WAITING}" "tstatus (f (tasks s ! i)) \<in> {TASK_READY, TASK_WAITING}"
      "outcome (f (tasks s ! i)) = outcome (tasks s ! i)" "pending (request (f (tasks s ! i))) = pending (request (tasks s ! i))"
    and f: "\<And>t. fixture (f t) = fixture t"
  shows "session_ok (set_task i f s)"
proof -
  have "supervised 0 (set_task i f s)"
    by (rule supervised_relabel [OF v]) (use l i x f in \<open>simp_all add: layout_def\<close>)
  moreover have "layout (set_task i f s)" by (rule layout_skeleton [OF skeleton_set_task [OF f] l])
  moreover have "pendings ((tasks s)[i := f (tasks s ! i)]) = pendings (tasks s)"
    using pendings_update [OF i, of "f (tasks s ! i)"] x(4) by simp
  ultimately show ?thesis using b o by (simp add: session_ok_def table_ok_def balanced_def)
qed

text \<open>What a turn of a ready task amounts to.\<close>

lemma run_task_cases:
  assumes s: "session_ok s" and i: "i < length (tasks s)" and st: "tstatus (tasks s ! i) = TASK_READY"
  obtains m s1 where "hosted (async_read (tasks s ! i)) (request_of m) m" "layout s1" "balanced s1" "supervised 0 s1"
    "skeleton s1 = skeleton s" "tasks s1 = (tasks s)[i := (tasks s ! i)\<lparr>request := request_of m, body := Some m\<rparr>]"
    "pending (request_of m) \<Longrightarrow> status m = VM_WAITING"
    "generation (request_of m) = generation (request (tasks s ! i)) + of_bool (pending (request_of m))"
    "run_task E i s = (if status m = VM_WAITING then set_task i (\<lambda>t. t\<lparr>tstatus := TASK_WAITING\<rparr>) s1
      else if status m \<noteq> VM_YIELDED then
        ending E i (if status m = VM_COMPLETED then TASK_COMPLETED else if status m = VM_EXITED then TASK_EXITED else TASK_TRAPPED) s1
      else s1)"
proof -
  let ?t = "tasks s ! i"
  obtain m0 where m: "body ?t = Some m0" "hosted (async_read ?t) (request ?t) m0" "\<not> pending (request ?t)"
    using ready_task [OF s i st] by blast
  define m where "m = fst (vm_execution_advance (session_native E) 1 (lend s (request ?t) m0))"
  note h = hosted_runs [OF m(2,3) m_def]
  obtain r n w where w: "world m = (r, n, w)" by (metis prod_cases3)
  define s1 where "s1 = set_task i (\<lambda>t. t\<lparr>body := Some m\<rparr>) (give_back i m s)"
  note p = put_back [OF i w, folded s1_def]
  have t: "tree s" "layout s1" using session_okD [OF s] layout_skeleton [OF p(4)] by auto
  have v: "supervised 0 s1"
    unfolding s1_def using put_back_supervised session_okD(4) [OF s] t(1) i st by blast
  have b: "balanced s1"
    using session_okD(5) [OF s] pendings_update [OF i, of "?t\<lparr>request := r, body := Some m\<rparr>"] m(3) h(2,4) p(1-3) w
    by (auto simp: balanced_def)
  have "run_task E i s = (if status m = VM_WAITING then set_task i (\<lambda>t. t\<lparr>tstatus := TASK_WAITING\<rparr>) s1
      else if status m \<noteq> VM_YIELDED then
        ending E i (if status m = VM_COMPLETED then TASK_COMPLETED else if status m = VM_EXITED then TASK_EXITED else TASK_TRAPPED) s1
      else s1)"
    using h(5) treeD(1) [OF t(1) i] m(1) unfolding m_def s1_def by (auto simp: run_task_def Let_def split_beta ending_def)
  with that [of m s1] h(1,3,4) t(2) b v p(1,4) w show thesis by simp
qed

lemma run_task_ok:
  assumes s: "session_ok s" and i: "i < length (tasks s)" and st: "tstatus (tasks s ! i) = TASK_READY"
  shows "session_ok (run_task E i s)"
proof -
  let ?t = "tasks s ! i"
  obtain m0 where m0: "\<not> pending (request ?t)" "\<not> queued ?t" "outcome ?t = TASK_INVALID" "tresult ?t = None"
    using ready_task [OF s i st] by metis
  obtain m s1 where h: "hosted (async_read ?t) (request_of m) m" and s1: "layout s1" "balanced s1" "supervised 0 s1" "skeleton s1 = skeleton s"
    and tasks: "tasks s1 = (tasks s)[i := ?t\<lparr>request := request_of m, body := Some m\<rparr>]"
    and w: "pending (request_of m) \<Longrightarrow> status m = VM_WAITING"
    and run: "run_task E i s = (if status m = VM_WAITING then set_task i (\<lambda>t. t\<lparr>tstatus := TASK_WAITING\<rparr>) s1
      else if status m \<noteq> VM_YIELDED then
        ending E i (if status m = VM_COMPLETED then TASK_COMPLETED else if status m = VM_EXITED then TASK_EXITED else TASK_TRAPPED) s1
      else s1)" by (rule run_task_cases [OF s i st, where E = E]) (rule that)
  have l: "i < length (tasks s1)" using tasks i by simp
  have others: "\<forall>t \<in> set ((tasks s1)[i := x]). task_ok t" if "task_ok x" for x
    using tasks_ok_update [OF _ that, of "tasks s" i] session_okD(3) [OF s] by (simp add: tasks table_ok_def)
  let ?t1 = "?t\<lparr>request := request_of m, body := Some m\<rparr>"
  let ?k = "if status m = VM_COMPLETED then TASK_COMPLETED else if status m = VM_EXITED then TASK_EXITED else TASK_TRAPPED"
  have n: "tasks s1 ! i = ?t1" using tasks i by simp
  consider "status m = VM_WAITING" | "status m = VM_YIELDED" | "status m \<noteq> VM_WAITING" "status m \<noteq> VM_YIELDED" by blast
  then show ?thesis
  proof cases
    case 1
    have "task_ok (?t1\<lparr>tstatus := TASK_WAITING\<rparr>)" using 1 h m0 by (simp add: task_ok_def)
    from others [OF this] have "session_ok (set_task i (\<lambda>t. t\<lparr>tstatus := TASK_WAITING\<rparr>) s1)"
      by (intro relabel_ok [OF s1(1-3) l]) (simp_all add: n st)
    then show ?thesis by (simp add: run 1)
  next
    case 2
    have "\<not> pending (request_of m)" using w 2 by auto
    then have "task_ok ?t1" using 2 h m0 st by (simp add: task_ok_def)
    from others [OF this] have "session_ok (set_task i (\<lambda>t. t) s1)"
      by (intro relabel_ok [OF s1(1-3) l]) (simp_all add: n st)
    then show ?thesis by (simp add: run 2 set_task_def)
  next
    case 3
    have "status m = VM_COMPLETED \<longrightarrow> result m \<noteq> None" using h by (auto simp: hosted_def settled_def)
    then have "session_ok (ending E i ?k s1)"
      by (intro ending_ok [OF s1(1,2) others [OF session_okD(6) [OF s i]] s1(3) l]) (simp_all add: n m0 st terminal_def)
    then show ?thesis using 3 by (simp add: run)
  qed
qed

text \<open>A turn of one task leaves the others alone, or ends them.\<close>

lemma run_task_others:
  assumes s: "session_ok s" and i: "i < length (tasks s)" and st: "tstatus (tasks s ! i) = TASK_READY"
    and j: "j < length (tasks s)" "j \<noteq> i" "terminal (tasks s ! j) \<or> tstatus (tasks (run_task E i s) ! j) \<in> {TASK_READY, TASK_WAITING}"
  shows "tasks (run_task E i s) ! j = tasks s ! j"
proof -
  let ?t = "tasks s ! i"
  have m0: "\<not> queued ?t" using ready_task [OF s i st] by metis
  obtain m s1 where h: "hosted (async_read ?t) (request_of m) m" and s1: "layout s1" "balanced s1" "supervised 0 s1" "skeleton s1 = skeleton s"
    and tasks: "tasks s1 = (tasks s)[i := ?t\<lparr>request := request_of m, body := Some m\<rparr>]"
    and w: "pending (request_of m) \<Longrightarrow> status m = VM_WAITING"
    and run: "run_task E i s = (if status m = VM_WAITING then set_task i (\<lambda>t. t\<lparr>tstatus := TASK_WAITING\<rparr>) s1
      else if status m \<noteq> VM_YIELDED then
        ending E i (if status m = VM_COMPLETED then TASK_COMPLETED else if status m = VM_EXITED then TASK_EXITED else TASK_TRAPPED) s1
      else s1)" by (rule run_task_cases [OF s i st, where E = E]) (rule that)
  have o: "tasks s1 ! j = tasks s ! j" using j(2) by (simp add: tasks)
  show ?thesis
  proof (cases "status m = VM_WAITING \<or> status m = VM_YIELDED")
    case True
    then show ?thesis using j(2) o by (auto simp: run)
  next
    case False
    let ?k = "if status m = VM_COMPLETED then TASK_COMPLETED else if status m = VM_EXITED then TASK_EXITED else TASK_TRAPPED"
    have r: "status m = VM_COMPLETED \<longrightarrow> result m \<noteq> None" using h by (auto simp: hosted_def settled_def)
    have "\<forall>t \<in> set ((tasks s1)[i := ?t]). task_ok t"
      using session_okD(3) [OF s] by (simp add: tasks table_ok_def)
    then have e: "since s1 (ending E i ?k s1)"
      by (rule ending_since [OF s1(1,2)]) (use i r m0 st in \<open>simp_all add: tasks terminal_def\<close>)
    have l: "j < length (tasks s1)" using j(1) by (simp add: tasks)
    have "terminal (tasks s1 ! j) \<or> tstatus (tasks (ending E i ?k s1) ! j) \<in> {TASK_READY, TASK_WAITING}"
      using j(3) False by (simp add: run o)
    then have "tasks (ending E i ?k s1) ! j = tasks s1 ! j" using sinceD(2,3) [OF e l] by blast
    then show ?thesis using False by (simp add: run o)
  qed
qed

lemma skeleton_run_task:
  "session_ok s \<Longrightarrow> i < length (tasks s) \<Longrightarrow> tstatus (tasks s ! i) = TASK_READY \<Longrightarrow> skeleton (run_task E i s) = skeleton s"
  by (simp add: run_task_def Let_def split_beta skeleton_settle skeleton_cancel skeleton_finish_body skeleton_set_task
      skeleton_give_back)


lemma skeleton_resume_task: "skeleton (resume_task E i ev s) = skeleton s"
  by (simp add: resume_task_def Let_def skeleton_settle skeleton_cancel skeleton_finish_body skeleton_set_task
      skeleton_release skeleton_give_back)

lemma waiting_task:
  assumes "session_ok s" and "i < length (tasks s)" and "pending (request (tasks s ! i))"
  obtains m where "body (tasks s ! i) = Some m" "hosted (async_read (tasks s ! i)) (request (tasks s ! i)) m"
    "tstatus (tasks s ! i) = TASK_WAITING" "outcome (tasks s ! i) = TASK_INVALID" "tresult (tasks s ! i) = None"
proof -
  have "task_ok (tasks s ! i)" using session_okD(6) assms by blast
  then show thesis using assms(3) that
    by (cases "tstatus (tasks s ! i)") (auto simp: task_ok_def hosted_def split: option.splits)
qed

definition resumed_task :: "'w shared VMExecution \<Rightarrow> 'w Task \<Rightarrow> 'w Task" where
  "resumed_task m t = t\<lparr>body := Some m, request := (request t)\<lparr>pending := False, input := None\<rparr>, queued := False\<rparr>"

lemma resume_task_form:
  assumes s: "session_ok s" and i: "i < length (tasks s)" and p: "pending (request (tasks s ! i))"
  obtains m where "hosted (async_read (tasks s ! i)) ((request (tasks s ! i))\<lparr>pending := False, input := None\<rparr>) m"
    "status m = (if error m = None then VM_YIELDED else VM_TRAPPED)"
    "resume_task E i ev s =
      (let s1 = (set_task i (resumed_task m) s)\<lparr>released := u64 (released s + 1)\<rparr> in
       if error m \<noteq> None then ending E i TASK_TRAPPED s1 else set_task i (\<lambda>t. t\<lparr>tstatus := TASK_READY\<rparr>) s1)"
proof -
  let ?t = "tasks s ! i"
  obtain m0 where m0: "body ?t = Some m0" "hosted (async_read ?t) (request ?t) m0" using waiting_task [OF s i p] by metis
  define m where "m = fst (if async_read ?t then vm_execution_complete_read (session_native E) (lend s (request ?t) m0) (cresult ev)
     else vm_execution_complete_print (session_native E) (lend s (request ?t) m0) (cerror ev))"
  note h = hosted_completed [OF m0(2) p m_def]
  have g: "release_request i (set_task i (\<lambda>t. t\<lparr>body := Some m\<rparr>) (give_back i m s)) =
      (set_task i (resumed_task m) s)\<lparr>released := u64 (released s + 1)\<rparr>"
    using i p h(3,4) by (cases s) (simp add: give_back_def release_request_def set_task_def resumed_task_def)
  have sl: "slot ?t = Suc i" using session_okD(1) [OF s] i treeD(1) by blast
  have "resume_task E i ev s =
      (let s1 = (set_task i (resumed_task m) s)\<lparr>released := u64 (released s + 1)\<rparr> in
       if error m \<noteq> None then ending E i TASK_TRAPPED s1 else set_task i (\<lambda>t. t\<lparr>tstatus := TASK_READY\<rparr>) s1)"
    unfolding resume_task_def Let_def m0(1) option.sel m_def [symmetric] g sl ending_def by simp
  with that h(2,5) show thesis by blast
qed

lemma resume_task_ok:
  assumes s: "session_ok s" and i: "i < length (tasks s)" and p: "pending (request (tasks s ! i))"
  shows "session_ok (resume_task E i ev s)"
    and "j < length (tasks s) \<Longrightarrow> terminal (tasks s ! j) \<Longrightarrow> tasks (resume_task E i ev s) ! j = tasks s ! j"
proof -
  let ?t = "tasks s ! i"
  obtain m where h: "hosted (async_read ?t) ((request ?t)\<lparr>pending := False, input := None\<rparr>) m"
      "status m = (if error m = None then VM_YIELDED else VM_TRAPPED)"
    and run: "resume_task E i ev s =
      (let s1 = (set_task i (resumed_task m) s)\<lparr>released := u64 (released s + 1)\<rparr> in
       if error m \<noteq> None then ending E i TASK_TRAPPED s1 else set_task i (\<lambda>t. t\<lparr>tstatus := TASK_READY\<rparr>) s1)"
    by (rule resume_task_form [OF s i p]) (rule that)
  have w: "tstatus ?t = TASK_WAITING" "outcome ?t = TASK_INVALID" "tresult ?t = None" using waiting_task [OF s i p] by metis+
  define s1 where "s1 = (set_task i (resumed_task m) s)\<lparr>released := u64 (released s + 1)\<rparr>"
  have fx: "fixture (resumed_task m t) = fixture t" for t by (simp add: resumed_task_def)
  have ts: "tasks s1 = (tasks s)[i := resumed_task m ?t]" "i < length (tasks s1)" "tasks s1 ! i = resumed_task m ?t"
    using i by (simp_all add: s1_def)
  have l: "layout s1" using layout_skeleton [OF _ session_okD(2) [OF s]] skeleton_set_task [OF fx] by (simp add: s1_def)
  have b: "balanced s1"
    by (rule balanced_release [OF session_okD(5) [OF s] i]) (simp_all add: ts s1_def p resumed_task_def)
  have "supervised 0 (set_task i (resumed_task m) s)"
    by (rule supervised_relabel) (use session_okD [OF s] i w fx in \<open>simp_all add: resumed_task_def\<close>)
  then have v: "supervised 0 s1" by (simp add: supervised_def s1_def)
  have others: "\<forall>t \<in> set ((tasks s1)[i := x]). task_ok t" if "task_ok x" for x
    using tasks_ok_update [OF _ that, of "tasks s" i] session_okD(3) [OF s] by (simp add: ts table_ok_def)
  note more = others [OF session_okD(6) [OF s i]]
  have end_ok: "session_ok (ending E i TASK_TRAPPED s1)" "since s1 (ending E i TASK_TRAPPED s1)"
    by (intro ending_ok [OF l b more v ts(2)] ending_since [OF l b more ts(2)];
      simp add: ts(3) resumed_task_def w terminal_def)+
  have "task_ok ((resumed_task m ?t)\<lparr>tstatus := TASK_READY\<rparr>)" if "error m = None"
    using h w that by (simp add: task_ok_def resumed_task_def)
  from others [OF this] have "session_ok (set_task i (\<lambda>t. t\<lparr>tstatus := TASK_READY\<rparr>) s1)" if "error m = None"
    using that by (intro relabel_ok [OF l b v ts(2)]) (simp_all add: ts(3) resumed_task_def w)
  with end_ok(1) show "session_ok (resume_task E i ev s)" by (auto simp: run s1_def Let_def)
  assume j: "j < length (tasks s)" "terminal (tasks s ! j)"
  have "j \<noteq> i" using j w by (auto simp: terminal_def)
  then have o: "tasks s1 ! j = tasks s ! j" by (simp add: ts(1))
  have "tasks (ending E i TASK_TRAPPED s1) ! j = tasks s1 ! j" by (rule sinceD(2) [OF end_ok(2)]) (use j ts(1) o in simp_all)
  with o \<open>j \<noteq> i\<close> show "tasks (resume_task E i ev s) ! j = tasks s ! j" by (auto simp: run s1_def Let_def)
qed

text \<open>The invariant reads the tasks, the counters and the positions only.\<close>

lemma session_ok_fields [simp]:
  "session_ok (s\<lparr>pumping := b\<rparr>) = session_ok s" "session_ok (s\<lparr>now := t\<rparr>) = session_ok s"
  "session_ok (s\<lparr>pumping := b, now := t\<rparr>) = session_ok s" "session_ok (s\<lparr>outside := w, ticks := k\<rparr>) = session_ok s"
  by (simp_all add: session_ok_def layout_def tree_def table_ok_def balanced_def supervised_def)

lemma session_ok_cursor: "session_ok s \<Longrightarrow> c < length (tasks s) \<Longrightarrow> session_ok (s\<lparr>task_cursor := c\<rparr>)"
  by (simp add: session_ok_def layout_def tree_def table_ok_def balanced_def supervised_def)

lemma session_ok_ring:
  assumes "session_ok s" and "length evs = event_capacity s" and "h < event_capacity s" and "c \<le> event_capacity s"
  shows "session_ok (s\<lparr>events := evs, event_head := h, event_count := c\<rparr>)"
  using assms by (simp add: session_ok_def layout_def tree_def table_ok_def balanced_def supervised_def)

lemma dequeue_ok:
  assumes "session_ok s"
  shows "session_ok (snd (dequeue s))"
proof -
  have "session_ok (s\<lparr>events := events s, event_head := (event_head s + 1) mod event_capacity s, event_count := event_count s - 1\<rparr>)"
    by (rule session_ok_ring) (use assms in \<open>auto simp: session_ok_def layout_def\<close>)
  then show ?thesis by (simp add: dequeue_def)
qed

lemma lookup_bound: "lookup s tid = Some i \<Longrightarrow> i < length (tasks s) \<and> id_slot tid = Suc i"
  by (auto simp: lookup_def split: if_splits)

lemma deliver_one_ok:
  assumes "session_ok s"
  shows "session_ok (deliver_one E s)" and "skeleton (deliver_one E s) = skeleton (snd (dequeue s))"
proof -
  have ok: "session_ok (snd (dequeue s))" by (rule dequeue_ok [OF assms])
  show "session_ok (deliver_one E s)"
    using ok by (auto simp: deliver_one_def Let_def split_beta split: option.split dest!: lookup_bound intro: resume_task_ok)
  show "skeleton (deliver_one E s) = skeleton (snd (dequeue s))"
    by (simp add: deliver_one_def Let_def split_beta skeleton_resume_task split: option.split)
qed

lemma skeleton_ring: "skeleton a = skeleton b \<Longrightarrow>
    event_count a = event_count b \<and> event_head a = event_head b \<and> events a = events b \<and> event_capacity a = event_capacity b \<and>
    now a = now b \<and> pumping a = pumping b \<and> identity a = identity b \<and> task_cursor a = task_cursor b \<and> capacity a = capacity b"
  by (simp add: skeleton_def)

lemma deliver_loop_ok: "session_ok s \<Longrightarrow> session_ok (deliver_loop E n s)"
  by (induction n arbitrary: s) (simp_all add: deliver_one_ok)

lemma deliver_loop_empties: "session_ok s \<Longrightarrow> event_count s \<le> n \<Longrightarrow> event_count (deliver_loop E n s) = 0"
proof (induction n arbitrary: s)
  case (Suc n)
  have "event_count (deliver_one E s) = event_count s - 1"
    using skeleton_ring [OF deliver_one_ok(2) [OF Suc.prems(1), of E]] by (simp add: dequeue_def)
  with Suc show ?case by (simp add: deliver_one_ok)
qed simp


section \<open>Deadlines\<close>

definition overdue :: "nat \<Rightarrow> 'w Task \<Rightarrow> bool" where
  "overdue t k \<longleftrightarrow> \<not> terminal k \<and> deadline k \<noteq> UINT64_MAX \<and> deadline k \<le> t"

lemma overdue_since:
  assumes "since a s" and "skeleton s = skeleton a" and "i < length (tasks a)" and "\<not> overdue t (tasks a ! i)"
  shows "\<not> overdue t (tasks s ! i)"
  using assms(4) sinceD(2) [OF assms(1,3)] skeleton_parts(3) [OF assms(2,3)] by (auto simp: overdue_def)

lemma upward_snoc [simp]: "upward f (is @ [i]) s = f i (upward f is s)"
  by (induction "is" arbitrary: s) simp_all

lemma expire_upto:
  assumes a: "session_ok a" and k: "k \<le> length (tasks a)"
    and f_def: "f = (\<lambda>i s. let t = tasks s ! i in
     if \<not> terminal t \<and> deadline t \<noteq> UINT64_MAX \<and> deadline t \<le> now s then cancel_tree E (slot t) s else s)"
  shows "skeleton (upward f [0..<k] a) = skeleton a \<and> table_ok (upward f [0..<k] a) \<and> since a (upward f [0..<k] a) \<and>
    supervised (length (tasks a)) (upward f [0..<k] a) \<and> (\<forall>i < k. \<not> overdue (now a) (tasks (upward f [0..<k] a) ! i))"
  using k
proof (induction k)
  case 0
  then show ?case using session_okD [OF a] supervised_weaken [OF session_okD(4) [OF a], of "length (tasks a)"] by (simp add: since_refl)
next
  case (Suc k)
  define s where "s = upward f [0..<k] a"
  have s: "skeleton s = skeleton a" "table_ok s" "since a s" "supervised (length (tasks a)) s" "\<forall>i < k. \<not> overdue (now a) (tasks s ! i)"
    using Suc unfolding s_def by auto
  have l: "length (tasks s) = length (tasks a)" and n: "now s = now a" using skeleton_length [OF s(1)] skeleton_ring [OF s(1)] by auto
  have t: "tree s" using tree_skeleton [OF s(1)] session_okD(1) [OF a] by simp
  have sl: "slot (tasks s ! k) = Suc k" using treeD(1) [OF t] Suc.prems l by simp
  have u: "upward f [0..<Suc k] a = f k s" by (simp add: s_def)
  show ?case
  proof (cases "overdue (now a) (tasks s ! k)")
    case True
    define s' where "s' = cancel_tree E (Suc k) s"
    have e: "f k s = s'" using True n by (simp add: f_def Let_def overdue_def sl s'_def)
    have k: "skeleton s' = skeleton s" by (simp add: s'_def skeleton_cancel)
    have c: "table_ok s'" "since s s'" using since_ending.cancel_kept(1) [of s s E "Suc k"] s(2) t since_refl by (auto simp: s'_def)
    have "supervised (length (tasks s)) s'" using cancel_supervised(1) [OF s(4) t, of k E] Suc.prems l by (simp add: s'_def)
    moreover have "\<not> overdue (now a) (tasks s' ! i)" if "i < Suc k" for i
    proof (cases "i = k")
      case True
      have "terminal (tasks s' ! k)" using Suc.prems l by (simp add: s'_def cancel_tree_tasks t below.self)
      then show ?thesis by (simp add: overdue_def True)
    next
      case False
      then show ?thesis using overdue_since [OF c(2) k] s(5) that Suc.prems l by simp
    qed
    ultimately show ?thesis using since_trans [OF s(3) c(2)] c(1) k s(1) l unfolding u e by auto
  next
    case False
    then have "f k s = s" using n by (auto simp: f_def Let_def overdue_def)
    with s False show ?thesis unfolding u by (auto simp: less_Suc_eq)
  qed
qed

lemma expire_ok:
  assumes s: "session_ok s"
  shows "session_ok (settle E (expire E s))" and "since s (settle E (expire E s))" and "skeleton (settle E (expire E s)) = skeleton s"
    and "i < length (tasks s) \<Longrightarrow> \<not> overdue (now s) (tasks (settle E (expire E s)) ! i)"
proof -
  note e = expire_upto [OF s order.refl refl, of E, folded expire_def]
  have l: "length (tasks (expire E s)) = length (tasks s)" using skeleton_length e by blast
  have t: "tree (expire E s)" using tree_skeleton e session_okD(1) [OF s] by blast
  have w: "table_ok (settle E (expire E s)) \<and> since (expire E s) (settle E (expire E s))"
    using since_ending.settle_kept [OF _ t, of "expire E s" E] e since_refl by blast
  show k: "skeleton (settle E (expire E s)) = skeleton s" using e skeleton_settle by metis
  show "since s (settle E (expire E s))" using since_trans e w by blast
  show "session_ok (settle E (expire E s))"
    using w settle_supervised [OF _ t, of E] e l layout_skeleton [OF k session_okD(2) [OF s]] by (simp add: session_ok_def)
  show "i < length (tasks s) \<Longrightarrow> \<not> overdue (now s) (tasks (settle E (expire E s)) ! i)"
    using overdue_since [OF _ skeleton_settle, of "expire E s" E i "now s"] w e l by simp
qed

end
