(* ===== verification/Scheduling.thy ===== *)
theory Scheduling
  imports Sessions
begin

text \<open>
  The operations of a task session: turns and their order, deadlines, delivery of completions, admission and
  cancellation. Every operation keeps the invariant of \<open>Sessions\<close>, so it holds of every session an embedder
  can reach; the properties of the interface follow from it.
\<close>

section \<open>Turns\<close>

lemma scan_found:
  assumes "task_cursor s < length (tasks s)" and "d < n"
    and "\<forall>e < d. tstatus (tasks s ! ((task_cursor s + e) mod length (tasks s))) \<noteq> TASK_READY"
    and "tstatus (tasks s ! ((task_cursor s + d) mod length (tasks s))) = TASK_READY"
  shows "scan n s = (s\<lparr>task_cursor := (task_cursor s + d + 1) mod length (tasks s)\<rparr>, Some ((task_cursor s + d) mod length (tasks s)))"
  using assms
proof (induction n arbitrary: s d)
  case (Suc n)
  let ?l = "length (tasks s)"
  show ?case
  proof (cases d)
    case 0
    then show ?thesis using Suc.prems by (simp add: Let_def)
  next
    case (Suc d')
    let ?s = "s\<lparr>task_cursor := (task_cursor s + 1) mod ?l\<rparr>"
    have l: "0 < ?l" using Suc.prems(1) by linarith
    have m: "((task_cursor s + 1) mod ?l + e) mod ?l = (task_cursor s + Suc e) mod ?l" for e
      by (simp add: mod_add_left_eq)
    have "tstatus (tasks s ! task_cursor s) \<noteq> TASK_READY" using Suc.prems(1,3) Suc by (auto dest: spec [of _ 0])
    moreover have "scan n ?s = (?s\<lparr>task_cursor := (task_cursor ?s + d' + 1) mod length (tasks ?s)\<rparr>,
        Some ((task_cursor ?s + d') mod length (tasks ?s)))"
    proof (rule Suc.IH)
      show "task_cursor ?s < length (tasks ?s)" using l by simp
      show "d' < n" using Suc.prems(2) Suc by simp
      show "\<forall>e < d'. tstatus (tasks ?s ! ((task_cursor ?s + e) mod length (tasks ?s))) \<noteq> TASK_READY"
        using Suc.prems(3) Suc m by (auto dest: spec [of _ "Suc _"])
      show "tstatus (tasks ?s ! ((task_cursor ?s + d') mod length (tasks ?s))) = TASK_READY"
        using Suc.prems(4) Suc m [of d'] by simp
    qed
    ultimately show ?thesis using Suc m [of d'] m [of "Suc d'"] by (simp add: Let_def)
  qed
qed simp

lemma scan_ok:
  "session_ok s \<Longrightarrow> n \<le> length (tasks s) \<Longrightarrow>
     session_ok (fst (scan n s)) \<and> (\<exists>c. fst (scan n s) = s\<lparr>task_cursor := c\<rparr>) \<and>
     (\<forall>i. snd (scan n s) = Some i \<longrightarrow> i < length (tasks s) \<and> tstatus (tasks s ! i) = TASK_READY)"
proof (induction n arbitrary: s)
  case 0
  have "s = s\<lparr>task_cursor := task_cursor s\<rparr>" by simp
  with 0 show ?case unfolding scan.simps by (metis fst_conv snd_conv option.distinct(1))
next
  case (Suc n)
  let ?s = "s\<lparr>task_cursor := (task_cursor s + 1) mod length (tasks s)\<rparr>"
  have l: "0 < length (tasks s)" using Suc.prems by linarith
  have c: "task_cursor s < length (tasks s)" using session_okD(2) [OF Suc.prems(1)] l by (auto simp: layout_def)
  have ok: "session_ok ?s" using session_ok_cursor [OF Suc.prems(1)] l by simp
  show ?case
  proof (cases "tstatus (tasks s ! task_cursor s) = TASK_READY")
    case True
    then show ?thesis using ok c by (auto simp: Let_def)
  next
    case False
    then show ?thesis using Suc.IH [OF ok] Suc.prems(2) by (auto simp: Let_def)
  qed
qed

text \<open>What holds of a session however far a pump has come: what is over stays as it is.\<close>

definition later :: "'w VMTasks \<Rightarrow> 'w VMTasks \<Rightarrow> bool" where
  "later a s \<longleftrightarrow> map fixture (tasks s) = map fixture (tasks a) \<and> now s = now a \<and> pumping s = pumping a \<and> identity s = identity a \<and>
     (\<forall>i < length (tasks a). terminal (tasks a ! i) \<longrightarrow> tasks s ! i = tasks a ! i)"

lemma later_refl: "later a a"
  by (simp add: later_def)

lemma later_length: "later a s \<Longrightarrow> length (tasks s) = length (tasks a)"
  by (metis later_def length_map)

lemma laterD: "later a s \<Longrightarrow> i < length (tasks a) \<Longrightarrow> terminal (tasks a ! i) \<Longrightarrow> tasks s ! i = tasks a ! i"
  unfolding later_def by blast

lemma later_trans:
  assumes "later a b" and "later b c"
  shows "later a c"
proof -
  have "tasks c ! i = tasks a ! i" if i: "i < length (tasks a)" "terminal (tasks a ! i)" for i
  proof -
    have b: "tasks b ! i = tasks a ! i" using laterD assms(1) i by blast
    then show ?thesis using laterD [OF assms(2), of i] later_length [OF assms(1)] i by simp
  qed
  then show ?thesis using assms unfolding later_def by presburger
qed

lemma later_since:
  assumes "skeleton s = skeleton a" and "\<And>i. i < length (tasks a) \<Longrightarrow> terminal (tasks a ! i) \<Longrightarrow> tasks s ! i = tasks a ! i"
  shows "later a s"
proof -
  have "map fixture (tasks s) = map fixture (tasks a)" using assms(1) by (simp add: skeleton_def)
  then show ?thesis using skeleton_ring [OF assms(1)] assms(2) unfolding later_def by blast
qed

lemma later_cursor: "later a (a\<lparr>task_cursor := c\<rparr>)"
  by (simp add: later_def)

lemma run_task_later:
  assumes "session_ok s" and "i < length (tasks s)" and "tstatus (tasks s ! i) = TASK_READY"
  shows "later s (run_task E i s)"
proof (rule later_since)
  show "skeleton (run_task E i s) = skeleton s" by (rule skeleton_run_task [OF assms])
  fix j assume j: "j < length (tasks s)" "terminal (tasks s ! j)"
  then have "j \<noteq> i" using assms(3) by (auto simp: terminal_def)
  with run_task_others [OF assms j(1)] j(2) show "tasks (run_task E i s) ! j = tasks s ! j" by blast
qed

text \<open>One turn of the pump.\<close>

definition take_turn :: "'w Native \<Rightarrow> 'w VMTasks \<Rightarrow> 'w VMTasks" where
  "take_turn E s = (case scan (length (tasks s)) s of (s, None) \<Rightarrow> s | (s, Some i) \<Rightarrow> run_task E i s)"

lemma take_turn_ok:
  assumes "session_ok s"
  shows "session_ok (take_turn E s)" and "later s (take_turn E s)" and "event_count (take_turn E s) = event_count s"
proof -
  obtain c where c: "session_ok (s\<lparr>task_cursor := c\<rparr>)" "fst (scan (length (tasks s)) s) = s\<lparr>task_cursor := c\<rparr>"
    and r: "\<forall>i. snd (scan (length (tasks s)) s) = Some i \<longrightarrow> i < length (tasks s) \<and> tstatus (tasks s ! i) = TASK_READY"
    using scan_ok [OF assms order.refl] by auto
  show "session_ok (take_turn E s)"
    using c r run_task_ok [OF c(1)] by (auto simp: take_turn_def split_beta split: option.split)
  show "later s (take_turn E s)"
    using c r by (auto simp: take_turn_def split_beta split: option.split
        intro: later_cursor later_trans [OF later_cursor run_task_later [OF c(1)]])
  show "event_count (take_turn E s) = event_count s"
    using c r skeleton_ring [OF skeleton_run_task [OF c(1)]] by (auto simp: take_turn_def split_beta split: option.split)
qed

lemma pump_loop_Suc:
  "pump_loop E (Suc b) s = (case scan (length (tasks s)) s of (s', None) \<Rightarrow> s' | (s', Some i) \<Rightarrow> pump_loop E b (take_turn E s))"
  by (auto simp: take_turn_def split: prod.split option.split)

lemma pump_loop_ok: "session_ok s \<Longrightarrow> session_ok (pump_loop E b s) \<and> later s (pump_loop E b s) \<and> event_count (pump_loop E b s) = event_count s"
proof (induction b arbitrary: s)
  case (Suc b)
  note t = take_turn_ok [OF Suc.prems, of E]
  have "session_ok (pump_loop E b (take_turn E s)) \<and> later s (pump_loop E b (take_turn E s)) \<and>
      event_count (pump_loop E b (take_turn E s)) = event_count s"
    using Suc.IH [OF t(1)] later_trans [OF t(2)] t(3) by simp
  moreover have "snd (scan (length (tasks s)) s) = None \<Longrightarrow> fst (scan (length (tasks s)) s) = take_turn E s"
    by (auto simp: take_turn_def split: prod.splits)
  ultimately show ?case using t unfolding pump_loop_Suc by (auto simp: split_beta split: option.split)
qed (simp add: later_refl)

text \<open>The task whose turn comes, and how far the cursor is from any other.\<close>

definition next_turn :: "'w VMTasks \<Rightarrow> nat option" where
  "next_turn s = snd (scan (length (tasks s)) s)"

lemma cursor_distance:
  assumes "session_ok s" and "j < length (tasks s)"
  shows "\<exists>d < length (tasks s). (task_cursor s + d) mod length (tasks s) = j"
proof -
  have c: "task_cursor s < length (tasks s)" using session_okD(2) [OF assms(1)] assms(2) by (auto simp: layout_def)
  show ?thesis
  proof (cases "task_cursor s \<le> j")
    case True
    then show ?thesis using assms(2) by (intro exI [of _ "j - task_cursor s"]) simp
  next
    case False
    then show ?thesis using c assms(2) by (intro exI [of _ "j + length (tasks s) - task_cursor s"]) (simp add: mod_if)
  qed
qed

lemma first_ready:
  assumes s: "session_ok s" and d: "d < length (tasks s)"
    and r: "tstatus (tasks s ! ((task_cursor s + d) mod length (tasks s))) = TASK_READY"
  obtains e where "e \<le> d" "tstatus (tasks s ! ((task_cursor s + e) mod length (tasks s))) = TASK_READY"
    "scan (length (tasks s)) s = (s\<lparr>task_cursor := (task_cursor s + e + 1) mod length (tasks s)\<rparr>, Some ((task_cursor s + e) mod length (tasks s)))"
proof -
  let ?P = "\<lambda>e. tstatus (tasks s ! ((task_cursor s + e) mod length (tasks s))) = TASK_READY"
  define e where "e = (LEAST e. ?P e)"
  have e: "?P e" "e \<le> d" "\<forall>k < e. \<not> ?P k" unfolding e_def using r by (auto intro: LeastI Least_le dest: not_less_Least)
  have c: "task_cursor s < length (tasks s)" using session_okD(2) [OF s] d by (auto simp: layout_def)
  have "e < length (tasks s)" using e(2) d by simp
  from scan_found [OF c this] e that show thesis by blast
qed

lemma mod_distinct:
  fixes n :: nat
  assumes "e < d" and "d < n"
  shows "(c + e) mod n \<noteq> (c + d) mod n"
proof
  assume "(c + e) mod n = (c + d) mod n"
  then have "n dvd (c + d) - (c + e)" using assms(1) by (metis mod_eq_dvd_iff_nat add_le_cancel_left less_imp_le)
  then show False using assms by (auto dest: dvd_imp_le)
qed

definition has_turn :: "'w Native \<Rightarrow> nat \<Rightarrow> nat \<Rightarrow> 'w VMTasks \<Rightarrow> bool" where
  "has_turn E k j s \<longleftrightarrow>
     (let s' = pump_loop E k s in
      tstatus (tasks s' ! j) \<notin> {TASK_READY, TASK_WAITING} \<or> (tasks s' ! j = tasks s ! j \<and> next_turn s' = Some j))"

lemma turn_within:
  assumes "session_ok s" and "d < length (tasks s)" and "j = (task_cursor s + d) mod length (tasks s)"
    and "tstatus (tasks s ! j) = TASK_READY"
  shows "\<exists>k \<le> d. has_turn E k j s"
  using assms
proof (induction d arbitrary: s rule: less_induct)
  case (less d)
  let ?n = "length (tasks s)" and ?c = "task_cursor s"
  obtain e where e: "e \<le> d" "tstatus (tasks s ! ((?c + e) mod ?n)) = TASK_READY"
    "scan ?n s = (s\<lparr>task_cursor := (?c + e + 1) mod ?n\<rparr>, Some ((?c + e) mod ?n))"
    using first_ready [OF less.prems(1,2)] less.prems(3,4) by metis
  show ?case
  proof (cases "e = d")
    case True
    then have "has_turn E 0 j s" using e(3) less.prems(3) by (simp add: has_turn_def next_turn_def)
    then show ?thesis by blast
  next
    case False
    let ?i = "(?c + e) mod ?n" and ?s = "s\<lparr>task_cursor := (?c + e + 1) mod ?n\<rparr>"
    have n: "0 < ?n" using less.prems(2) by linarith
    have i: "?i < ?n" "?i \<noteq> j" "j < ?n" using mod_distinct [of e d ?n ?c] False e(1) less.prems(2,3) n by auto
    have ok: "session_ok ?s" using session_ok_cursor [OF less.prems(1)] n by simp
    define s1 where "s1 = run_task E ?i ?s"
    have s1: "session_ok s1" "skeleton s1 = skeleton ?s"
      using run_task_ok [OF ok] skeleton_run_task [OF ok] i(1) e(2) by (simp_all add: s1_def)
    have l: "length (tasks s1) = ?n" "task_cursor s1 = (?c + e + 1) mod ?n"
      using skeleton_length [OF s1(2)] skeleton_ring [OF s1(2)] by simp_all
    have step: "pump_loop E (Suc k) s = pump_loop E k s1" for k by (simp add: e(3) s1_def)
    show ?thesis
    proof (cases "tstatus (tasks s1 ! j) \<in> {TASK_READY, TASK_WAITING}")
      case True
      have same: "tasks s1 ! j = tasks s ! j"
        using run_task_others [OF ok, of ?i j E] i e(2) True by (auto simp: s1_def)
      have "((?c + e + 1) mod ?n + (d - e - 1)) mod ?n = (?c + e + 1 + (d - e - 1)) mod ?n" by (rule mod_add_left_eq)
      then have j: "j = (task_cursor s1 + (d - e - 1)) mod length (tasks s1)" using False e(1) less.prems(3) l by simp
      have "d - e - 1 < d" "d - e - 1 < length (tasks s1)" using False e(1) less.prems(2) l(1) by linarith+
      from less.IH [OF this(1) s1(1) this(2) j] less.prems(4) same
      obtain k where k: "k \<le> d - e - 1" "has_turn E k j s1" by auto
      have "has_turn E (Suc k) j s" using k(2) same unfolding has_turn_def step by simp
      then show ?thesis using k(1) False e(1) by (intro exI [of _ "Suc k"]) simp
    next
      case 2: False
      then have "has_turn E 1 j s" using step [of 0] by (simp add: has_turn_def)
      then show ?thesis using False e(1) by (intro exI [of _ 1]) simp
    qed
  qed
qed

section \<open>The operations of a session\<close>

lemma deliver_one_later:
  assumes "session_ok s"
  shows "later s (deliver_one E s)"
proof -
  let ?q = "snd (dequeue s)"
  have ok: "session_ok ?q" by (rule dequeue_ok [OF assms])
  have q: "later s ?q" by (simp add: later_def dequeue_def)
  have "later ?q (resume_task E i ev ?q)" if "i < length (tasks ?q)" "pending (request (tasks ?q ! i))" for i ev
    by (rule later_since [OF skeleton_resume_task]) (use resume_task_ok(2) [OF ok that] in blast)
  from later_trans [OF q this] q show ?thesis
    by (auto simp: deliver_one_def Let_def split_beta split: option.split dest!: lookup_bound)
qed

lemma deliver_ok:
  assumes "session_ok s"
  shows "session_ok (deliver_completions E s)" and "later s (deliver_completions E s)" and "event_count (deliver_completions E s) = 0"
proof -
  have "session_ok s \<Longrightarrow> later s (deliver_loop E n s)" for n s
  proof (induction n arbitrary: s)
    case (Suc n)
    then show ?case
      using later_trans [OF deliver_one_later [OF Suc.prems] Suc.IH [OF deliver_one_ok(1) [OF Suc.prems]]] by (simp add: later_refl)
  qed (simp add: later_refl)
  with assms show "session_ok (deliver_completions E s)" "later s (deliver_completions E s)" "event_count (deliver_completions E s) = 0"
    by (simp_all add: deliver_completions_def deliver_loop_ok deliver_loop_empties)
qed

text \<open>What a pump does before it runs any task.\<close>

definition prepared :: "'w Native \<Rightarrow> nat \<Rightarrow> 'w VMTasks \<Rightarrow> 'w VMTasks" where
  "prepared E t s = settle E (expire E (deliver_completions E (s\<lparr>pumping := True, now := t\<rparr>)))"

lemma vm_tasks_pump_eq:
  "vm_tasks_pump E s t budget =
     (if pumping s \<or> t < now s then (s, False) else ((pump_loop E budget (prepared E t s))\<lparr>pumping := False\<rparr>, True))"
  by (simp add: vm_tasks_pump_def prepared_def)

lemma prepared_ok:
  assumes "session_ok s"
  shows "session_ok (prepared E t s)" and "later (s\<lparr>pumping := True, now := t\<rparr>) (prepared E t s)" and "event_count (prepared E t s) = 0"
    and "i < length (tasks s) \<Longrightarrow> \<not> overdue t (tasks (prepared E t s) ! i)"
proof -
  let ?s = "s\<lparr>pumping := True, now := t\<rparr>"
  let ?d = "deliver_completions E ?s"
  have d: "session_ok ?d" "later ?s ?d" "event_count ?d = 0" using deliver_ok [of ?s E] assms by simp_all
  have l: "length (tasks ?d) = length (tasks s)" "now ?d = t" using later_length [OF d(2)] d(2) by (simp_all add: later_def)
  show "i < length (tasks s) \<Longrightarrow> \<not> overdue t (tasks (prepared E t s) ! i)"
    using expire_ok(4) [OF d(1), of i E] l by (simp add: prepared_def)
  have k: "skeleton (prepared E t s) = skeleton ?d" "session_ok (prepared E t s)" "since ?d (prepared E t s)"
    unfolding prepared_def by (rule expire_ok [OF d(1)])+
  show "session_ok (prepared E t s)" by (rule k(2))
  show "event_count (prepared E t s) = 0" using skeleton_ring [OF k(1)] d(3) by simp
  show "later ?s (prepared E t s)"
    by (rule later_trans [OF d(2) later_since [OF k(1)]]) (use sinceD(2) [OF k(3)] in blast)
qed

lemma pump_ok:
  assumes "session_ok s" and "\<not> pumping s"
  shows "session_ok (fst (vm_tasks_pump E s t b))" and "\<not> pumping (fst (vm_tasks_pump E s t b))"
  using assms pump_loop_ok [OF prepared_ok(1) [OF assms(1)]] by (simp_all add: vm_tasks_pump_eq)

lemma cancel_ok:
  assumes s: "session_ok s" and i: "i < length (tasks s)"
    and s'_def: "s' = settle E (cancel_tree E (Suc i) s)"
  shows "session_ok s'" and "since s s'" and "skeleton s' = skeleton s"
proof -
  let ?c = "cancel_tree E (Suc i) s"
  have t: "tree s" using session_okD(1) [OF s] .
  have c: "table_ok ?c \<and> since s ?c" using since_ending.cancel_kept(1) [OF _ t] session_okD(3) [OF s] since_refl by blast
  then have w: "table_ok s' \<and> since s s'" unfolding s'_def by (intro since_ending.settle_kept) (simp_all add: t)
  have "supervised 0 s'"
    unfolding s'_def using settle_supervised [of ?c E] cancel_supervised(1) [OF session_okD(4) [OF s] t i, of E] t by simp
  moreover show k: "skeleton s' = skeleton s" by (simp add: s'_def skeleton_settle skeleton_cancel)
  ultimately show "session_ok s'" using w layout_skeleton [OF k session_okD(2) [OF s]] by (simp add: session_ok_def)
  show "since s s'" using w by blast
qed

lemma vm_tasks_cancel_eq:
  assumes "session_ok s"
  shows "vm_tasks_cancel E s tid =
    (case lookup s tid of None \<Rightarrow> (s, False) | Some i \<Rightarrow> if pumping s then (s, False) else (settle E (cancel_tree E (Suc i) s), True))"
  using lookup_bound [of s tid] treeD(1) [OF session_okD(1) [OF assms]] by (simp add: vm_tasks_cancel_def split: option.split)

lemma complete_cases:
  assumes "session_ok s"
  obtains (refused) "complete s op e r read = (s, False)"
  | (taken) i where "lookup s (op_task op) = Some i" "i < length (tasks s)" "pending (request (tasks s ! i))" "\<not> queued (tasks s ! i)"
      "generation (request (tasks s ! i)) = op_generation op" "async_read (tasks s ! i) = read" "event_count s < event_capacity s" "\<not> pumping s"
      "complete s op e r read =
        (set_task i (\<lambda>t. t\<lparr>queued := True\<rparr>) (enqueue \<lparr>operation = op, cerror = e, cresult = r\<rparr> s), True)"
proof (cases "snd (complete s op e r read)")
  case True
  then obtain i where i: "lookup s (op_task op) = Some i" by (auto simp: complete_def split: option.splits)
  have "event_count s \<le> event_capacity s" using session_okD(2) [OF assms] by (simp add: layout_def)
  with True i lookup_bound [OF i] taken [OF i] show thesis by (auto simp: complete_def Let_def split: if_splits)
next
  case False
  then show thesis using refused by (auto simp: complete_def Let_def split: option.splits if_splits)
qed

lemma enqueue_ok:
  assumes "session_ok s" and "event_count s < event_capacity s"
  shows "session_ok (enqueue c s)"
proof -
  have "session_ok (s\<lparr>events := (events s)[u64 (event_head s + event_count s) mod event_capacity s := c],
      event_head := event_head s, event_count := event_count s + 1\<rparr>)"
    by (rule session_ok_ring) (use assms in \<open>auto simp: session_ok_def layout_def\<close>)
  then show ?thesis by (simp add: enqueue_def Let_def)
qed

lemma complete_ok:
  assumes s: "session_ok s"
  shows "session_ok (fst (complete s op e r read))" and "pumping (fst (complete s op e r read)) = pumping s"
proof -
  show "session_ok (fst (complete s op e r read))"
    using s
  proof (cases rule: complete_cases [where op = op and e = e and r = r and read = read])
    case (taken i)
    let ?q = "enqueue \<lparr>operation = op, cerror = e, cresult = r\<rparr> s"
    have q: "session_ok ?q" "tasks ?q = tasks s" using enqueue_ok [OF s taken(7)] by (simp_all add: enqueue_def Let_def)
    have w: "tstatus (tasks s ! i) = TASK_WAITING" using waiting_task [OF s taken(2,3)] by metis
    have "task_ok ((tasks s ! i)\<lparr>queued := True\<rparr>)" using session_okD(6) [OF s taken(2)] taken(3) w by (simp add: task_ok_def split: option.splits)
    from tasks_ok_update [OF _ this, of "tasks s" i] session_okD(3) [OF s]
    have o: "\<forall>t \<in> set ((tasks ?q)[i := (\<lambda>t. t\<lparr>queued := True\<rparr>) (tasks ?q ! i)]). task_ok t" by (simp add: q(2) table_ok_def)
    have "session_ok (set_task i (\<lambda>t. t\<lparr>queued := True\<rparr>) ?q)"
      by (rule relabel_ok [OF session_okD(2,5,4) [OF q(1)]]) (use taken(2) w o in \<open>simp_all add: q(2)\<close>)
    then show ?thesis by (simp add: taken(9))
  qed (use s in simp)
  show "pumping (fst (complete s op e r read)) = pumping s"
    by (auto simp: complete_def Let_def set_task_def enqueue_def split: option.split)
qed

lemma supervised_append:
  assumes s: "supervised 0 s" and t: "tree s" and x: "parent x \<le> length (tasks s)" "tstatus x = TASK_READY"
    and p: "\<And>p. parent x = Suc p \<Longrightarrow> \<not> terminal (tasks s ! p)"
    and s': "tasks s' = tasks s @ [x]"
  shows "supervised 0 s'"
proof -
  let ?n = "length (tasks s)"
  note d = supervisionD [OF s [unfolded supervised_def]]
  have old: "tasks s' ! i = tasks s ! i" if "i < ?n" for i using that by (simp add: s' nth_append)
  have new: "tasks s' ! ?n = x" by (simp add: s')
  have c_cases: "(c < ?n \<and> tasks s' ! c = tasks s ! c) \<or> tasks s' ! c = x" if "c < Suc ?n" for c
    using that old new less_antisym by blast
  have q: "tasks s' ! q = tasks s ! q" if "c < Suc ?n" "parent (tasks s' ! c) = Suc q" for c q
  proof -
    have "q < ?n" using c_cases [OF that(1)] that(2) x(1) treeD(2) [OF t, of c q] by (auto simp: Suc_le_eq)
    then show ?thesis by (rule old)
  qed
  have "supervision 0 (Suc ?n) (\<lambda>j. parent (tasks s' ! j)) (\<lambda>j. tstatus (tasks s' ! j)) (\<lambda>j. outcome (tasks s' ! j))"
  proof (rule supervisionI)
    fix c k assume c: "c < Suc ?n" "parent (tasks s' ! c) = Suc k"
    note k = q [OF c]
    show "over (tstatus (tasks s' ! k)) \<Longrightarrow> over (tstatus (tasks s' ! c)) \<and>
        (tstatus (tasks s' ! k) = TASK_COMPLETED \<longrightarrow> tstatus (tasks s' ! c) = TASK_COMPLETED)"
      unfolding k using d(1,2) [of c k] c_cases [OF c(1)] p [of k] c(2) by (auto simp: terminal_over)
    show "over (tstatus (tasks s' ! c)) \<Longrightarrow> tstatus (tasks s' ! c) \<noteq> TASK_COMPLETED \<Longrightarrow> \<not> over (tstatus (tasks s' ! k)) \<Longrightarrow>
        outcome (tasks s' ! k) \<in> {TASK_TRAPPED, TASK_EXITED}"
      unfolding k using d(4) [of c k] c_cases [OF c(1)] c(2) x(2) by auto
  next
    fix i assume i: "i < Suc ?n" "tstatus (tasks s' ! i) = TASK_JOINING"
    then have l: "i < ?n" "tasks s' ! i = tasks s ! i" using c_cases [OF i(1)] x(2) by auto
    with d(3) [OF l(1)] i(2) show "outcome (tasks s' ! i) \<in> {TASK_COMPLETED, TASK_TRAPPED, TASK_EXITED}" by simp
    obtain c where c: "c < ?n" "parent (tasks s ! c) = Suc i \<and> \<not> over (tstatus (tasks s ! c))"
      using d(5) [OF l(1)] i(2) l(2) by auto
    then show "\<exists>c < Suc ?n. parent (tasks s' ! c) = Suc i \<and> \<not> over (tstatus (tasks s' ! c))"
      by (intro exI [of _ c]) (simp add: old)
  qed
  then show ?thesis by (simp add: supervised_def s')
qed

lemma pendings_append: "pendings (ts @ [x]) = pendings ts + of_bool (pending (request x))"
  by (simp add: pendings_def)

lemma spawn_cases:
  assumes s: "session_ok s"
  obtains (rejected) e w k where "vm_tasks_spawn E s pid f args d = (s\<lparr>outside := w, ticks := k\<rparr>, Inl e)"
  | (admitted) x where "vm_tasks_spawn E s pid f args d = (s\<lparr>tasks := tasks s @ [x]\<rparr>, Inr \<lparr>session = identity s, id_slot = length (tasks s) + 1\<rparr>)"
      "task_ok x" "\<not> pending (request x)" "slot x = Suc (length (tasks s))" "parent x \<le> length (tasks s)" "tstatus x = TASK_READY"
      "\<And>p. parent x = Suc p \<Longrightarrow> tstatus (tasks s ! p) \<in> {TASK_READY, TASK_WAITING} \<and> deadline x \<le> deadline (tasks s ! p)"
      "deadline x \<le> d" "length (tasks s) < capacity s" "\<not> pumping s"
proof -
  let ?a = "lookup s pid" and ?r = "session pid = 0 \<and> id_slot pid = 0"
  let ?bad = "pumping s \<or> length (tasks s) = capacity s \<or>
         (\<not> ?r \<and> (case ?a of None \<Rightarrow> True | Some i \<Rightarrow> tstatus (tasks s ! i) \<notin> {TASK_READY, TASK_WAITING}))"
  let ?async = "is_async (functions (program (template_vm s)) ! f)"
  let ?c = "(if ?async then vm_execution_create_async else vm_execution_create_pending) (session_native E)
    (lend s no_request (template_vm s)) (Some f) args True"
  show thesis
  proof (cases "?bad")
    case True
    then have "vm_tasks_spawn E s pid f args d = (s\<lparr>outside := outside s, ticks := ticks s\<rparr>, Inl ''task admission rejected'')"
      by (simp add: vm_tasks_spawn_def)
    then show thesis by (rule rejected)
  next
    case False
    then have b: "?bad = False" by blast
    show thesis
    proof (cases "?c")
      case (Inl v)
      have "vm_tasks_spawn E s pid f args d = (s\<lparr>outside := snd (snd (world (fst v))), ticks := clock (fst v)\<rparr>, Inl (snd v))"
        unfolding vm_tasks_spawn_def Let_def b Inl by (simp add: split_beta)
      then show thesis by (rule rejected)
    next
      case (Inr m)
      define x where "x = \<lparr>body = Some m, slot = length (tasks s) + 1, parent = id_slot pid,
        deadline = (case ?a of None \<Rightarrow> d | Some i \<Rightarrow> if deadline (tasks s ! i) < d then deadline (tasks s ! i) else d),
        tstatus = TASK_READY, outcome = TASK_INVALID, tresult = None, terror = None, texit_status = 0,
        request = no_request, queued = False, async_read = ?async\<rparr>"
      have e: "vm_tasks_spawn E s pid f args d = (s\<lparr>tasks := tasks s @ [x]\<rparr>, Inr \<lparr>session = identity s, id_slot = length (tasks s) + 1\<rparr>)"
        unfolding vm_tasks_spawn_def Let_def b Inr x_def by simp
      have ok: "task_ok x" using created_hosted(1,2) [OF Inr] by (simp add: x_def task_ok_def)
      have p: "?a = Some p" if "id_slot pid = Suc p" for p using False that by (auto simp: lookup_def split: option.splits if_splits)
      have cap: "length (tasks s) < capacity s" using False session_okD(2) [OF s] by (auto simp: layout_def)
      show thesis
      proof (rule admitted [OF e ok])
        show "parent x \<le> length (tasks s)"
          using p lookup_bound by (cases "id_slot pid") (auto simp: x_def Suc_le_eq)
        show "tstatus (tasks s ! q) \<in> {TASK_READY, TASK_WAITING} \<and> deadline x \<le> deadline (tasks s ! q)" if "parent x = Suc q" for q
          using p [of q] False that by (auto simp: x_def)
      qed (use False cap in \<open>auto simp: x_def no_request_def split: option.split\<close>)
    qed
  qed
qed

lemma spawn_ok:
  assumes s: "session_ok s"
  shows "session_ok (fst (vm_tasks_spawn E s pid f args d))"
    and "\<exists>xs. tasks (fst (vm_tasks_spawn E s pid f args d)) = tasks s @ xs"
    and "pumping (fst (vm_tasks_spawn E s pid f args d)) = pumping s"
  using s
proof (atomize (full), cases rule: spawn_cases [where E = E and pid = pid and f = f and args = args and d = d])
  case (admitted x)
  let ?s = "s\<lparr>tasks := tasks s @ [x]\<rparr>"
  have t: "tree s" using session_okD(1) [OF s] .
  have old: "tasks ?s ! i = tasks s ! i" if "i < length (tasks s)" for i using that by (simp add: nth_append)
  have v: "supervised 0 ?s"
    by (rule supervised_append [OF session_okD(4) [OF s] t admitted(5,6)]) (use admitted(7) in \<open>auto simp: terminal_def\<close>)
  have "tree ?s" using t admitted(4,5) by (auto simp: tree_def nth_append less_Suc_eq)
  moreover have "deadline (tasks ?s ! i) \<le> deadline (tasks ?s ! p)" if i: "i < Suc (length (tasks s))" "parent (tasks ?s ! i) = Suc p" for i p
  proof (cases "i < length (tasks s)")
    case True
    then show ?thesis using session_okD(2) [OF s] i(2) old treeD(2) [OF t True, of p] by (auto simp: layout_def)
  next
    case False
    then have "i = length (tasks s)" using i(1) by simp
    then show ?thesis using admitted(5,7) i(2) by (auto simp: nth_append)
  qed
  ultimately have "layout ?s" using session_okD(2) [OF s] admitted(9) by (auto simp: layout_def)
  moreover have "table_ok ?s"
    using session_okD(3) [OF s] admitted(2,3) by (auto simp: table_ok_def balanced_def pendings_append)
  ultimately show "session_ok (fst (vm_tasks_spawn E s pid f args d)) \<and> (\<exists>xs. tasks (fst (vm_tasks_spawn E s pid f args d)) = tasks s @ xs) \<and>
      pumping (fst (vm_tasks_spawn E s pid f args d)) = pumping s"
    using v by (simp add: admitted(1) session_ok_def)
qed (use s in simp)

lemma create_ok:
  assumes "vm_tasks_create h vm w n limit el = (vm', Inr s)"
  shows "session_ok s" and "\<not> pumping s" and "tasks s = []"
proof -
  have c: "0 < limit" "0 < el" "el \<le> SIZE_MAX div sizeof_Completion" "tasks s = []" "capacity s = limit" "event_capacity s = el" "event_head s = 0"
    "event_count s = 0" "task_cursor s = 0" "length (events s) = el" "registered s = 0" "released s = 0" "\<not> pumping s"
    using assms by (auto simp: vm_tasks_create_def split: if_splits)
  then show "session_ok s" "\<not> pumping s" "tasks s = []"
    by (simp_all add: session_ok_def layout_def tree_def table_ok_def balanced_def pendings_def supervised_def supervision_def)
qed

end
