(* ===== verification/Guarantees.thy ===== *)
theory Guarantees
  imports Scheduling
begin

text \<open>
  What a task session promises its embedder: the sessions it can reach by any sequence of operations, and the
  properties that hold in all of them. The last section evaluates a session on a small program.
\<close>

section \<open>Operations are completed once\<close>

text \<open>A request whose completion has been accepted: it is on its way, was delivered, or is superseded.\<close>

definition spent :: "nat \<Rightarrow> nat \<Rightarrow> 'w VMTasks \<Rightarrow> bool" where
  "spent i g s \<longleftrightarrow> i < length (tasks s) \<and>
     (g < generation (request (tasks s ! i)) \<or>
      generation (request (tasks s ! i)) = g \<and> (pending (request (tasks s ! i)) \<longrightarrow> queued (tasks s ! i)))"

lemma spent_update:
  assumes s: "spent i g s" and j: "j < length (tasks s)" and s': "tasks s' = (tasks s)[j := x]"
    and x: "generation (request (tasks s ! j)) < generation (request x) \<or>
      generation (request x) = generation (request (tasks s ! j)) \<and>
      (pending (request x) \<longrightarrow> pending (request (tasks s ! j)) \<and> (queued (tasks s ! j) \<longrightarrow> queued x))"
  shows "spent i g s'"
  using s j x by (cases "j = i") (auto simp: spent_def s')

lemma spent_ended:
  "\<not> pending (request (ended_task k t))" "generation (request (ended_task k t)) = generation (request t)"
  "\<not> pending (request (cancelled_task t))" "generation (request (cancelled_task t)) = generation (request t)"
  by (auto simp: ended_task_def cancelled_task_def note_outcome_def Let_def split: option.split)

lemma spent_finish: "spent i g s \<Longrightarrow> j < length (tasks s) \<Longrightarrow> spent i g (finish_body E j k s)"
  by (rule spent_update [OF _ _ finish_body_tasks]) (simp_all add: spent_ended)

interpretation spent_ending: ending_invariant E "spent i g"
proof unfold_locales
  fix s :: "'a VMTasks" and j e
  assume s: "spent i g s" "j < length (tasks s)"
  show "spent i g (set_task j (\<lambda>t. t\<lparr>terror := e\<rparr>) (finish_body E j TASK_TRAPPED s))"
    by (rule spent_update [OF spent_finish [OF s] _ set_task_tasks(1)])
      (use s(2) in \<open>simp_all add: finish_body_tasks spent_ended\<close>)
  show "spent i g (cancel_one E j s)"
    by (rule spent_update [OF s cancel_one_tasks [OF s(2)]]) (simp add: spent_ended)
  show "spent i g (set_task j (\<lambda>t. t\<lparr>tstatus := outcome t\<rparr>) s)"
    by (rule spent_update [OF s set_task_tasks(1)]) simp
qed

lemma spent_same: "spent i g s \<Longrightarrow> tasks s' = tasks s \<Longrightarrow> spent i g s'"
  by (simp add: spent_def)

lemma spent_ending_of:
  assumes "spent i g s" and "tree s" and "j < length (tasks s)"
  shows "spent i g (ending E j k s)"
proof -
  have f: "spent i g (finish_body E j k s)" "tree (finish_body E j k s)" using spent_finish [OF assms(1,3)] assms(2) by simp_all
  then have "spent i g (cancel_children E (Suc j) (finish_body E j k s))" "tree (cancel_children E (Suc j) (finish_body E j k s))"
    by (simp_all add: spent_ending.cancel_kept(2))
  with f show ?thesis by (auto simp: ending_def intro: spent_ending.settle_kept)
qed

lemma spent_run_task:
  assumes s: "session_ok s" and j: "j < length (tasks s)" "tstatus (tasks s ! j) = TASK_READY" and p: "spent i g s"
  shows "spent i g (run_task E j s)"
proof -
  let ?t = "tasks s ! j"
  have np: "\<not> pending (request ?t)" using ready_task [OF s j] by metis
  obtain m s1 where s1: "layout s1"
    and tasks: "tasks s1 = (tasks s)[j := ?t\<lparr>request := request_of m, body := Some m\<rparr>]"
    and gen: "generation (request_of m) = generation (request ?t) + of_bool (pending (request_of m))"
    and run: "run_task E j s = (if status m = VM_WAITING then set_task j (\<lambda>t. t\<lparr>tstatus := TASK_WAITING\<rparr>) s1
      else if status m \<noteq> VM_YIELDED then
        ending E j (if status m = VM_COMPLETED then TASK_COMPLETED else if status m = VM_EXITED then TASK_EXITED else TASK_TRAPPED) s1
      else s1)" by (rule run_task_cases [OF s j, where E = E]) (rule that)
  have p1: "spent i g s1" by (rule spent_update [OF p j(1) tasks]) (auto simp: gen)
  have "spent i g (set_task j (\<lambda>t. t\<lparr>tstatus := TASK_WAITING\<rparr>) s1)"
    by (rule spent_update [OF p1 _ set_task_tasks(1)]) (use j in \<open>simp_all add: tasks\<close>)
  moreover have "spent i g (ending E j k s1)" for k
    by (rule spent_ending_of [OF p1]) (use s1 j in \<open>simp_all add: layout_def tasks\<close>)
  ultimately show ?thesis using p1 by (simp add: run)
qed

lemma spent_resume_task:
  assumes s: "session_ok s" and j: "j < length (tasks s)" "pending (request (tasks s ! j))" and p: "spent i g s"
  shows "spent i g (resume_task E j ev s)"
proof -
  let ?t = "tasks s ! j"
  obtain m where run: "resume_task E j ev s =
      (let s1 = (set_task j (resumed_task m) s)\<lparr>released := u64 (released s + 1)\<rparr> in
       if error m \<noteq> None then ending E j TASK_TRAPPED s1 else set_task j (\<lambda>t. t\<lparr>tstatus := TASK_READY\<rparr>) s1)"
    by (rule resume_task_form [OF s j]) (rule that)
  define s1 where "s1 = (set_task j (resumed_task m) s)\<lparr>released := u64 (released s + 1)\<rparr>"
  have fx: "fixture (resumed_task m t) = fixture t" for t by (simp add: resumed_task_def)
  have t: "tasks s1 = (tasks s)[j := resumed_task m ?t]" "tree s1"
    using tree_skeleton [OF skeleton_set_task [OF fx]] session_okD(1) [OF s] by (simp_all add: s1_def tree_def)
  have p1: "spent i g s1" by (rule spent_update [OF p j(1) t(1)]) (simp add: resumed_task_def)
  have "spent i g (set_task j (\<lambda>t. t\<lparr>tstatus := TASK_READY\<rparr>) s1)"
    by (rule spent_update [OF p1 _ set_task_tasks(1)]) (use j in \<open>simp_all add: t\<close>)
  moreover have "spent i g (ending E j TASK_TRAPPED s1)"
    by (rule spent_ending_of [OF p1 t(2)]) (use j in \<open>simp add: t\<close>)
  ultimately show ?thesis by (simp add: run s1_def Let_def)
qed

lemma spent_deliver:
  assumes "session_ok s" and "spent i g s"
  shows "spent i g (deliver_completions E s)"
proof -
  have one: "spent i g (deliver_one E s)" if s: "session_ok s" "spent i g s" for s :: "'a VMTasks"
  proof -
    have "spent i g (snd (dequeue s))" by (rule spent_same [OF s(2)]) (simp add: dequeue_def)
    then show ?thesis
      using spent_resume_task [OF dequeue_ok [OF s(1)]]
      by (auto simp: deliver_one_def Let_def split_beta split: option.split dest!: lookup_bound)
  qed
  have "session_ok s \<Longrightarrow> spent i g s \<Longrightarrow> spent i g (deliver_loop E n s)" for n and s :: "'a VMTasks"
    by (induction n arbitrary: s) (simp_all add: one deliver_one_ok)
  with assms show ?thesis by (simp add: deliver_completions_def)
qed

lemma spent_expire:
  assumes "session_ok s" and "spent i g s"
  shows "spent i g (settle E (expire E s))"
proof -
  have "spent i g (upward (\<lambda>i s. let t = tasks s ! i in
      if \<not> terminal t \<and> deadline t \<noteq> UINT64_MAX \<and> deadline t \<le> now s then cancel_tree E (slot t) s else s) ks s)
    \<and> tree (upward (\<lambda>i s. let t = tasks s ! i in
      if \<not> terminal t \<and> deadline t \<noteq> UINT64_MAX \<and> deadline t \<le> now s then cancel_tree E (slot t) s else s) ks s)" for ks
    using assms(2) session_okD(1) [OF assms(1)]
    by (induction ks arbitrary: s) (simp_all add: Let_def spent_ending.cancel_kept)
  then show ?thesis unfolding expire_def by (intro spent_ending.settle_kept) blast+
qed

lemma spent_pump_loop: "session_ok s \<Longrightarrow> spent i g s \<Longrightarrow> spent i g (pump_loop E b s)"
proof (induction b arbitrary: s)
  case (Suc b)
  obtain c where c: "session_ok (s\<lparr>task_cursor := c\<rparr>)" "fst (scan (length (tasks s)) s) = s\<lparr>task_cursor := c\<rparr>"
    and r: "\<forall>i. snd (scan (length (tasks s)) s) = Some i \<longrightarrow> i < length (tasks s) \<and> tstatus (tasks s ! i) = TASK_READY"
    using scan_ok [OF Suc.prems(1) order.refl] by auto
  have p: "spent i g (s\<lparr>task_cursor := c\<rparr>)" by (rule spent_same [OF Suc.prems(2)]) simp
  have "spent i g (pump_loop E b (run_task E j (s\<lparr>task_cursor := c\<rparr>)))" if "snd (scan (length (tasks s)) s) = Some j" for j
    by (rule Suc.IH [OF run_task_ok [OF c(1)] spent_run_task [OF c(1) _ _ p]]) (use r that in auto)
  with p c(2) show ?case by (simp add: split_beta split: option.split)
qed simp

section \<open>The sessions an embedder can reach\<close>

inductive session_step :: "'w Native \<Rightarrow> 'w VMTasks \<Rightarrow> 'w VMTasks \<Rightarrow> bool" for E where
  spawn: "session_step E s (fst (vm_tasks_spawn E s pid f args d))"
| cancel: "session_step E s (fst (vm_tasks_cancel E s tid))"
| complete: "session_step E s (fst (vm_tasks_complete s op e))"
| complete_read: "session_step E s (fst (vm_tasks_complete_read s op r))"
| pump: "session_step E s (fst (vm_tasks_pump E s t b))"

inductive session_reach :: "'w Native \<Rightarrow> 'w VMTasks \<Rightarrow> bool" for E where
  created: "vm_tasks_create h vm w n limit el = (vm', Inr s) \<Longrightarrow> session_reach E s"
| step: "session_reach E s \<Longrightarrow> session_step E s s' \<Longrightarrow> session_reach E s'"

inductive_cases session_stepE: "session_step E s s'"

lemma complete_tasks:
  "length (tasks (fst (complete s op e r read))) = length (tasks s)"
  "i < length (tasks s) \<Longrightarrow> tasks (fst (complete s op e r read)) ! i = tasks s ! i \<or>
     pending (request (tasks s ! i)) \<and> tasks (fst (complete s op e r read)) ! i = (tasks s ! i)\<lparr>queued := True\<rparr>"
  "identity (fst (complete s op e r read)) = identity s"
proof -
  show "length (tasks (fst (complete s op e r read))) = length (tasks s)" "identity (fst (complete s op e r read)) = identity s"
    by (simp_all add: complete_def Let_def set_task_def enqueue_def split: option.split)
  assume i: "i < length (tasks s)"
  have "(tasks s)[k := (tasks s ! k)\<lparr>queued := True\<rparr>] ! i = (if k = i then (tasks s ! i)\<lparr>queued := True\<rparr> else tasks s ! i)" for k
    using i by simp
  then show "tasks (fst (complete s op e r read)) ! i = tasks s ! i \<or>
     pending (request (tasks s ! i)) \<and> tasks (fst (complete s op e r read)) ! i = (tasks s ! i)\<lparr>queued := True\<rparr>"
    by (simp add: complete_def Let_def set_task_def enqueue_def split: option.split)
qed

lemma step_ok:
  assumes "session_step E s s'" and s: "session_ok s" "\<not> pumping s"
  shows "session_ok s' \<and> \<not> pumping s'"
  using assms(1)
proof cases
  case (cancel tid)
  show ?thesis
  proof (cases "lookup s tid")
    case (Some i)
    then have "i < length (tasks s)" using lookup_bound by blast
    from cancel_ok [OF s(1) this refl, of E] skeleton_ring [of _ s] show ?thesis
      using s Some by (auto simp: cancel vm_tasks_cancel_eq [OF s(1)])
  qed (use s in \<open>simp add: cancel vm_tasks_cancel_def\<close>)
qed (use s spawn_ok [OF s(1)] complete_ok [OF s(1)] pump_ok [OF s] in
    \<open>simp_all add: vm_tasks_complete_def vm_tasks_complete_read_def\<close>)

lemma reach_ok: "session_reach E s \<Longrightarrow> session_ok s \<and> \<not> pumping s"
  by (induction rule: session_reach.induct) (simp_all add: create_ok step_ok)

lemma spent_complete:
  assumes "spent i g s"
  shows "spent i g (fst (complete s op e r read))"
proof -
  have "i < length (tasks s)" using assms by (simp add: spent_def)
  from complete_tasks(1) [of s op e r read] complete_tasks(2) [OF this, of op e r read] assms show ?thesis
    by (auto simp: spent_def)
qed

lemma step_spent:
  assumes "session_step E s s'" and s: "session_ok s" "\<not> pumping s" and p: "spent i g s"
  shows "spent i g s'"
  using assms(1)
proof cases
  case (spawn pid f args d)
  obtain xs where "tasks s' = tasks s @ xs" using spawn_ok(2) [OF s(1), of E pid f args d] by (auto simp: spawn)
  then show ?thesis using p by (simp add: spent_def nth_append)
next
  case (cancel tid)
  have t: "tree s" using session_okD(1) [OF s(1)] .
  have "spent i g (settle E (cancel_tree E k s))" for k
    by (rule spent_ending.settle_kept [OF spent_ending.cancel_kept(1) [OF p t]]) (simp add: t)
  then show ?thesis using p s(2) by (simp add: cancel vm_tasks_cancel_def split: option.split)
next
  case (pump t b)
  have "spent i g (prepared E t s)"
    unfolding prepared_def
    by (intro spent_expire spent_deliver deliver_ok(1)) (use s(1) spent_same [OF p] in \<open>simp_all\<close>)
  from spent_pump_loop [OF prepared_ok(1) [OF s(1)] this] spent_same show ?thesis
    using p by (auto simp: pump vm_tasks_pump_eq spent_def)
qed (simp_all add: vm_tasks_complete_def vm_tasks_complete_read_def spent_complete p)

lemma step_final:
  assumes "session_step E s s'" and s: "session_ok s" "\<not> pumping s" and i: "i < length (tasks s)" "terminal (tasks s ! i)"
  shows "i < length (tasks s') \<and> tasks s' ! i = tasks s ! i \<and> identity s' = identity s"
  using assms(1)
proof cases
  case (spawn pid f args d)
  show ?thesis
    using s(1)
  proof (cases rule: spawn_cases [where E = E and pid = pid and f = f and args = args and d = d])
  qed (use i in \<open>simp_all add: spawn nth_append\<close>)
next
  case (cancel tid)
  show ?thesis
  proof (cases "lookup s tid")
    case (Some k)
    then have "k < length (tasks s)" using lookup_bound by blast
    note c = cancel_ok(2,3) [OF s(1) this refl, of E]
    show ?thesis
      using sinceD(1) [OF c(1)] sinceD(2) [OF c(1) i] skeleton_ring [OF c(2)] i s(2) Some
      by (simp add: cancel vm_tasks_cancel_eq [OF s(1)])
  qed (use i in \<open>simp add: cancel vm_tasks_cancel_def\<close>)
next
  case (pump t b)
  have l: "later (s\<lparr>pumping := True, now := t\<rparr>) (pump_loop E b (prepared E t s))"
    using later_trans [OF prepared_ok(2) [OF s(1)]] pump_loop_ok [OF prepared_ok(1) [OF s(1)]] by blast
  show ?thesis using laterD [OF l] later_length [OF l] l i by (simp add: pump vm_tasks_pump_eq later_def)
next
  case (complete op e)
  have "\<not> pending (request (tasks s ! i))" using session_okD(6) [OF s(1) i(1)] i(2) by (auto simp: task_ok_def terminal_def)
  then show ?thesis using i complete_tasks(1,3) [of s op e None False] complete_tasks(2) [OF i(1), of op e None False] by (auto simp: complete vm_tasks_complete_def)
next
  case (complete_read op r)
  have "\<not> pending (request (tasks s ! i))" using session_okD(6) [OF s(1) i(1)] i(2) by (auto simp: task_ok_def terminal_def)
  then show ?thesis using i complete_tasks(1,3) [of s op None r True] complete_tasks(2) [OF i(1), of op None r True] by (auto simp: complete_read vm_tasks_complete_read_def)
qed

section \<open>The ring of completions is a queue\<close>

locale bounded_queue =
  fixes invar :: "'q \<Rightarrow> bool" and list_of :: "'q \<Rightarrow> 'a list" and limit :: "'q \<Rightarrow> nat"
    and put :: "'a \<Rightarrow> 'q \<Rightarrow> 'q" and take_first :: "'q \<Rightarrow> 'a \<times> 'q"
  assumes put: "invar q \<Longrightarrow> length (list_of q) < limit q \<Longrightarrow> invar (put x q) \<and> list_of (put x q) = list_of q @ [x]"
    and take_first: "invar q \<Longrightarrow> list_of q \<noteq> [] \<Longrightarrow>
      invar (snd (take_first q)) \<and> list_of q = fst (take_first q) # list_of (snd (take_first q))"
begin

lemma taken_rest: "invar q \<Longrightarrow> list_of q \<noteq> [] \<Longrightarrow> list_of (snd (take_first q)) = tl (list_of q)"
  using take_first [of q] by (metis list.sel(3))

lemma drained: "invar q \<Longrightarrow> list_of (((\<lambda>q. snd (take_first q)) ^^ length (list_of q)) q) = []"
proof (induction "length (list_of q)" arbitrary: q)
  case (Suc n)
  then have "list_of q \<noteq> []" by auto
  with Suc take_first [of q] Suc.hyps(1) [of "snd (take_first q)"] show ?case
    by (metis funpow_Suc_right length_Cons nat.inject o_apply)
qed simp

end

definition ring_ok :: "'w VMTasks \<Rightarrow> bool" where
  "ring_ok s \<longleftrightarrow> 0 < event_capacity s \<and> event_capacity s \<le> SIZE_MAX div sizeof_Completion \<and> length (events s) = event_capacity s \<and>
     event_head s < event_capacity s \<and> event_count s \<le> event_capacity s"

definition queue_of :: "'w VMTasks \<Rightarrow> Completion list" where
  "queue_of s = map (\<lambda>k. events s ! ((event_head s + k) mod event_capacity s)) [0..<event_count s]"

lemma ring_session: "session_ok s \<Longrightarrow> ring_ok s"
  by (simp add: session_ok_def layout_def ring_ok_def)

lemma queue_length [simp]: "length (queue_of s) = event_count s"
  by (simp add: queue_of_def)

lemma queue_skeleton: "skeleton a = skeleton b \<Longrightarrow> queue_of a = queue_of b"
  using skeleton_ring [of a b] by (simp add: queue_of_def)

text \<open>The tail does not wrap as a machine word, since the capacity is far from the largest size.\<close>

lemma tail_exact: "ring_ok s \<Longrightarrow> u64 (event_head s + event_count s) = event_head s + event_count s"
  by (simp add: ring_ok_def u64_def SIZE_MAX_def sizeof_Completion_def)

lemma enqueue_queue:
  assumes r: "ring_ok s" and c: "event_count s < event_capacity s"
  shows "ring_ok (enqueue x s)" and "queue_of (enqueue x s) = queue_of s @ [x]"
proof -
  let ?t = "(event_head s + event_count s) mod event_capacity s"
  have t: "?t < length (events s)" using r by (simp add: ring_ok_def)
  have ne: "?t \<noteq> (event_head s + k) mod event_capacity s" if "k < event_count s" for k
    using mod_distinct [OF that c] by metis
  have "queue_of (enqueue x s) = map (\<lambda>k. if k = event_count s then x else events s ! ((event_head s + k) mod event_capacity s)) [0..<Suc (event_count s)]"
    using t by (auto simp: queue_of_def enqueue_def Let_def tail_exact [OF r] ne)
  also have "\<dots> = queue_of s @ [x]" by (simp add: queue_of_def)
  finally show "queue_of (enqueue x s) = queue_of s @ [x]" .
  show "ring_ok (enqueue x s)" using r c by (simp add: ring_ok_def enqueue_def Let_def)
qed

lemma dequeue_queue:
  assumes r: "ring_ok s" and c: "0 < event_count s"
  shows "ring_ok (snd (dequeue s))" and "queue_of s = fst (dequeue s) # queue_of (snd (dequeue s))"
proof -
  obtain n where n: "event_count s = Suc n" using c by (cases "event_count s") auto
  have "(Suc (event_head s) mod event_capacity s + k) mod event_capacity s = (event_head s + Suc k) mod event_capacity s" for k
    by (simp add: mod_add_left_eq)
  then have "queue_of (snd (dequeue s)) = map (\<lambda>k. events s ! ((event_head s + Suc k) mod event_capacity s)) [0..<n]"
    by (simp add: queue_of_def dequeue_def n)
  moreover have "queue_of s = events s ! (event_head s mod event_capacity s) #
      map (\<lambda>k. events s ! ((event_head s + Suc k) mod event_capacity s)) [0..<n]"
    by (simp add: queue_of_def n upt_conv_Cons map_Suc_upt [symmetric] comp_def del: upt_Suc)
  ultimately show "queue_of s = fst (dequeue s) # queue_of (snd (dequeue s))"
    using r by (simp add: dequeue_def ring_ok_def)
  show "ring_ok (snd (dequeue s))" using r by (auto simp: ring_ok_def dequeue_def)
qed

interpretation ring: bounded_queue ring_ok queue_of event_capacity enqueue dequeue
proof unfold_locales
  fix s :: "'a VMTasks" and x
  assume s: "ring_ok s"
  show "length (queue_of s) < event_capacity s \<Longrightarrow> ring_ok (enqueue x s) \<and> queue_of (enqueue x s) = queue_of s @ [x]"
    using enqueue_queue [OF s] by simp
  assume "queue_of s \<noteq> []"
  then have "0 < event_count s" by (metis gr0I length_0_conv queue_length)
  with dequeue_queue [OF s] show "ring_ok (snd (dequeue s)) \<and> queue_of s = fst (dequeue s) # queue_of (snd (dequeue s))" by blast
qed

text \<open>The completions a pump takes, in the order it takes them.\<close>

fun delivered :: "'w Native \<Rightarrow> nat \<Rightarrow> 'w VMTasks \<Rightarrow> Completion list" where
  "delivered E 0 s = []"
| "delivered E (Suc n) s = (if event_count s = 0 then [] else fst (dequeue s) # delivered E n (deliver_one E s))"

lemma delivered_queue: "session_ok s \<Longrightarrow> event_count s \<le> n \<Longrightarrow> delivered E n s = queue_of s"
proof (induction n arbitrary: s)
  case 0
  then show ?case by (simp add: queue_of_def)
next
  case (Suc n)
  note d = deliver_one_ok [OF Suc.prems(1), of E]
  have "event_count (deliver_one E s) = event_count s - 1" using skeleton_ring [OF d(2)] by (simp add: dequeue_def)
  then have "delivered E n (deliver_one E s) = queue_of (snd (dequeue s))"
    using Suc.IH [OF d(1)] Suc.prems(2) queue_skeleton [OF d(2)] by simp
  then show ?case using dequeue_queue(2) [OF ring_session [OF Suc.prems(1)]] by (auto simp: queue_of_def)
qed

section \<open>Destruction\<close>

lemma destroy_one_form:
  assumes "i < length (tasks s)"
  shows "\<exists>w. destroy_one E i s = release_request i (s\<lparr>outside := w\<rparr>)"
proof -
  have n: "s = s\<lparr>outside := outside s\<rparr>" by simp
  show ?thesis
  proof (cases "body (tasks s ! i)")
    case None
    then have "destroy_one E i s = release_request i (s\<lparr>outside := outside s\<rparr>)" by (simp add: destroy_one_def)
    then show ?thesis by blast
  next
    case (Some m)
    show ?thesis
    proof (cases "vm_execution_destroy (session_native E) (lend s (request (tasks s ! i)) m)")
      case None
      with Some have "destroy_one E i s = release_request i (s\<lparr>outside := outside s\<rparr>)" by (simp add: destroy_one_def)
      then show ?thesis by blast
    next
      case (Some vm)
      with \<open>body (tasks s ! i) = Some m\<close> give_back_destroyed [OF assms Some] show ?thesis by (auto simp: destroy_one_def)
    qed
  qed
qed

lemma destroy_one_ok:
  assumes b: "balanced s" and i: "i < length (tasks s)"
  shows "balanced (destroy_one E i s) \<and> length (tasks (destroy_one E i s)) = length (tasks s) \<and>
    registered (destroy_one E i s) = registered s \<and> skeleton (destroy_one E i s) = skeleton s \<and>
    (\<forall>j < length (tasks s). pending (request (tasks (destroy_one E i s) ! j)) \<longleftrightarrow> j \<noteq> i \<and> pending (request (tasks s ! j)))"
proof -
  obtain w where w: "destroy_one E i s = release_request i (s\<lparr>outside := w\<rparr>)" using destroy_one_form [OF i] by blast
  let ?x = "if pending (request (tasks s ! i)) then (tasks s ! i)\<lparr>request := (request (tasks s ! i))\<lparr>pending := False, input := None\<rparr>,
    queued := False\<rparr> else tasks s ! i"
  have f: "tasks (destroy_one E i s) = (tasks s)[i := ?x]" "registered (destroy_one E i s) = registered s"
    "released (destroy_one E i s) = (if pending (request (tasks s ! i)) then u64 (released s + 1) else released s)"
    by (simp_all add: w release_request_def)
  have "balanced (destroy_one E i s)" by (rule balanced_release [OF b i _ f]) simp
  moreover have "skeleton (destroy_one E i s) = skeleton s" by (simp add: w skeleton_release) (simp add: skeleton_def)
  ultimately show ?thesis using i f by (auto simp: nth_list_update)
qed

lemma destroy_all:
  assumes "balanced s" and "n \<le> length (tasks s)" and "\<forall>j < length (tasks s). n \<le> j \<longrightarrow> \<not> pending (request (tasks s ! j))"
  shows "balanced (downward (destroy_one E) n s) \<and> registered (downward (destroy_one E) n s) = registered s \<and>
    skeleton (downward (destroy_one E) n s) = skeleton s \<and>
    (\<forall>j < length (tasks s). \<not> pending (request (tasks (downward (destroy_one E) n s) ! j)))"
  using assms
proof (induction n arbitrary: s)
  case (Suc i)
  let ?s = "destroy_one E i s"
  have d: "balanced ?s" "length (tasks ?s) = length (tasks s)" "registered ?s = registered s" "skeleton ?s = skeleton s"
    "\<forall>j < length (tasks s). pending (request (tasks ?s ! j)) \<longleftrightarrow> j \<noteq> i \<and> pending (request (tasks s ! j))"
    using destroy_one_ok [of s i E] Suc.prems by auto
  have "\<forall>j < length (tasks ?s). i \<le> j \<longrightarrow> \<not> pending (request (tasks ?s ! j))"
    using d(2,5) Suc.prems(3) by (auto simp: Suc_le_eq le_less)
  with Suc.IH [of ?s] d Suc.prems show ?case by simp
qed simp

section \<open>What a session promises\<close>

lemma reach_steps:
  assumes "(session_step E)\<^sup>*\<^sup>* s s'" and "session_reach E s"
  shows "session_reach E s'"
  using assms by induction (auto intro: session_reach.step)

text \<open>
  C4. Tasks form scopes. In every session an embedder can reach, a task was created after its parent and its
  deadline is no later than its parent's; a task that is over has only children that are over, one that
  completed only children that completed; a task with a child that failed is over, or has stopped with a
  failure of its own; and every task that has stopped without being over waits for a child of its own that is
  not over.
\<close>

theorem task_scopes_supervised:
  assumes "session_reach E s" and "c < length (tasks s)"
  shows "(tstatus (tasks s ! c) = TASK_JOINING \<longrightarrow>
       (\<exists>k < length (tasks s). parent (tasks s ! k) = Suc c \<and> \<not> terminal (tasks s ! k))) \<and>
    (\<forall>p. parent (tasks s ! c) = Suc p \<longrightarrow>
       p < c \<and> deadline (tasks s ! c) \<le> deadline (tasks s ! p) \<and>
       (terminal (tasks s ! p) \<longrightarrow> terminal (tasks s ! c)) \<and>
       (tstatus (tasks s ! p) = TASK_COMPLETED \<longrightarrow> tstatus (tasks s ! c) = TASK_COMPLETED) \<and>
       (terminal (tasks s ! c) \<and> tstatus (tasks s ! c) \<noteq> TASK_COMPLETED \<and> \<not> terminal (tasks s ! p) \<longrightarrow>
          tstatus (tasks s ! p) = TASK_JOINING \<and> outcome (tasks s ! p) \<in> {TASK_TRAPPED, TASK_EXITED}))"
proof (intro conjI [OF _ allI] impI)
  have ok: "session_ok s" using reach_ok [OF assms(1)] by blast
  note d = supervisionD [OF session_okD(4) [OF ok, unfolded supervised_def]]
  show "\<exists>k < length (tasks s). parent (tasks s ! k) = Suc c \<and> \<not> terminal (tasks s ! k)"
    if "tstatus (tasks s ! c) = TASK_JOINING"
    using that d(5) [of c] assms(2) by (auto simp: terminal_over)
  fix p assume par: "parent (tasks s ! c) = Suc p"
  have p: "p < c" "p < length (tasks s)" using treeD(2) [OF session_okD(1) [OF ok] assms(2) par] assms(2) by auto
  have "deadline (tasks s ! c) \<le> deadline (tasks s ! p)" using session_okD(2) [OF ok] assms(2) par by (simp add: layout_def)
  moreover have "tstatus (tasks s ! p) = TASK_JOINING"
    if "\<not> terminal (tasks s ! p)" "outcome (tasks s ! p) \<in> {TASK_TRAPPED, TASK_EXITED}"
    using that session_okD(6) [OF ok p(2)] by (cases "tstatus (tasks s ! p)") (auto simp: task_ok_def terminal_def)
  ultimately show "p < c \<and> deadline (tasks s ! c) \<le> deadline (tasks s ! p) \<and>
       (terminal (tasks s ! p) \<longrightarrow> terminal (tasks s ! c)) \<and>
       (tstatus (tasks s ! p) = TASK_COMPLETED \<longrightarrow> tstatus (tasks s ! c) = TASK_COMPLETED) \<and>
       (terminal (tasks s ! c) \<and> tstatus (tasks s ! c) \<noteq> TASK_COMPLETED \<and> \<not> terminal (tasks s ! p) \<longrightarrow>
          tstatus (tasks s ! p) = TASK_JOINING \<and> outcome (tasks s ! p) \<in> {TASK_TRAPPED, TASK_EXITED})"
    using p d(1,2,4) [of c p] assms(2) par by (auto simp: terminal_over)
qed

text \<open>
  C13. An answer about a task is final. Once a task is over, its status, result, error and exit status are the
  same after every later operation of the session: no pump, cancellation, admission or completion changes
  what an embedder has been told.
\<close>

theorem task_results_final:
  assumes "session_reach E s" and "over (vm_tasks_status s tid)" and "(session_step E)\<^sup>*\<^sup>* s s'"
  shows "vm_tasks_status s' tid = vm_tasks_status s tid \<and> vm_tasks_result s' tid = vm_tasks_result s tid \<and>
    vm_tasks_error s' tid = vm_tasks_error s tid \<and> vm_tasks_exit_status s' tid = vm_tasks_exit_status s tid"
proof -
  obtain i where l: "lookup s tid = Some i" and t: "terminal (tasks s ! i)"
    using assms(2) by (auto simp: vm_tasks_status_def terminal_over split: option.splits)
  have i: "i < length (tasks s)" using lookup_bound [OF l] by blast
  have "i < length (tasks s') \<and> tasks s' ! i = tasks s ! i \<and> identity s' = identity s"
    using assms(3)
  proof induction
    case (step a b)
    have "session_ok a \<and> \<not> pumping a" using reach_ok reach_steps [OF step.hyps(1) assms(1)] by blast
    with step_final [OF step.hyps(2)] step.IH t show ?case by metis
  qed (simp add: i)
  then have "lookup s' tid = Some i \<and> tasks s' ! i = tasks s ! i" using l by (auto simp: lookup_def split: if_splits)
  with l show ?thesis
    by (simp add: vm_tasks_status_def vm_tasks_result_def vm_tasks_error_def vm_tasks_exit_status_def)
qed

text \<open>
  C9. A pending operation is completed at most once. When a completion of an operation has been accepted, every
  further one for the same operation is refused, whatever happens in between: while the first waits to be
  delivered, after its delivery, after the task ended, and when the task waits for a new operation.
\<close>

theorem operations_completed_once:
  assumes "session_reach E s" and "vm_tasks_complete s op e = (s1, True) \<or> vm_tasks_complete_read s op r = (s1, True)"
    and "(session_step E)\<^sup>*\<^sup>* s1 s2"
  shows "vm_tasks_complete s2 op e2 = (s2, False) \<and> vm_tasks_complete_read s2 op r2 = (s2, False)"
proof -
  obtain message v reads where c: "complete s op message v reads = (s1, True)"
    using assms(2) by (auto simp: vm_tasks_complete_def vm_tasks_complete_read_def)
  have ok: "session_ok s" using reach_ok [OF assms(1)] by blast
  obtain i where i: "lookup s (op_task op) = Some i" "spent i (op_generation op) s1"
    using ok
  proof (cases rule: complete_cases [where op = op and e = message and r = v and read = reads])
    case (taken i)
    then have "spent i (op_generation op) s1" using c by (auto simp: spent_def enqueue_def Let_def)
    then show thesis using that taken(1) by blast
  qed (use c in simp)
  have r1: "session_reach E s1"
    using assms(2) session_step.complete [of E s op e] session_step.complete_read [of E s op r]
    by (auto intro: session_reach.step [OF assms(1)])
  have "spent i (op_generation op) s2"
    using assms(3)
  proof induction
    case (step a b)
    have "session_ok a" "\<not> pumping a" using reach_ok [OF reach_steps [OF step.hyps(1) r1]] by blast+
    with step_spent [OF step.hyps(2)] step.IH show ?case by blast
  qed (rule i(2))
  moreover have "lookup s2 (op_task op) = None \<or> lookup s2 (op_task op) = Some i"
    using lookup_bound [OF i(1)] lookup_bound [of s2 "op_task op"] by (cases "lookup s2 (op_task op)") auto
  ultimately have "complete s2 op x y z = (s2, False)" for x y z by (auto simp: complete_def spent_def Let_def)
  then show ?thesis by (simp add: vm_tasks_complete_def vm_tasks_complete_read_def)
qed

lemma pendings_card: "pendings ts = card {i. i < length ts \<and> pending (request (ts ! i))}"
proof -
  have "pendings ts = length (filter (\<lambda>t. pending (request t)) ts)" by (induction ts) (simp_all add: pendings_def)
  then show ?thesis by (simp add: length_filter_conv_card)
qed

lemma drop_counters: "registered (((\<lambda>s. snd (dequeue s)) ^^ n) s) = registered s" "released (((\<lambda>s. snd (dequeue s)) ^^ n) s) = released s"
  by (induction n) (simp_all add: dequeue_def)

text \<open>
  C15. Every request a task registers is released exactly once. In every session an embedder can reach, the
  requests registered are those released and those of the tasks that still wait, and the counters have not
  wrapped; destroying the session succeeds, releases exactly the rest and leaves no completion behind.
\<close>

theorem requests_released:
  assumes "session_reach E s"
  shows "registered s = released s + card {i. i < length (tasks s) \<and> pending (request (tasks s ! i))} \<and>
    registered s \<le> SIZE_MAX \<and>
    (\<exists>s'. vm_tasks_destroy E s = Some s' \<and> vm_tasks_stats s' = (registered s, registered s, 0))"
proof -
  have ok: "session_ok s" "\<not> pumping s" using reach_ok [OF assms] by blast+
  have b: "balanced s" using session_okD(5) [OF ok(1)] .
  let ?d = "downward (destroy_one E) (length (tasks s)) s"
  have d: "balanced ?d" "registered ?d = registered s" "skeleton ?d = skeleton s"
    "\<forall>j < length (tasks s). \<not> pending (request (tasks ?d ! j))"
    using destroy_all [OF b order.refl, of E] by simp_all
  have "pendings (tasks ?d) = 0" using d(4) skeleton_length [OF d(3)] by (simp add: pendings_card)
  then have "released ?d = registered s" using d(1,2) by (simp add: balanced_def)
  moreover have "ring_ok ?d" using ring_session [OF ok(1)] skeleton_ring [OF d(3)] by (simp add: ring_ok_def)
  then have "event_count (((\<lambda>s. snd (dequeue s)) ^^ event_count s) ?d) = 0"
    using ring.drained [of ?d] skeleton_ring [OF d(3)] queue_length by (metis list.size(3))
  ultimately show ?thesis
    using b ok(2) d(2) by (simp add: vm_tasks_destroy_def vm_tasks_stats_def drop_counters balanced_def pendings_card)
qed

text \<open>
  C6. Every ready task gets its turn. When a pump has delivered completions and ended what expired, a ready
  task is the next to run after fewer turns than there are tasks, exactly as it stood, unless it has been
  ended before by the failure of another task: the others have at most one turn each before it.
\<close>

theorem pump_turns_fair:
  assumes "session_reach E s" and "now s \<le> t" and "j < length (tasks s)" and "tstatus (tasks (prepared E t s) ! j) = TASK_READY"
  shows "vm_tasks_pump E s t b = ((pump_loop E b (prepared E t s))\<lparr>pumping := False\<rparr>, True) \<and>
    (\<exists>k < length (tasks s). has_turn E k j (prepared E t s))"
proof -
  have ok: "session_ok s" "\<not> pumping s" using reach_ok [OF assms(1)] by blast+
  have p: "session_ok (prepared E t s)" "length (tasks (prepared E t s)) = length (tasks s)"
    using prepared_ok(1,2) [OF ok(1)] later_length by fastforce+
  obtain d where "d < length (tasks s)" "(task_cursor (prepared E t s) + d) mod length (tasks s) = j"
    using cursor_distance [OF p(1)] assms(3) p(2) by auto
  then obtain k where "k < length (tasks s)" "has_turn E k j (prepared E t s)"
    using turn_within [OF p(1), of d j E] assms(4) p(2) by (metis le_less_trans)
  then show ?thesis using ok(2) assms(2) by (auto simp: vm_tasks_pump_eq)
qed

lemma Min_min:
  fixes a d :: nat
  assumes "finite A"
  shows "Min (insert (min a d) A) = Min (insert d (insert a A))"
  using assms by (cases "A = {}") (simp_all add: min.commute min.left_commute)

lemma next_deadline_min:
  "vm_tasks_next_deadline s = Min (insert UINT64_MAX (deadline ` {k \<in> set (tasks s). \<not> terminal k}))"
proof -
  have "fold (\<lambda>t d. if \<not> terminal t \<and> deadline t < d then deadline t else d) ts d =
      Min (insert d (deadline ` {k \<in> set ts. \<not> terminal k}))" for ts :: "'a Task list" and d
  proof (induction ts arbitrary: d)
    case (Cons t ts)
    let ?A = "deadline ` {k \<in> set ts. \<not> terminal k}"
    have "Min (insert (min (deadline t) d) ?A) = Min (insert d (insert (deadline t) ?A))"
      by (rule Min_min) simp
    moreover have "(if \<not> terminal t \<and> deadline t < d then deadline t else d) = (if terminal t then d else min (deadline t) d)" by auto
    moreover have "{k \<in> set (t # ts). \<not> terminal k} = (if terminal t then {} else {t}) \<union> {k \<in> set ts. \<not> terminal k}" by auto
    ultimately show ?case by (simp add: Cons.IH)
  qed simp
  then show ?thesis by (simp add: vm_tasks_next_deadline_def)
qed

text \<open>
  C17. Deadlines hold. A pump at a time no earlier than the last one is accepted and delivers every completion;
  afterwards every task that is not over has no deadline or one in the future, and the next deadline the
  session reports is the least of them, so it is in the future as well.
\<close>

theorem pump_meets_deadlines:
  assumes "session_reach E s" and "now s \<le> t" and "vm_tasks_pump E s t b = (s', ok)"
  shows "ok \<and> event_count s' = 0 \<and>
    (\<forall>k \<in> set (tasks s'). \<not> terminal k \<longrightarrow> deadline k = UINT64_MAX \<or> t < deadline k) \<and>
    vm_tasks_next_deadline s' = Min (insert UINT64_MAX (deadline ` {k \<in> set (tasks s'). \<not> terminal k})) \<and>
    (vm_tasks_next_deadline s' = UINT64_MAX \<or> t < vm_tasks_next_deadline s')"
proof -
  have r: "session_ok s" "\<not> pumping s" using reach_ok [OF assms(1)] by blast+
  define p where "p = prepared E t s"
  note p = prepared_ok [OF r(1), where E = E and t = t, folded p_def]
  note l = pump_loop_ok [OF p(1), of E b]
  have s': "s' = (pump_loop E b p)\<lparr>pumping := False\<rparr>" "ok" using assms(2,3) r(2) by (auto simp: vm_tasks_pump_eq p_def)
  have n: "length (tasks s') = length (tasks p)" "length (tasks p) = length (tasks s)"
    using later_length [of p "pump_loop E b p"] later_length [OF p(2)] l by (simp_all add: s')
  have "\<not> overdue t (tasks s' ! i)" if i: "i < length (tasks s')" for i
  proof -
    have o: "\<not> overdue t (tasks p ! i)" using p(4) i n by simp
    have "map fixture (tasks s') ! i = map fixture (tasks p) ! i" using l by (simp add: s' later_def)
    then have f: "deadline (tasks s' ! i) = deadline (tasks p ! i)" using i n by (simp add: fixture_def)
    have "tasks s' ! i = tasks p ! i" if "terminal (tasks p ! i)" using laterD [of p _ i] l that i n by (simp add: s')
    with o f show ?thesis by (auto simp: overdue_def)
  qed
  then have "\<forall>k \<in> set (tasks s'). \<not> overdue t k" by (metis in_set_conv_nth)
  then have d: "\<forall>k \<in> set (tasks s'). \<not> terminal k \<longrightarrow> deadline k = UINT64_MAX \<or> t < deadline k"
    by (auto simp: overdue_def not_le)
  have "vm_tasks_next_deadline s' \<in> insert UINT64_MAX (deadline ` {k \<in> set (tasks s'). \<not> terminal k})"
    unfolding next_deadline_min by (rule Min_in) simp_all
  with d have "vm_tasks_next_deadline s' = UINT64_MAX \<or> t < vm_tasks_next_deadline s'" by auto
  moreover have "event_count s' = 0" using l p(3) by (simp add: s')
  ultimately show ?thesis using d s'(2) next_deadline_min by blast
qed

text \<open>
  C20. Cancelling a task ends its whole scope: the call succeeds, and afterwards the task and each of its
  descendants is cancelled, without a result and with its request released, or is as it was because it was
  over already. Nothing is said of tasks outside the scope, which the same call may end through their parents.
\<close>

theorem cancellation_ends_scope:
  assumes "session_reach E s" and "lookup s tid = Some i" and "j < length (tasks s)" and "below s j i"
  shows "snd (vm_tasks_cancel E s tid) \<and>
    tasks (fst (vm_tasks_cancel E s tid)) ! j = (if terminal (tasks s ! j) then tasks s ! j else cancelled_task (tasks s ! j))"
proof -
  have ok: "session_ok s" "\<not> pumping s" using reach_ok [OF assms(1)] by blast+
  have t: "tree s" using session_okD(1) [OF ok(1)] .
  let ?c = "cancel_tree E (Suc i) s"
  have c: "tasks ?c ! j = (if terminal (tasks s ! j) then tasks s ! j else cancelled_task (tasks s ! j))"
    using cancel_tree_tasks [OF t assms(3), of E i] assms(4) by simp
  have "table_ok (settle E ?c) \<and> since ?c (settle E ?c)"
    by (rule since_ending.settle_kept)
      (use table_ending.cancel_kept(1) [OF session_okD(3) [OF ok(1)] t] t in \<open>simp_all add: since_refl\<close>)
  then have "tasks (settle E ?c) ! j = tasks ?c ! j" by (intro sinceD(2)) (use assms(3) c in auto)
  then show ?thesis using c assms(2) ok(2) by (simp add: vm_tasks_cancel_eq [OF ok(1)])
qed

text \<open>
  C21. The ring of completions is a first-in, first-out queue. An accepted completion is appended, a refused one
  changes nothing, the ring never holds more than its capacity, and a delivery takes all completions in the
  order in which they were accepted.
\<close>

theorem completions_in_order:
  assumes "session_reach E s"
  shows "(if snd (complete s op e r read)
          then queue_of (fst (complete s op e r read)) = queue_of s @ [\<lparr>operation = op, cerror = e, cresult = r\<rparr>]
          else fst (complete s op e r read) = s) \<and>
    length (queue_of s) \<le> event_capacity s \<and> delivered E (event_count s) s = queue_of s \<and>
    queue_of (deliver_completions E s) = []"
proof -
  have ok: "session_ok s" using reach_ok [OF assms] by blast
  have "if snd (complete s op e r read)
      then queue_of (fst (complete s op e r read)) = queue_of s @ [\<lparr>operation = op, cerror = e, cresult = r\<rparr>]
      else fst (complete s op e r read) = s"
    using ok
  proof (cases rule: complete_cases [where op = op and e = e and r = r and read = read])
    case (taken i)
    let ?q = "enqueue \<lparr>operation = op, cerror = e, cresult = r\<rparr> s"
    have "queue_of (set_task i (\<lambda>t. t\<lparr>queued := True\<rparr>) ?q) = queue_of ?q" by (rule queue_skeleton [OF skeleton_set_task]) simp
    then show ?thesis using taken(9) ring.put [OF ring_session [OF ok]] taken(7) by simp
  qed simp
  moreover have "length (queue_of s) \<le> event_capacity s" using ring_session [OF ok] by (simp add: ring_ok_def)
  moreover have "queue_of (deliver_completions E s) = []"
    using deliver_ok(3) [OF ok, of E] by (metis length_0_conv queue_length)
  ultimately show ?thesis using delivered_queue [OF ok order.refl] by blast
qed

section \<open>A session at work\<close>

definition talking_vm :: "unit shared VM" where
  "talking_vm = \<lparr>program = \<lparr>functions = [sample_function ''main'' [OP_CONST (K_BOOL True), OP_CALL ''print'' 1, OP_RETURN]],
     verified_function_order = False\<rparr>, program_address = 0, error = None, fault_kind = VM_FAULT_FATAL,
     execution = False, coverage_run = False, coverage = None, iterators = Map.empty, fresh = 0, clock = 0, world = (no_request, 0, ())\<rparr>"

definition opened :: "unit VMTasks" where
  "opened = projr (snd (vm_tasks_create (\<lambda>_. True) talking_vm () 0 2 2))"

definition single :: "unit VMTasks" where
  "single = fst (vm_tasks_spawn still opened no_id 0 None 9)"

definition paired :: "unit VMTasks" where
  "paired = fst (vm_tasks_spawn still single \<lparr>session = 1, id_slot = 1\<rparr> 0 None 12)"

definition asking_task :: "unit VMTasks" where
  "asking_task = fst (vm_tasks_pump still single 1 (Suc (Suc 0)))"

lemma opened_reach: "session_reach still opened"
proof -
  obtain vm' s where c: "vm_tasks_create (\<lambda>_. True) talking_vm () 0 2 2 = (vm', Inr s)"
    by (simp add: vm_tasks_create_def talking_vm_def sizeof_Task_def sizeof_Completion_def SIZE_MAX_def UINT64_MAX_def)
  then have "opened = s" by (simp add: opened_def)
  with session_reach.created [OF c] show ?thesis by simp
qed

lemma sample_reach: "session_reach still single" "session_reach still paired" "session_reach still asking_task"
  unfolding paired_def asking_task_def single_def
  by (intro session_reach.step [OF _ session_step.spawn] session_reach.step [OF _ session_step.pump] opened_reach)+

lemmas session_evaluation = evaluation opened_def single_def paired_def asking_task_def talking_vm_def vm_tasks_create_def
  vm_tasks_spawn_def lookup_def no_id_def no_request_def vm_execution_create_pending_def session_native_def lend_def
  sizeof_Task_def sizeof_Completion_def UINT64_MAX_def

lemma single_task:
  "length (tasks single) = 1" "parent (tasks single ! 0) = 0" "deadline (tasks single ! 0) = 9" "tstatus (tasks single ! 0) = TASK_READY"
  "identity single = 1" "now single = 0" "event_count single = 0"
  by (simp_all add: session_evaluation)


lemma paired_tasks:
  "length (tasks paired) = Suc (Suc 0)" "parent (tasks paired ! Suc 0) = Suc 0" "deadline (tasks paired ! Suc 0) = 9"
  "tstatus (tasks paired ! Suc 0) = TASK_READY" "lookup paired \<lparr>session = 1, id_slot = 1\<rparr> = Some 0"
  by (simp_all add: session_evaluation)

lemma print_entry: "builtin ''print'' = Some \<lparr>bname = ''print'', arity = 1, bpure = False, bcall = HOST\<rparr>"
  by (simp add: builtin_iff BUILTINS_def cstr_def)

lemmas session_running = session_evaluation vm_tasks_pump_def deliver_completions_def expire_def settle_def settle_one_def run_task_def
  give_back_def set_task_def terminal_def op_call_def print_entry execution_builtin_def embedded_builtin_def verify_call_edge_def
  builtin_is_async_def builtin_is_local_state_def native_do_def note_error_def streq_def strcmp_def cstr_def uncovered_def
  after_builtin_def waited_def register_request_def

lemma asking_pending:
  "vm_tasks_pending asking_task \<lparr>session = 1, id_slot = 1\<rparr> =
     Some (\<lparr>op_task = \<lparr>session = 1, id_slot = 1\<rparr>, op_generation = 1\<rparr>, Some (VBool True))"
  "registered asking_task = 1" "event_count asking_task = 0"
  "snd (complete asking_task \<lparr>op_task = \<lparr>session = 1, id_slot = 1\<rparr>, op_generation = 1\<rparr> None None False)"
  by (simp_all add: session_running vm_tasks_pending_def complete_def)

definition stopped :: "unit VMTasks" where
  "stopped = fst (vm_tasks_cancel still single \<lparr>session = 1, id_slot = 1\<rparr>)"

lemma stopped_reach: "session_reach still stopped"
  unfolding stopped_def by (rule session_reach.step [OF sample_reach(1) session_step.cancel])

lemma stopped_status: "vm_tasks_status stopped \<lparr>session = 1, id_slot = 1\<rparr> = TASK_CANCELLED"
  by (simp add: session_running stopped_def vm_tasks_cancel_def cancel_tree_def descendant_def cancel_one_def finish_body_def
      end_body_def vm_execution_destroy_def destroy_services_def restore_stop_signals_def
      holds_stop_signals_def release_request_def note_outcome_def
      vm_tasks_status_def)

theorem task_scopes_supervised_witness:
  "parent (tasks paired ! Suc 0) = Suc 0 \<and> (0::nat) < Suc 0 \<and> deadline (tasks paired ! Suc 0) \<le> deadline (tasks paired ! 0)"
  using task_scopes_supervised [OF sample_reach(2), of "Suc 0"] paired_tasks by simp

theorem task_results_final_witness:
  "vm_tasks_status (fst (vm_tasks_pump still stopped 5 3)) \<lparr>session = 1, id_slot = 1\<rparr> = TASK_CANCELLED"
proof -
  have "over (vm_tasks_status stopped \<lparr>session = 1, id_slot = 1\<rparr>)" unfolding stopped_status by simp
  from task_results_final [OF stopped_reach this r_into_rtranclp [of "session_step still", OF session_step.pump]]
  show ?thesis using stopped_status by metis
qed

theorem operations_completed_once_witness:
  "let op = \<lparr>op_task = \<lparr>session = 1, id_slot = 1\<rparr>, op_generation = 1\<rparr>; s = fst (vm_tasks_complete asking_task op None) in
   snd (vm_tasks_complete asking_task op None) \<and> vm_tasks_complete s op None = (s, False)"
proof -
  let ?op = "\<lparr>op_task = \<lparr>session = 1, id_slot = 1\<rparr>, op_generation = 1\<rparr>"
  have a: "snd (vm_tasks_complete asking_task ?op None)" using asking_pending(4) by (simp add: vm_tasks_complete_def)
  then have "vm_tasks_complete asking_task ?op None = (fst (vm_tasks_complete asking_task ?op None), True)" by (simp add: prod_eq_iff)
  from operations_completed_once [OF sample_reach(3) disjI1 [OF this] rtranclp.rtrancl_refl] a show ?thesis by (simp add: Let_def)
qed

theorem requests_released_witness:
  "\<exists>s'. vm_tasks_destroy still asking_task = Some s' \<and> vm_tasks_stats s' = (1, 1, 0)"
  using requests_released [OF sample_reach(3)] asking_pending(2) by metis

theorem pump_turns_fair_witness:
  "\<exists>k < length (tasks single). has_turn still k 0 (prepared still 1 single)"
proof -
  have "tstatus (tasks (prepared still 1 single) ! 0) = TASK_READY" by (simp add: session_running prepared_def)
  then show ?thesis using pump_turns_fair [OF sample_reach(1), of 1 0] single_task by simp
qed

theorem pump_meets_deadlines_witness:
  "snd (vm_tasks_pump still single 9 4) \<and>
   (vm_tasks_next_deadline (fst (vm_tasks_pump still single 9 4)) = UINT64_MAX \<or> 9 < vm_tasks_next_deadline (fst (vm_tasks_pump still single 9 4)))"
  using pump_meets_deadlines [OF sample_reach(1), of 9 4] single_task(6) by (metis prod.collapse le0)

theorem cancellation_ends_scope_witness:
  "tasks (fst (vm_tasks_cancel still paired \<lparr>session = 1, id_slot = 1\<rparr>)) ! Suc 0 = cancelled_task (tasks paired ! Suc 0)"
proof -
  have "below paired (Suc 0) 0" by (rule below.up [OF paired_tasks(2) below.self])
  from cancellation_ends_scope [OF sample_reach(2) paired_tasks(5) _ this] paired_tasks show ?thesis by (simp add: terminal_def)
qed

theorem completions_in_order_witness:
  "let op = \<lparr>op_task = \<lparr>session = 1, id_slot = 1\<rparr>, op_generation = 1\<rparr> in
   queue_of (fst (complete asking_task op None None False)) = [\<lparr>operation = op, cerror = None, cresult = None\<rparr>]"
proof -
  have "queue_of asking_task = []" by (simp add: queue_of_def asking_pending(3))
  with completions_in_order [OF sample_reach(3), of "\<lparr>op_task = \<lparr>session = 1, id_slot = 1\<rparr>, op_generation = 1\<rparr>" None None False]
    asking_pending(4) show ?thesis by (simp add: Let_def)
qed

end
