(* ===== verification/Spec2Isabelle.thy ===== *)
theory Spec2Isabelle
  imports Decode Purity Guarantees
begin

text \<open>
  A verification library for the Panackelty virtual machine, the C sources under \<open>src/vm\<close>.

  \<^bold>\<open>The program.\<close> The machine loads a bytecode artifact (\<open>decode.c\<close>), checks it (\<open>verify.c\<close>) and runs it
  (\<open>execute.c\<close>) on immutable values (\<open>value.c\<close>) with exact arithmetic (\<open>bigint.c\<close>, \<open>numeric.c\<close>), UTF-8 text
  (\<open>utf8.c\<close>), display forms (\<open>render.c\<close>, \<open>buffer.c\<close>) and a registry of builtins (\<open>builtins*.c\<close>). An execution
  is advanced in budgets and may wait for its embedder; a task session (\<open>tasks.c\<close>) runs many of them with
  parents, deadlines and completions. A collector counts what was executed (\<open>coverage.c\<close>).

  \<^bold>\<open>Conventions.\<close> C integers are natural numbers or integers with the wrap-around written out (\<open>u32\<close>,
  \<open>u64\<close>, \<open>int32\<close>); a signed overflow, which C leaves undefined and which only decimal exponents can reach, is
  modelled as the two's-complement wrap \<open>int32\<close>. Byte strings are lists of \<open>8 word\<close>, C strings lists of characters cut by \<open>cstr\<close>. An
  allocator is a function of the requested size, so every allocation failure of the code is a branch of the
  model; \<open>plentiful\<close> says that nothing is refused. The function may change from one instruction to the next
  (\<open>memory\<close> takes the clock), but within one instruction two equal requests are answered alike. Diagnostics are the source's texts. Everything outside the
  sources is a field of the record \<open>Native\<close>: what a service does to the world \<open>'w\<close> and what it answers. The
  world is a type variable, so a theorem holds for every environment. Reference counts and the release of
  memory have no counterpart.

  \<^bold>\<open>Theories, in the order of the code.\<close>
  \<^item> \<open>Prelude\<close>: machine integers, C strings, allocators, outcomes (\<open>Ret\<close>, \<open>Trap\<close>, \<open>NoMemory\<close>) and the
    collections of facts the others share.
  \<^item> \<open>Bigint\<close> (\<open>bigint.c\<close>): sign and base \<open>10^9\<close> limbs, every loop a recursion. \<open>big_val\<close> is the integer a
    representation stands for; addition, subtraction, multiplication, division and printing are exact. The
    locale \<open>exact_ring\<close> states what clients use and is interpreted on the operations.
  \<^item> \<open>Utf8\<close> (\<open>utf8.c\<close>): the validator against an encoder of scalar values, and code point offsets.
  \<^item> \<open>Values\<close> (\<open>value.c\<close>, \<open>value.h\<close>): values as a datatype with the tagged union's constructors, construction,
    equality, decimal comparison without alignment.
  \<^item> \<open>Numeric\<close> (\<open>numeric.c\<close>): the operators, with gcd, alignment and finite-division loops; exactness, kept
    well-formedness, the classes of faults, and when the wrapping exponent makes a decimal product wrong.
  \<^item> \<open>Program\<close> (\<open>program.c\<close>, \<open>program.h\<close>): instructions and functions, and that the two lookups agree.
  \<^item> \<open>Decode\<close> (\<open>decode.c\<close>): readers over a byte buffer against a specified encoder. The locales
    \<open>sound_reader\<close> and \<open>exact_reader\<close> are the contracts of one reader and are interpreted on each; the
    decoder accepts exactly the encodings of valid programs.
  \<^item> \<open>Render\<close> (\<open>render.c\<close>, \<open>buffer.c\<close>): text of values; decimals denote their value, and
    strings in containers are not escaped, so that every array of strings looks like an array of one.
  \<^item> \<open>Builtins\<close> (\<open>builtins.c\<close> and the text, numeric and collection handlers): the registry and the
    handlers; maps built by \<open>map_put\<close> hold the last value put at each key and no key twice (locale
    \<open>persistent_map\<close>); the text operations and conversions return what they should on every string, unless an
    allocation is refused (\<open>answers\<close>).
  \<^item> \<open>Verify\<close> (\<open>verify.c\<close>): every check; acceptance is exactly well-formedness, inferred effects are the
    least solution, and effects are contained along calls.
  \<^item> \<open>Coverage\<close> (\<open>coverage.c\<close>): counters, saturation, flags and the raw record.
  \<^item> \<open>Machine\<close>, \<open>Services\<close>, \<open>Dispatch\<close>, \<open>Execute\<close> (\<open>execute.c\<close>, \<open>vm.h\<close>): frames and stacks; the builtins the
    executor intercepts, with the stop signals of the owner of the HTTP runtime (\<open>runtime_owner\<close>); one
    definition per opcode; the budgeted loop, creation, destruction, completions,
    polling and the synchronous adapter.
  \<^item> \<open>Steps\<close>, \<open>Advance\<close>: what an opcode, a service and a call change, and the locales \<open>dispatch_invariant\<close> and
    \<open>run_invariant\<close>: what opcodes keep, a whole advance keeps. They are interpreted once per invariant.
  \<^item> \<open>Lifecycle\<close>: the states an embedder can reach (\<open>embedder_step\<close>), the meaning of statuses, budgets that
    can be sliced, and their bounds. \<open>Purity\<close>: pure functions leave the world alone.
  \<^item> \<open>Tasks\<close> (\<open>tasks.c\<close>): the session record and every operation. \<open>Requests\<close>: what an execution inside a task
    may do to its request. \<open>Sessions\<close>: the tree of tasks, cancellation, joining and the invariant of a
    session; the locale \<open>ending_invariant\<close> carries an invariant through every way a task ends.
    \<open>Scheduling\<close>: turns, deadlines, delivery and admission keep the invariant. \<open>Guarantees\<close>: the sessions an
    embedder can reach (\<open>session_reach\<close>) and what holds in all of them: supervision, final results, one
    completion per operation, released requests, fair turns, deadlines, cancellation of scopes, and the
    completion ring as a queue (locale \<open>bounded_queue\<close>).

  \<^bold>\<open>Loops and fuel.\<close> Loops over data are structural recursions. Where a loop is bounded by a number, the
  number is an argument with the bound the code has: the budget of an advance, the turns of a pump, the
  events of a delivery (each turn takes one, and the model is proved to empty the ring), the slot of a task
  for the walk along its parents (parents have smaller slots). The loops of division, gcd and effect inference
  have fuel or a measure with a proof that it suffices. The loop of the synchronous adapter (\<open>execute\<close>) may
  run for ever: it is a partial function whose value is \<open>None\<close> then, and no theorem says that it ends.

  \<^bold>\<open>Assumptions.\<close> They are hypotheses of the theorems that need them: \<open>plentiful\<close> memory for claims that an
  operation succeeds; \<open>silent\<close> services, which leave a diagnostic only where the code reads one; \<open>pure_services\<close>,
  that handlers of pure builtins leave the world alone. Each has a witness.

  \<^bold>\<open>Not modelled.\<close> Host services, sockets, HTTP, console and file I/O, gzip, digests, coverage files and the
  command line (\<open>host*.c\<close>, \<open>tcp*.c\<close>, \<open>http_*.c\<close>, \<open>console_write.c\<close>, \<open>root_read.c\<close>, \<open>filesystem_stage.c\<close>,
  \<open>gzip_stream.c\<close>, \<open>digest.c\<close>, \<open>coverage_session.c\<close>, \<open>main.c\<close>, \<open>builtins_vm.c\<close>, \<open>builtins_http_state.c\<close>): they are
  system calls and library state, and enter as fields of \<open>Native\<close>. Reference counting and the sharing of
  array storage in \<open>value.c\<close> change no value; \<open>value_array_append\<close> therefore asks for new storage where the code
  may reuse shared storage. Tasks have no coverage run, since opening one is file access: \<open>vm_tasks_create\<close> clears
  the flag of the virtual machine it copies.
\<close>

end
